(* ===== verification/Mr_Prelude.thy ===== *)
theory Mr_Prelude
  imports Main "HOL-Library.Word" "HOL-Library.Multiset" "HOL-Library.Sublist"
begin

text \<open>
  Shared vocabulary of the development: the machine types of the C sources on the LP64
  platform they are built for, the little-endian layout of a \<open>size_t\<close> in memory, C strings
  as the bytes up to the first NUL, the conversion of a byte count to \<open>ssize_t\<close>, and the
  collections of facts the component theories fill.
\<close>

section \<open>Collections\<close>

named_theorems ok_simps "equations that push the predicate ok through the control structure of C"
named_theorems ok_macros "the same for the error-checking macros and conditionals"
named_theorems halts_simps "equations that push the predicate halts through the control structure of C"
named_theorems wire "lengths and round trips of the byte encodings"

section \<open>Machine types\<close>

type_synonym byte = "8 word"
type_synonym size_t = "64 word"
type_synonym ulong = "64 word"

text \<open>A path and every other \<open>const char*\<close> argument is the list of its bytes before the NUL.\<close>

type_synonym path = "byte list"

abbreviation SSIZE_LIMIT :: nat where
  "SSIZE_LIMIT \<equiv> 9223372036854775808"

text \<open>Conversion of a \<open>size_t\<close> counter to the \<open>ssize_t\<close> a function returns.\<close>

definition ssize :: "nat \<Rightarrow> int" where
  "ssize n = sint (word_of_nat n :: 64 word)"

lemma ssize_small [simp]: "n < SSIZE_LIMIT \<Longrightarrow> ssize n = int n"
  by (simp add: ssize_def signed_of_nat signed_take_bit_int_eq_self)

lemma ssize_0 [simp]: "ssize 0 = 0"
  by (simp add: ssize_def)

lemma unat_of_nat_size: "n < 2 ^ 64 \<Longrightarrow> unat (word_of_nat n :: size_t) = n"
  by (simp add: unat_of_nat take_bit_nat_eq_self)

lemma unat_of_nat_small [simp]: "n < SSIZE_LIMIT \<Longrightarrow> unat (word_of_nat n :: size_t) = n"
  by (rule unat_of_nat_size) simp

lemma size_of_nat_eq_0 [simp]:
  assumes "n < SSIZE_LIMIT"
  shows "(word_of_nat n :: size_t) = 0 \<longleftrightarrow> n = 0"
proof
  assume "(word_of_nat n :: size_t) = 0"
  with unat_of_nat_small [OF assms] show "n = 0" by simp
qed simp

lemma size_of_nat_pos [simp]: "n < SSIZE_LIMIT \<Longrightarrow> 0 < (word_of_nat n :: size_t) \<longleftrightarrow> 0 < n"
  by (simp add: word_neq_0_conv [symmetric])

lemma unat_size_succ:
  "n < SSIZE_LIMIT \<Longrightarrow> unat ((word_of_nat n :: size_t) + 1) = Suc n"
proof -
  assume "n < SSIZE_LIMIT"
  then have "unat (word_of_nat (Suc n) :: size_t) = Suc n"
    by (intro unat_of_nat_size) simp
  then show ?thesis by (simp add: add.commute)
qed

section \<open>Little-endian byte representation\<close>

fun le_bytes :: "nat \<Rightarrow> nat \<Rightarrow> byte list" where
  "le_bytes 0 n = []"
| "le_bytes (Suc k) n = word_of_nat (n mod 256) # le_bytes k (n div 256)"

fun le_nat :: "byte list \<Rightarrow> nat" where
  "le_nat [] = 0"
| "le_nat (b # bs) = unat b + 256 * le_nat bs"

lemma length_le_bytes [simp, wire]: "length (le_bytes k n) = k"
  by (induction k arbitrary: n) auto

lemma unat_byte_mod: "unat (word_of_nat (n mod 256) :: byte) = n mod 256"
  by (simp add: unat_of_nat take_bit_nat_eq_self)

lemma le_nat_le_bytes: "le_nat (le_bytes k n) = n mod 256 ^ k"
proof (induction k arbitrary: n)
  case 0
  then show ?case by simp
next
  case (Suc k)
  then have "le_nat (le_bytes (Suc k) n) = n mod 256 + 256 * (n div 256 mod 256 ^ k)"
    by (simp add: unat_byte_mod)
  also have "\<dots> = n mod 256 ^ Suc k"
    by (simp add: mod_mult2_eq)
  finally show ?case .
qed

text \<open>How a \<open>size_t\<close> lies in memory, and how it is read back from eight bytes.\<close>

definition enc_size :: "size_t \<Rightarrow> byte list" where
  "enc_size w = le_bytes 8 (unat w)"

definition dec_size :: "byte list \<Rightarrow> size_t" where
  "dec_size bs = word_of_nat (le_nat bs)"

lemma length_enc_size [simp, wire]: "length (enc_size w) = 8"
  by (simp add: enc_size_def)

lemma dec_enc_size [simp, wire]: "dec_size (enc_size w) = w"
proof -
  have "unat w < 256 ^ 8"
    using unsigned_less [of w, where 'a = nat] by simp
  then show ?thesis
    by (simp add: dec_size_def enc_size_def le_nat_le_bytes)
qed

section \<open>C strings\<close>

text \<open>
  The characters of the string at the start of a block of memory: the bytes before the first
  NUL. A block without a NUL is not a string; the operations that scan one are undefined there.
\<close>

definition is_cstr :: "byte list \<Rightarrow> bool" where
  "is_cstr b \<longleftrightarrow> 0 \<in> set b"

definition cstr :: "byte list \<Rightarrow> byte list" where
  "cstr b = takeWhile (\<lambda>c. c \<noteq> 0) b"

lemma cstr_append_nul [simp]: "0 \<notin> set t \<Longrightarrow> cstr (t @ 0 # r) = t"
  by (subst cstr_def, subst takeWhile_append2) auto

lemma is_cstr_append_nul [simp]: "is_cstr (t @ 0 # r)"
  by (simp add: is_cstr_def)

lemma zero_notin_cstr [simp]: "0 \<notin> set (cstr b)"
  by (auto simp: cstr_def dest: set_takeWhileD)

section \<open>Lists\<close>

lemma take_append_drop_splice:
  "n \<le> length b \<Longrightarrow> length xs \<le> n \<Longrightarrow>
   length (xs @ drop (length xs) b) = length b"
  by simp

lemma take_min_length [simp]: "take (min k (length xs)) xs = take k xs"
  by (simp add: min_def)

lemma drop_min_length [simp]: "drop (min k (length xs)) xs = drop k xs"
  by (simp add: min_def)

lemma suffix_set: "suffix xs ys \<Longrightarrow> set xs \<subseteq> set ys"
  by (auto simp: suffix_def)

lemma mset_butlast_last: "xs \<noteq> [] \<Longrightarrow> add_mset (last xs) (mset (butlast xs)) = mset xs"
  by (metis append_butlast_last_id mset.simps(2) mset_append add_mset_add_single mset.simps(1))

lemma length_le_concat: "x \<in> set xs \<Longrightarrow> length x \<le> length (concat xs)"
  by (induction xs) auto

section \<open>Transition systems\<close>

text \<open>States reached from a state by steps with labels of a set.\<close>

inductive reachable :: "('l \<Rightarrow> 'm \<Rightarrow> 'm \<Rightarrow> bool) \<Rightarrow> 'l set \<Rightarrow> 'm \<Rightarrow> 'm \<Rightarrow> bool"
  for stp :: "'l \<Rightarrow> 'm \<Rightarrow> 'm \<Rightarrow> bool" and ls :: "'l set" where
  reachable_refl: "reachable stp ls m m"
| reachable_step: "reachable stp ls m m' \<Longrightarrow> l \<in> ls \<Longrightarrow> stp l m' m'' \<Longrightarrow> reachable stp ls m m''"

lemma reachable_trans:
  assumes "reachable stp ls b c" and "reachable stp ls a b"
  shows "reachable stp ls a c"
  using assms by (induction rule: reachable.induct) (auto intro: reachable.intros)

lemma reachable_front:
  "stp l m m' \<Longrightarrow> l \<in> ls \<Longrightarrow> reachable stp ls m' m'' \<Longrightarrow> reachable stp ls m m''"
  by (erule reachable_trans) (rule reachable_step [OF reachable_refl])

lemma reachable_more: "reachable stp ls m m' \<Longrightarrow> ls \<subseteq> ls' \<Longrightarrow> reachable stp ls' m m'"
  by (induction rule: reachable.induct) (auto intro: reachable.intros)

text \<open>The contract of an invariant: it holds at the start and every step keeps it.\<close>

locale machine_invariant =
  fixes stp :: "'l \<Rightarrow> 'm \<Rightarrow> 'm \<Rightarrow> bool" and ls :: "'l set"
    and init :: "'m \<Rightarrow> bool" and inv :: "'m \<Rightarrow> bool"
  assumes init_inv: "init m \<Longrightarrow> inv m"
    and step_inv: "l \<in> ls \<Longrightarrow> inv m \<Longrightarrow> stp l m m' \<Longrightarrow> inv m'"
begin

lemma kept: "reachable stp ls m m' \<Longrightarrow> inv m \<Longrightarrow> inv m'"
  by (induction rule: reachable.induct) (blast intro: step_inv)+

lemma always: "init m \<Longrightarrow> reachable stp ls m m' \<Longrightarrow> inv m'"
  by (rule kept) (auto intro: init_inv)

end

text \<open>
  The contract of a refinement: seen through \<open>abs\<close>, a step of the machine is a step of the
  specification or no step at all.
\<close>

locale machine_refinement = machine_invariant +
  fixes spec :: "'a \<Rightarrow> 's \<Rightarrow> 's \<Rightarrow> bool" and abs :: "'b \<Rightarrow> 's"
  assumes simulates: "l \<in> ls \<Longrightarrow> inv m \<Longrightarrow> stp l m m' \<Longrightarrow> abs m' = abs m \<or> spec l (abs m) (abs m')"
begin

lemma reachable_spec: "reachable stp ls m m' \<Longrightarrow> inv m \<Longrightarrow> reachable spec ls (abs m) (abs m')"
proof (induction rule: reachable.induct)
  case (reachable_step m m' l m'')
  have "inv m'" by (rule kept [OF reachable_step(1,5)])
  from simulates [OF reachable_step(2) this reachable_step(3)] show ?case
    using reachable_step(2,4,5) by (auto intro: reachable.reachable_step)
qed (rule reachable_refl)

lemma refines: "init m \<Longrightarrow> reachable stp ls m m' \<Longrightarrow> reachable spec ls (abs m) (abs m')"
  by (rule reachable_spec) (auto intro: init_inv)

end

end
