(* ===== verification/Mr_Effects.thy ===== *)
theory Mr_Effects
  imports Mr_Prelude
begin

text \<open>
  The effects of the C code. A C function is a function from the environment and the state of
  its process to the way it ends and the new environment and state. It ends either with a value
  (\<open>Inr\<close>) or because the process stops there (\<open>Inl\<close>): a failed \<open>assert\<close>, undefined
  behaviour, a call that blocks for ever, \<open>_exit\<close>.

  The environment answers the system and library calls: every call that can fail or transfer less
  than it was asked to takes the next answer of a list the environment has prepared, so a theorem
  about every environment is a theorem about every combination of failures and short transfers.
  The macros of \<open>src/utils.h\<close> are combinators over these functions, with the early
  \<open>return\<close> of the macro as the branch that drops the rest of the function.
\<close>

section \<open>How a call ends\<close>

datatype stop = Assert_Failed | Undefined | Blocked | Exited int | Out_Of_Fuel

type_synonym ('w, 'a) io = "'w \<Rightarrow> (stop + 'a) \<times> 'w"

definition return_io :: "'a \<Rightarrow> ('w, 'a) io" where
  "return_io x = (\<lambda>w. (Inr x, w))"

definition stop_io :: "stop \<Rightarrow> ('w, 'a) io" where
  "stop_io x = (\<lambda>w. (Inl x, w))"

definition bind_io :: "('w, 'a) io \<Rightarrow> ('a \<Rightarrow> ('w, 'b) io) \<Rightarrow> ('w, 'b) io" where
  "bind_io m k = (\<lambda>w. case m w of (Inl x, w') \<Rightarrow> (Inl x, w') | (Inr x, w') \<Rightarrow> k x w')"

definition seq_io :: "('w, 'a) io \<Rightarrow> ('w, 'b) io \<Rightarrow> ('w, 'b) io" where
  "seq_io m k = bind_io m (\<lambda>_. k)"

abbreviation skip :: "('w, unit) io" where
  "skip \<equiv> return_io ()"

text \<open>
  A loop that runs its body until the body gives a result, with a bound on the number of rounds.
  Where it is used, the bound is computed from the state and shown to suffice.
\<close>

primrec loop_io :: "nat \<Rightarrow> ('w, 'a option) io \<Rightarrow> ('w, 'a) io" where
  "loop_io 0 body = stop_io Out_Of_Fuel"
| "loop_io (Suc n) body =
     bind_io body (\<lambda>r. case r of Some x \<Rightarrow> return_io x | None \<Rightarrow> loop_io n body)"

section \<open>The macros of utils.h\<close>

text \<open>
  \<open>m1\<close> is what \<open>return -1\<close> is in the function the macro stands in, \<open>rc\<close> reads the
  \<open>int\<close> the macro compares, and \<open>rest\<close> is the code after the macro.
\<close>

definition SYSCALL_RET ::
    "'b \<Rightarrow> ('x \<Rightarrow> int) \<Rightarrow> ('w, 'x) io \<Rightarrow> ('w, 'c) io \<Rightarrow> ('x \<Rightarrow> ('w, 'b) io) \<Rightarrow> ('w, 'b) io" where
  "SYSCALL_RET m1 rc expression command rest =
     bind_io expression (\<lambda>result.
       if rc result = -1 then seq_io command (return_io m1) else rest result)"

definition SYSCALL_RET_CHECK ::
    "'b \<Rightarrow> ('w, int) io \<Rightarrow> ('w, 'c) io \<Rightarrow> ('w, 'b) io \<Rightarrow> ('w, 'b) io" where
  "SYSCALL_RET_CHECK m1 expression command rest =
     bind_io expression (\<lambda>result.
       if result = -1 then seq_io command (return_io m1) else rest)"

abbreviation (input) EXIT_SUCCESS :: int where "EXIT_SUCCESS \<equiv> 0"

abbreviation (input) EXIT_FAILURE :: int where "EXIT_FAILURE \<equiv> 1"

definition SYSCALL_EXIT_CHECK ::
    "('w, int) io \<Rightarrow> ('w, 'c) io \<Rightarrow> ('w, int) io \<Rightarrow> ('w, int) io" where
  "SYSCALL_EXIT_CHECK expression command rest =
     bind_io expression (\<lambda>result.
       if result = -1 then seq_io command (return_io EXIT_FAILURE) else rest)"

section \<open>The environment\<close>

text \<open>
  \<open>Full\<close>: the call succeeds and transfers all it was asked to. \<open>Part n\<close>: it succeeds, and a
  transfer moves at most \<open>n + 1\<close> bytes. \<open>Fault\<close>: it fails. When the list is used up every
  call succeeds. \<open>garbage\<close> is the content of memory nobody has written; \<open>ndebug\<close> tells the
  release build (\<open>-DNDEBUG\<close>, asserts compiled out) from the debug build of \<open>src/Makefile\<close>.
\<close>

datatype answer = Full | Part nat | Fault

datatype log_item =
    Log_prefix string string string  \<comment> \<open>process, thread and level of the entry\<close>
  | Log_message string
  | Log_newline

record env =
  answers :: "answer list"
  ndebug :: bool
  garbage :: "nat \<Rightarrow> byte"
  logs :: "path \<Rightarrow> log_item list"    \<comment> \<open>what has been written to each log file\<close>
  sem_val :: "nat \<Rightarrow> nat"             \<comment> \<open>value of each POSIX semaphore object\<close>
  sem_name :: "nat option"            \<comment> \<open>the object the name of the log semaphore stands for\<close>
  sem_next :: nat                     \<comment> \<open>next unused semaphore object\<close>

abbreviation next_answer :: "env \<Rightarrow> answer" where
  "next_answer e \<equiv> (case answers e of [] \<Rightarrow> Full | a # _ \<Rightarrow> a)"

text \<open>Take the next answer.\<close>

definition ask :: "(env \<times> 's, answer) io" where
  "ask = (\<lambda>(e, s). (Inr (next_answer e), (e\<lparr>answers := tl (answers e)\<rparr>, s)))"

text \<open>A call that only succeeds or fails: \<open>ok\<close> and \<open>bad\<close> are its two results.\<close>

definition call :: "'a \<Rightarrow> 'a \<Rightarrow> (env \<times> 's, 'a) io" where
  "call good bad = bind_io ask (\<lambda>a. return_io (if a = Fault then bad else good))"

definition get_env :: "(env \<Rightarrow> 'a) \<Rightarrow> (env \<times> 's, 'a) io" where
  "get_env f = (\<lambda>(e, s). (Inr (f e), (e, s)))"

definition put_env :: "(env \<Rightarrow> env) \<Rightarrow> (env \<times> 's, unit) io" where
  "put_env f = (\<lambda>(e, s). (Inr (), (f e, s)))"

definition get_st :: "('s \<Rightarrow> 'a) \<Rightarrow> ('e \<times> 's, 'a) io" where
  "get_st f = (\<lambda>(e, s). (Inr (f s), (e, s)))"

definition put_st :: "('s \<Rightarrow> 's) \<Rightarrow> ('e \<times> 's, unit) io" where
  "put_st f = (\<lambda>(e, s). (Inr (), (e, f s)))"

text \<open>The C macro \<open>assert\<close>, in both builds.\<close>

definition assert_c :: "bool \<Rightarrow> (env \<times> 's, unit) io" where
  "assert_c b = bind_io (get_env ndebug) (\<lambda>nd. if nd \<or> b then skip else stop_io Assert_Failed)"

text \<open>What the C standard leaves undefined when \<open>b\<close> fails.\<close>

definition defined_c :: "bool \<Rightarrow> ('w, unit) io" where
  "defined_c b = (if b then skip else stop_io Undefined)"

section \<open>Returning with a postcondition\<close>

text \<open>\<open>ok m e s Q\<close>: started in \<open>(e, s)\<close>, the call \<open>m\<close> returns, and \<open>Q\<close> holds of its result.\<close>

definition ok :: "('e \<times> 's, 'a) io \<Rightarrow> 'e \<Rightarrow> 's \<Rightarrow> ('a \<Rightarrow> 'e \<Rightarrow> 's \<Rightarrow> bool) \<Rightarrow> bool" where
  "ok m e s Q \<longleftrightarrow> (\<exists>r e' s'. m (e, s) = (Inr r, (e', s')) \<and> Q r e' s')"

lemma okI: "m (e, s) = (Inr r, (e', s')) \<Longrightarrow> Q r e' s' \<Longrightarrow> ok m e s Q"
  by (auto simp: ok_def)

lemma okE:
  assumes "ok m e s Q"
  obtains r e' s' where "m (e, s) = (Inr r, (e', s'))" and "Q r e' s'"
  using assms by (auto simp: ok_def)

lemma ok_mono: "ok m e s P \<Longrightarrow> (\<And>r e' s'. P r e' s' \<Longrightarrow> Q r e' s') \<Longrightarrow> ok m e s Q"
  by (auto simp: ok_def)

lemma ok_conj: "ok m e s P \<Longrightarrow> ok m e s Q \<Longrightarrow> ok m e s (\<lambda>r e' s'. P r e' s' \<and> Q r e' s')"
  by (auto simp: ok_def)

lemma ok_returns: "ok m e s Q \<Longrightarrow> fst (m (e, s)) \<noteq> Inl x"
  by (auto simp: ok_def)

lemma ok_result: "m (e, s) = (Inr r, (e', s')) \<Longrightarrow> ok m e s Q \<longleftrightarrow> Q r e' s'"
  by (auto simp: ok_def)

lemma ok_return [ok_simps]: "ok (return_io x) e s Q \<longleftrightarrow> Q x e s"
  by (auto simp: ok_def return_io_def)

lemma ok_stop [ok_simps]: "ok (stop_io x) e s Q \<longleftrightarrow> False"
  by (auto simp: ok_def stop_io_def)

lemma ok_bind [ok_simps]:
  "ok (bind_io m k) e s Q \<longleftrightarrow> ok m e s (\<lambda>x e' s'. ok (k x) e' s' Q)"
  by (auto simp: ok_def bind_io_def split: prod.splits sum.splits)

lemma ok_seq [ok_simps]:
  "ok (seq_io m k) e s Q \<longleftrightarrow> ok m e s (\<lambda>x e' s'. ok k e' s' Q)"
  by (simp add: seq_io_def ok_bind)

lemma ok_if [ok_macros]:
  "ok (if b then m else k) e s Q \<longleftrightarrow> (if b then ok m e s Q else ok k e s Q)"
  by simp

lemma ok_SYSCALL_RET [ok_macros]:
  "ok (SYSCALL_RET m1 rc m c k) e s Q \<longleftrightarrow>
     ok m e s (\<lambda>r e' s'. if rc r = -1 then ok c e' s' (\<lambda>_. Q m1) else ok (k r) e' s' Q)"
  unfolding SYSCALL_RET_def ok_bind
  by (rule arg_cong [where f = "ok m e s"]) (simp add: fun_eq_iff ok_simps)

lemma ok_SYSCALL_RET_CHECK [ok_macros]:
  "ok (SYSCALL_RET_CHECK m1 m c k) e s Q \<longleftrightarrow>
     ok m e s (\<lambda>r e' s'. if r = -1 then ok c e' s' (\<lambda>_. Q m1) else ok k e' s' Q)"
  unfolding SYSCALL_RET_CHECK_def ok_bind
  by (rule arg_cong [where f = "ok m e s"]) (simp add: fun_eq_iff ok_simps)

lemma ok_SYSCALL_EXIT_CHECK [ok_macros]:
  "ok (SYSCALL_EXIT_CHECK m c k) e s Q \<longleftrightarrow>
     ok m e s (\<lambda>r e' s'. if r = -1 then ok c e' s' (\<lambda>_. Q EXIT_FAILURE) else ok k e' s' Q)"
  unfolding SYSCALL_EXIT_CHECK_def ok_bind
  by (rule arg_cong [where f = "ok m e s"]) (simp add: fun_eq_iff ok_simps)

lemma ok_get_env [ok_simps]: "ok (get_env f) e s Q \<longleftrightarrow> Q (f e) e s"
  by (auto simp: ok_def get_env_def)

lemma ok_put_env [ok_simps]: "ok (put_env f) e s Q \<longleftrightarrow> Q () (f e) s"
  by (auto simp: ok_def put_env_def)

lemma ok_get_st [ok_simps]: "ok (get_st f) e s Q \<longleftrightarrow> Q (f s) e s"
  by (auto simp: ok_def get_st_def)

lemma ok_put_st [ok_simps]: "ok (put_st f) e s Q \<longleftrightarrow> Q () e (f s)"
  by (auto simp: ok_def put_st_def)

lemma ok_ask: "ok ask e s Q \<longleftrightarrow> Q (next_answer e) (e\<lparr>answers := tl (answers e)\<rparr>) s"
  by (auto simp: ok_def ask_def)

lemma ok_assert [ok_simps]: "ok (assert_c b) e s Q \<longleftrightarrow> (ndebug e \<or> b) \<and> Q () e s"
  by (auto simp: assert_c_def ok_simps)

lemma ok_defined [ok_simps]: "ok (defined_c b) e s Q \<longleftrightarrow> b \<and> Q () e s"
  by (auto simp: defined_c_def ok_simps)

section \<open>How an environment evolves\<close>

text \<open>
  A call consumes answers, leaves the build and the uninitialised memory alone and leaves every
  usable log semaphore usable. \<open>SEM_VALUE_MAX\<close> is the largest value POSIX allows here.
\<close>

abbreviation SEM_VALUE_MAX :: nat where "SEM_VALUE_MAX \<equiv> 2147483647"

definition sem_usable :: "env \<Rightarrow> nat \<Rightarrow> bool" where
  "sem_usable e i \<longleftrightarrow> 0 < sem_val e i \<and> sem_val e i \<le> SEM_VALUE_MAX"

definition evolve :: "env \<Rightarrow> env \<Rightarrow> bool" where
  "evolve e e' \<longleftrightarrow>
     suffix (answers e') (answers e) \<and> ndebug e' = ndebug e \<and> garbage e' = garbage e \<and> sem_name e' = sem_name e \<and>
     (\<forall>i. sem_usable e i \<longrightarrow> sem_usable e' i)"

definition faulty :: "env \<Rightarrow> bool" where
  "faulty e \<longleftrightarrow> Fault \<in> set (answers e)"

lemma evolve_refl [intro, simp]: "evolve e e"
  by (simp add: evolve_def)

lemma evolve_trans [trans]: "evolve a b \<Longrightarrow> evolve b c \<Longrightarrow> evolve a c"
  by (auto simp: evolve_def intro: suffix_order.trans)

lemma evolve_faulty: "evolve e e' \<Longrightarrow> faulty e' \<Longrightarrow> faulty e"
  by (auto simp: evolve_def faulty_def dest: suffix_set)

lemma evolve_ndebug: "evolve e e' \<Longrightarrow> ndebug e' = ndebug e"
  by (simp add: evolve_def)

lemma evolve_garbage: "evolve e e' \<Longrightarrow> garbage e' = garbage e"
  by (simp add: evolve_def)

lemma evolve_pop: "evolve e0 e \<Longrightarrow> evolve e0 (e\<lparr>answers := tl (answers e)\<rparr>)"
  by (auto simp: evolve_def sem_usable_def intro: suffix_order.trans [of "tl (answers e)"] suffix_tl)

lemma evolve_next_fault: "evolve e0 e \<Longrightarrow> next_answer e = Fault \<Longrightarrow> faulty e0"
  by (rule evolve_faulty) (auto simp: faulty_def split: list.splits)

text \<open>
  The rules for calls have the current environment's history as their first premise and hand it
  on in each continuation, so a proof runs them one after the other.
\<close>

lemma ask_ok:
  assumes "evolve e0 e"
    and "\<And>e' a. evolve e0 e' \<Longrightarrow> a \<noteq> Fault \<Longrightarrow> Q a e' s"
    and "\<And>e'. evolve e0 e' \<Longrightarrow> faulty e0 \<Longrightarrow> Q Fault e' s"
  shows "ok ask e s Q"
  using assms evolve_pop [OF assms(1)] evolve_next_fault [OF assms(1)]
  by (cases "next_answer e = Fault") (auto simp: ok_ask)

lemma call_ok:
  assumes "evolve e0 e"
    and "\<And>e'. evolve e0 e' \<Longrightarrow> Q good e' s"
    and "\<And>e'. evolve e0 e' \<Longrightarrow> faulty e0 \<Longrightarrow> Q bad e' s"
  shows "ok (call good bad) e s Q"
  unfolding call_def ok_bind
  by (rule ask_ok [OF assms(1)]) (auto simp: ok_simps assms)

section \<open>Halting\<close>

text \<open>
  \<open>halts m e s Q\<close>: the bounds of the loops in \<open>m\<close> suffice, whatever the environment does, and
  \<open>Q\<close> holds if \<open>m\<close> returns. It is what is proved of a loop on an arbitrary input.
\<close>

definition halts :: "('e \<times> 's, 'a) io \<Rightarrow> 'e \<Rightarrow> 's \<Rightarrow> ('a \<Rightarrow> 'e \<Rightarrow> 's \<Rightarrow> bool) \<Rightarrow> bool" where
  "halts m e s Q \<longleftrightarrow>
     (case m (e, s) of (Inl x, _) \<Rightarrow> x \<noteq> Out_Of_Fuel | (Inr r, (e', s')) \<Rightarrow> Q r e' s')"

lemma halts_mono: "halts m e s P \<Longrightarrow> (\<And>r e' s'. P r e' s' \<Longrightarrow> Q r e' s') \<Longrightarrow> halts m e s Q"
  by (auto simp: halts_def split: prod.splits sum.splits)

lemma halts_no_fuel: "halts m e s Q \<Longrightarrow> fst (m (e, s)) \<noteq> Inl Out_Of_Fuel"
  by (auto simp: halts_def split: prod.splits sum.splits)

lemma halts_return [halts_simps]: "halts (return_io x) e s Q \<longleftrightarrow> Q x e s"
  by (simp add: halts_def return_io_def)

lemma halts_stop [halts_simps]: "halts (stop_io x) e s Q \<longleftrightarrow> x \<noteq> Out_Of_Fuel"
  by (simp add: halts_def stop_io_def)

lemma halts_bind [halts_simps]:
  "halts (bind_io m k) e s Q \<longleftrightarrow> halts m e s (\<lambda>x e' s'. halts (k x) e' s' Q)"
  by (auto simp: halts_def bind_io_def split: prod.splits sum.splits)

lemma halts_seq [halts_simps]:
  "halts (seq_io m k) e s Q \<longleftrightarrow> halts m e s (\<lambda>x e' s'. halts k e' s' Q)"
  by (simp add: seq_io_def halts_bind)

lemma halts_if [halts_simps]:
  "halts (if b then m else k) e s Q \<longleftrightarrow> (b \<longrightarrow> halts m e s Q) \<and> (\<not> b \<longrightarrow> halts k e s Q)"
  by simp

lemma halts_SYSCALL_RET [halts_simps]:
  "halts (SYSCALL_RET m1 rc m c k) e s Q \<longleftrightarrow>
     halts m e s (\<lambda>r e' s'. if rc r = -1 then halts c e' s' (\<lambda>_. Q m1) else halts (k r) e' s' Q)"
  unfolding SYSCALL_RET_def halts_bind
  by (rule arg_cong [where f = "halts m e s"]) (simp add: fun_eq_iff halts_bind halts_seq halts_return)

lemma halts_SYSCALL_RET_CHECK [halts_simps]:
  "halts (SYSCALL_RET_CHECK m1 m c k) e s Q \<longleftrightarrow>
     halts m e s (\<lambda>r e' s'. if r = -1 then halts c e' s' (\<lambda>_. Q m1) else halts k e' s' Q)"
  unfolding SYSCALL_RET_CHECK_def halts_bind
  by (rule arg_cong [where f = "halts m e s"]) (simp add: fun_eq_iff halts_bind halts_seq halts_return)

lemma halts_primitives [halts_simps]:
  "halts (get_env f) e s Q \<longleftrightarrow> Q (f e) e s"
  "halts (put_env g) e s R \<longleftrightarrow> R () (g e) s"
  "halts (get_st h) e s P \<longleftrightarrow> P (h s) e s"
  "halts (put_st k) e s R \<longleftrightarrow> R () e (k s)"
  by (auto simp: halts_def get_env_def put_env_def get_st_def put_st_def)

lemma halts_assert [halts_simps]: "halts (assert_c b) e s Q \<longleftrightarrow> (ndebug e \<or> b \<longrightarrow> Q () e s)"
  by (auto simp: assert_c_def halts_simps)

lemma halts_defined [halts_simps]: "halts (defined_c b) e s Q \<longleftrightarrow> (b \<longrightarrow> Q () e s)"
  by (auto simp: defined_c_def halts_simps)

lemma halts_ask: "(\<And>a e'. Q a e' s) \<Longrightarrow> halts ask e s Q"
  by (simp add: halts_def ask_def)

lemma halts_call: "(\<And>r e'. Q r e' s) \<Longrightarrow> halts (call good bad) e s Q"
  by (auto simp: call_def halts_simps intro: halts_ask)

end
