(* ===== verification/Mr_Log.thy ===== *)
theory Mr_Log
  imports Mr_Effects
begin

text \<open>
  \<open>src/log.c\<close>: the log shared by the three processes. An entry is written under a named POSIX
  semaphore; the state is the log file (whose content the environment keeps, as other processes
  append to it too), the value of each semaphore object and the object the name
  \<open>MR_LOG_SEM_NAME\<close> stands for. The arguments of a message are not rendered: an entry holds
  the format string.
\<close>

section \<open>State and library calls\<close>

text \<open>\<open>mr_log_file_t\<close>: \<open>None\<close> is a null \<open>file\<close>, and \<open>SEM_FAILED\<close> for \<open>sem\<close>.\<close>

record mr_log_file_t =
  lf_file :: "path option"
  lf_sem :: "nat option"

definition sem_wait :: "nat \<Rightarrow> (env \<times> 's, int) io" where
  "sem_wait i =
     bind_io ask (\<lambda>a. if a = Fault then return_io (-1) else
     bind_io (get_env (\<lambda>e. sem_val e i)) (\<lambda>v. if v = 0 then stop_io Blocked else
     seq_io (put_env (\<lambda>e. e\<lparr>sem_val := (sem_val e)(i := v - 1)\<rparr>)) (return_io 0)))"

text \<open>POSIX: \<open>sem_post\<close> on a valid semaphore fails only when its value is the largest.\<close>

definition sem_post :: "nat \<Rightarrow> (env \<times> 's, int) io" where
  "sem_post i =
     bind_io (get_env (\<lambda>e. sem_val e i)) (\<lambda>v. if SEM_VALUE_MAX \<le> v then return_io (-1) else
     seq_io (put_env (\<lambda>e. e\<lparr>sem_val := (sem_val e)(i := v + 1)\<rparr>)) (return_io 0))"

text \<open>\<open>sem_open\<close> with \<open>O_CREAT\<close> and initial value 1: an existing semaphore keeps its value.\<close>

definition sem_open :: "(env \<times> 's, nat option) io" where
  "sem_open =
     bind_io ask (\<lambda>a. if a = Fault then return_io None else
     bind_io (get_env sem_name) (\<lambda>nm. case nm of
       Some i \<Rightarrow> return_io (Some i)
     | None \<Rightarrow> bind_io (get_env sem_next) (\<lambda>n.
         seq_io (put_env (\<lambda>e. e\<lparr>sem_name := Some n, sem_next := Suc n,
                                sem_val := (sem_val e)(n := 1)\<rparr>))
                (return_io (Some n)))))"

definition sem_close :: "(env \<times> 's, int) io" where
  "sem_close = call 0 (-1)"

definition sem_unlink :: "(env \<times> 's, int) io" where
  "sem_unlink =
     bind_io ask (\<lambda>a. if a = Fault then return_io (-1) else
     bind_io (get_env sem_name) (\<lambda>nm. if nm = None then return_io (-1) else
     seq_io (put_env (\<lambda>e. e\<lparr>sem_name := None\<rparr>)) (return_io 0)))"

text \<open>One of \<open>fprintf\<close>, \<open>vfprintf\<close>, \<open>fputc\<close> to the log: appends its item or fails.\<close>

definition log_put :: "path \<Rightarrow> log_item \<Rightarrow> (env \<times> 's, int) io" where
  "log_put p x =
     bind_io ask (\<lambda>a. if a = Fault then return_io (-1) else
     seq_io (put_env (\<lambda>e. e\<lparr>logs := (logs e)(p := logs e p @ [x])\<rparr>)) (return_io 0))"

section \<open>mr_log_init, mr_log, mr_log_destroy\<close>

text \<open>The result and what \<open>*log\<close> holds on return.\<close>

definition mr_log_init :: "mr_log_file_t \<Rightarrow> path \<Rightarrow> (env \<times> 's, int \<times> mr_log_file_t) io" where
  "mr_log_init log log_file_path =
     bind_io (call (Some log_file_path) None) (\<lambda>f.
     if f = None then return_io (-1, log\<lparr>lf_file := None\<rparr>) else
     bind_io sem_open (\<lambda>sm.
     if sm = None then
       seq_io (call 0 (-1 :: int)) (return_io (-1, log\<lparr>lf_sem := None, lf_file := None\<rparr>))
     else return_io (0, log\<lparr>lf_file := f, lf_sem := sm\<rparr>)))"

definition mr_log ::
    "mr_log_file_t \<Rightarrow> string \<Rightarrow> string \<Rightarrow> string \<Rightarrow> string \<Rightarrow> (env \<times> 's, int) io" where
  "mr_log log level pname tname format =
     seq_io (assert_c (lf_file log \<noteq> None)) (
     seq_io (assert_c (lf_sem log \<noteq> None)) (
     seq_io (defined_c (lf_file log \<noteq> None \<and> lf_sem log \<noteq> None)) (
     let f = the (lf_file log); sm = the (lf_sem log) in
     SYSCALL_RET_CHECK (-1) (sem_wait sm) skip (
     SYSCALL_RET_CHECK (-1) (call 0 (-1)) (sem_post sm) (  \<comment> \<open>\<open>time\<close>\<close>
     bind_io (log_put f (Log_prefix pname tname level)) (\<lambda>result.
     if result < 0 then seq_io (sem_post sm) (return_io (-1)) else
     bind_io (log_put f (Log_message format)) (\<lambda>result.
     if result < 0 then seq_io (sem_post sm) (return_io (-1)) else
     bind_io (log_put f Log_newline) (\<lambda>result.
     if result < 0 then seq_io (sem_post sm) (return_io (-1)) else
     bind_io (call 0 (-1 :: int)) (\<lambda>flushed.               \<comment> \<open>\<open>fflush\<close>\<close>
     seq_io (if flushed < 0 then seq_io (sem_post sm) skip else skip) (
     SYSCALL_RET_CHECK (-1) (sem_post sm) skip (
     return_io 0)))))))))))"

abbreviation mr_log_info ::
    "mr_log_file_t \<Rightarrow> string \<Rightarrow> string \<Rightarrow> string \<Rightarrow> (env \<times> 's, int) io" where
  "mr_log_info log \<equiv> mr_log log ''info''"

abbreviation mr_log_warning ::
    "mr_log_file_t \<Rightarrow> string \<Rightarrow> string \<Rightarrow> string \<Rightarrow> (env \<times> 's, int) io" where
  "mr_log_warning log \<equiv> mr_log log ''warning''"

abbreviation mr_log_error ::
    "mr_log_file_t \<Rightarrow> string \<Rightarrow> string \<Rightarrow> string \<Rightarrow> (env \<times> 's, int) io" where
  "mr_log_error log \<equiv> mr_log log ''error''"

definition mr_log_destroy :: "mr_log_file_t \<Rightarrow> (env \<times> 's, int \<times> mr_log_file_t) io" where
  "mr_log_destroy log =
     (let closed = \<lparr>lf_file = None, lf_sem = None\<rparr> in
     seq_io (assert_c (lf_file log \<noteq> None)) (
     seq_io (assert_c (lf_sem log \<noteq> None)) (
     bind_io (call 0 (-1 :: int)) (\<lambda>r.                      \<comment> \<open>\<open>fclose\<close>\<close>
     if r = -1 then seq_io sem_close (seq_io sem_unlink (return_io (-1, closed))) else
     SYSCALL_RET (-1, closed) id sem_close sem_unlink (\<lambda>_.
     SYSCALL_RET (-1, closed) id sem_unlink skip (\<lambda>_.
     return_io (0, closed)))))))"

section \<open>Every path of mr_log\<close>

text \<open>A logger that can be used: its file is open and its semaphore is free.\<close>

definition log_ready :: "mr_log_file_t \<Rightarrow> env \<Rightarrow> bool" where
  "log_ready log e \<longleftrightarrow> (\<exists>f i. lf_file log = Some f \<and> lf_sem log = Some i \<and> sem_usable e i)"

text \<open>While the semaphore \<open>i\<close> is held its value is one below what it was.\<close>

definition holding :: "nat \<Rightarrow> env \<Rightarrow> env \<Rightarrow> bool" where
  "holding i e0 e \<longleftrightarrow>
     suffix (answers e) (answers e0) \<and> ndebug e = ndebug e0 \<and> garbage e = garbage e0 \<and> sem_name e = sem_name e0 \<and>
     (\<forall>j. j \<noteq> i \<longrightarrow> sem_usable e0 j \<longrightarrow> sem_usable e j) \<and> sem_val e i < SEM_VALUE_MAX"

lemma holding_pop: "holding i e0 e \<Longrightarrow> holding i e0 (e\<lparr>answers := tl (answers e)\<rparr>)"
  by (auto simp: holding_def sem_usable_def intro: suffix_order.trans suffix_tl)

lemma holding_fault: "holding i e0 e \<Longrightarrow> next_answer e = Fault \<Longrightarrow> faulty e0"
  by (auto simp: holding_def faulty_def split: list.splits dest: suffix_set)

lemma holding_logs: "holding i e0 (e\<lparr>logs := l\<rparr>) = holding i e0 e"
  by (simp add: holding_def sem_usable_def)

lemma sem_wait_ok:
  assumes "evolve e0 e" and "sem_usable e0 i"
    and "\<And>e'. holding i e0 e' \<Longrightarrow> Q 0 e' s"
    and "\<And>e'. evolve e0 e' \<Longrightarrow> faulty e0 \<Longrightarrow> Q (-1) e' s"
  shows "ok (sem_wait i) e s Q"
proof -
  let ?e = "e\<lparr>answers := tl (answers e)\<rparr>"
  have ev: "evolve e0 ?e" by (rule evolve_pop [OF assms(1)])
  then have v: "sem_usable ?e i" using assms(2) by (simp add: evolve_def)
  have "holding i e0 (?e\<lparr>sem_val := (sem_val ?e)(i := sem_val ?e i - 1)\<rparr>)"
    using ev v by (auto simp: holding_def evolve_def sem_usable_def)
  then show ?thesis
    using v assms(3,4) evolve_next_fault [OF assms(1)] ev
    by (auto simp: ok_macros sem_wait_def ok_simps ok_ask sem_usable_def)
qed

text \<open>Posting once hands the semaphore back; posting twice does too, with a higher value.\<close>

lemma sem_post_ok:
  assumes "holding i e0 e"
    and "\<And>e'. evolve e0 e' \<Longrightarrow> sem_usable e' i \<Longrightarrow> Q 0 e' s"
  shows "ok (sem_post i) e s Q"
proof -
  have "evolve e0 (e\<lparr>sem_val := (sem_val e)(i := sem_val e i + 1)\<rparr>)"
    using assms(1) by (auto simp: evolve_def holding_def sem_usable_def)
  then show ?thesis
    using assms by (auto simp: ok_macros sem_post_def ok_simps holding_def sem_usable_def)
qed

lemma sem_post_again_ok:
  assumes "evolve e0 e" and "sem_usable e i"
    and "\<And>e' r. evolve e0 e' \<Longrightarrow> r = 0 \<or> r = -1 \<Longrightarrow> Q r e' s"
  shows "ok (sem_post i) e s Q"
proof -
  have "evolve e0 (e\<lparr>sem_val := (sem_val e)(i := sem_val e i + 1)\<rparr>)" if "sem_val e i < SEM_VALUE_MAX"
    using assms(1) that by (auto simp: evolve_def sem_usable_def)
  then show ?thesis
    using assms by (auto simp: ok_macros sem_post_def ok_simps)
qed

lemma holding_call_ok:
  assumes "holding i e0 e"
    and "\<And>e'. holding i e0 e' \<Longrightarrow> Q good e' s"
    and "\<And>e'. holding i e0 e' \<Longrightarrow> faulty e0 \<Longrightarrow> Q bad e' s"
  shows "ok (call good bad) e s Q"
  using assms holding_pop [OF assms(1)] holding_fault [OF assms(1)]
  by (cases "next_answer e = Fault") (auto simp: ok_macros call_def ok_ask ok_simps)

lemma log_put_ok:
  assumes "holding i e0 e"
    and "\<And>e'. holding i e0 e' \<Longrightarrow> Q 0 e' s"
    and "\<And>e'. holding i e0 e' \<Longrightarrow> faulty e0 \<Longrightarrow> Q (-1) e' s"
  shows "ok (log_put p x) e s Q"
  using assms holding_pop [OF assms(1)] holding_fault [OF assms(1)]
  by (cases "next_answer e = Fault") (auto simp: ok_macros log_put_def ok_ask ok_simps holding_logs)

text \<open>
  The rule the callers use: with a usable logger a log call returns, hands the semaphore back on
  every path, leaves the process state alone, and gives -1 only when a call has failed.
\<close>

lemma mr_log_ok:
  assumes ev: "evolve e0 e" and ready: "log_ready log e0"
    and good: "\<And>e'. evolve e0 e' \<Longrightarrow> Q 0 e' s"
    and bad: "\<And>e'. evolve e0 e' \<Longrightarrow> faulty e0 \<Longrightarrow> Q (-1) e' s"
  shows "ok (mr_log log level pname tname format) e s Q"
proof -
  from ready obtain f i where log: "lf_file log = Some f" "lf_sem log = Some i"
    and use: "sem_usable e0 i" by (auto simp: log_ready_def)
  show ?thesis
    unfolding mr_log_def
    apply (simp add: ok_simps ok_macros log Let_def)
    apply (rule sem_wait_ok [OF ev use]; simp add: ok_simps ok_macros bad)
    apply (erule holding_call_ok; simp add: ok_simps ok_macros)
     apply (erule log_put_ok; simp add: ok_simps ok_macros)
      apply (erule log_put_ok; simp add: ok_simps ok_macros)
       apply (erule log_put_ok; simp add: ok_simps ok_macros)
        apply (erule holding_call_ok; simp add: ok_simps ok_macros)
         apply (erule sem_post_ok; simp add: ok_simps ok_macros good)
        apply (erule sem_post_ok; simp add: ok_simps ok_macros)
        apply (erule sem_post_again_ok; auto simp: good bad)
       apply (erule sem_post_ok; simp add: bad)+
    done
qed

text \<open>In any state of the log a call ends, and the process state is as before if it returns.\<close>

lemma mr_log_halts:
  assumes "\<And>r e'. Q r e' s"
  shows "halts (mr_log log level pname tname format) e s Q"
  using assms
  by (auto simp: mr_log_def sem_wait_def sem_post_def log_put_def Let_def halts_simps
           intro!: halts_ask halts_call)

section \<open>Properties\<close>

text \<open>C30. A log call with a usable logger always returns, with 0 or -1, and -1 only if a call in
  it has failed. On every path it hands the semaphore back, so the next writer is not blocked, and
  it touches nothing of the process but the log.\<close>

theorem mr_log_returns:
  assumes "log_ready log e"
  shows "ok (mr_log log level pname tname format) e s
    (\<lambda>r e' s'. s' = s \<and> log_ready log e' \<and> (r = 0 \<or> r = -1 \<and> faulty e))"
  by (rule mr_log_ok [OF evolve_refl assms]) (use assms in \<open>auto simp: log_ready_def evolve_def\<close>)

definition example_log :: mr_log_file_t where
  "example_log = \<lparr>lf_file = Some [], lf_sem = Some 0\<rparr>"

definition example_env :: "answer list \<Rightarrow> env" where
  "example_env as =
     \<lparr>answers = as, ndebug = False, garbage = (\<lambda>_. 255), logs = (\<lambda>_. []), sem_val = (\<lambda>_. 1),
      sem_name = Some 0, sem_next = 1\<rparr>"

lemma example_ready [simp]: "log_ready example_log (example_env as)"
  by (simp add: log_ready_def example_log_def example_env_def sem_usable_def)

lemma example_env_simps [simp]:
  "answers (example_env as) = as" "ndebug (example_env as) = False"
  "faulty (example_env as) \<longleftrightarrow> Fault \<in> set as" "garbage (example_env as) = (\<lambda>_. 255)"
  by (simp_all add: example_env_def faulty_def)

theorem mr_log_returns_witness:
  "log_ready example_log (example_env [Full, Full, Full, Fault]) \<and>
   ok (mr_log example_log ''info'' ''Main'' ''Main'' ''Starting'') (example_env [Full, Full, Full, Fault])
     (0 :: nat) (\<lambda>r e' s'. s' = 0 \<and> log_ready example_log e' \<and>
       (r = 0 \<or> r = -1 \<and> faulty (example_env [Full, Full, Full, Fault])))"
  by (rule conjI [OF example_ready mr_log_returns [OF example_ready]])

lemma call_good: "ok (call good bad) e s Q \<longleftrightarrow> (if next_answer e = Fault then Q bad else Q good)
    (e\<lparr>answers := tl (answers e)\<rparr>) s"
  by (simp add: call_def ok_simps ok_ask)

lemma log_put_result: "ok (log_put p x) e s Q \<longleftrightarrow>
    (if next_answer e = Fault then Q (-1) (e\<lparr>answers := tl (answers e)\<rparr>) s
     else Q 0 (e\<lparr>answers := tl (answers e), logs := (logs e)(p := logs e p @ [x])\<rparr>) s)"
  by (simp add: log_put_def ok_simps ok_ask ok_if)

text \<open>When no call fails the entry is written whole: prefix, message and newline follow each
  other at the end of the log file, and the semaphore has its old value again.\<close>

theorem mr_log_entry:
  assumes "lf_file log = Some f" and "lf_sem log = Some i" and "sem_usable e i" and "answers e = []"
  shows "ok (mr_log log level pname tname format) e s (\<lambda>r e' s'. r = 0 \<and> s' = s \<and>
    logs e' f = logs e f @ [Log_prefix pname tname level, Log_message format, Log_newline] \<and>
    sem_val e' = sem_val e)"
  using assms
  by (simp add: mr_log_def sem_wait_def sem_post_def ok_simps ok_macros Let_def ok_ask call_good
      log_put_result sem_usable_def fun_eq_iff split del: if_split)
     (auto simp: ok_simps)

theorem mr_log_entry_witness:
  "ok (mr_log example_log ''error'' ''Mapper'' ''Controller'' ''Failed'') (example_env []) (0 :: nat)
     (\<lambda>r e' s'. r = 0 \<and> s' = 0 \<and>
       logs e' [] = logs (example_env []) [] @
         [Log_prefix ''Mapper'' ''Controller'' ''error'', Log_message ''Failed'', Log_newline] \<and>
       sem_val e' = sem_val (example_env []))"
  using mr_log_entry [of example_log "[]" 0 "example_env []"]
  by (simp add: example_log_def example_env_def sem_usable_def)

text \<open>C33. When \<open>fflush\<close> fails the semaphore is posted twice (once in the branch for the failure,
  which does not return, once after it) and the call still returns 0: its value is one higher than
  before, and from then on two writers can hold the log at once.\<close>

theorem mr_log_fflush_double_post:
  assumes "lf_file log = Some f" and "lf_sem log = Some i"
    and "0 < sem_val e i" and "sem_val e i < SEM_VALUE_MAX"
    and "answers e = [Full, Full, Full, Full, Full, Fault]"
  shows "ok (mr_log log level pname tname format) e s
    (\<lambda>r e' s'. r = 0 \<and> sem_val e' i = sem_val e i + 1)"
  using assms
  by (simp add: mr_log_def sem_wait_def sem_post_def ok_simps ok_macros Let_def ok_ask call_good
      log_put_result fun_eq_iff split del: if_split)
     (auto simp: ok_simps)

theorem mr_log_fflush_double_post_witness:
  "ok (mr_log example_log ''info'' ''Main'' ''Main'' ''Starting'')
     (example_env [Full, Full, Full, Full, Full, Fault]) (0 :: nat) (\<lambda>r e' s'. r = 0 \<and> sem_val e' 0 = 2)"
  using mr_log_fflush_double_post [of example_log "[]" 0
      "example_env [Full, Full, Full, Full, Full, Fault]"]
  by (simp add: example_log_def example_env_def numeral_2_eq_2)

end
