(* ===== verification/Mr_Posix.thy ===== *)
theory Mr_Posix
  imports Mr_Log
begin

text \<open>
  The state of one process and the calls it makes on memory and descriptors, with
  \<open>read_n\<close> and \<open>write_n\<close> of \<open>src/protocol.c\<close>: the loops that turn the short reads and
  writes of a pipe into whole transfers.
\<close>

section \<open>The state of a process\<close>

text \<open>
  \<open>rds fd\<close>: the bytes still to come on a readable descriptor before its end of file.
  \<open>wrs fd\<close>: the bytes accepted so far on a writable one. \<open>live\<close> and \<open>handles\<close>: how many heap
  blocks and \<open>FILE\<close> streams the process holds.
\<close>

datatype node = Reg "byte list" | Dir "path list"

record state =
  live :: int
  handles :: int
  rds :: "int \<Rightarrow> byte list"
  wrs :: "int \<Rightarrow> byte list"
  files :: "path \<Rightarrow> node option"

type_synonym ('s, 'a) proc = "(env \<times> 's state_scheme, 'a) io"

section \<open>The heap\<close>

text \<open>\<open>malloc\<close>: a block of unwritten memory, or \<open>None\<close> for \<open>NULL\<close>.\<close>

definition fresh_block :: "env \<Rightarrow> nat \<Rightarrow> byte list" where
  "fresh_block e n = map (garbage e) [0..<n]"

lemma length_fresh_block [simp]: "length (fresh_block e n) = n"
  by (simp add: fresh_block_def)

definition c_malloc :: "nat \<Rightarrow> ('s, byte list option) proc" where
  "c_malloc n =
     bind_io ask (\<lambda>a. if a = Fault then return_io None else
     seq_io (put_st (\<lambda>s. s\<lparr>live := live s + 1\<rparr>))
            (get_env (\<lambda>e. Some (fresh_block e n))))"

text \<open>\<open>free\<close>: nothing for \<open>NULL\<close>.\<close>

definition c_free :: "'b option \<Rightarrow> ('s, unit) proc" where
  "c_free p = (if p = None then skip else put_st (\<lambda>s. s\<lparr>live := live s - 1\<rparr>))"

lemma c_malloc_ok:
  assumes "evolve e0 e"
    and "\<And>e' b. evolve e0 e' \<Longrightarrow> length b = n \<Longrightarrow> Q (Some b) e' (s\<lparr>live := live s + 1\<rparr>)"
    and "\<And>e'. evolve e0 e' \<Longrightarrow> faulty e0 \<Longrightarrow> Q None e' s"
  shows "ok (c_malloc n) e s Q"
  unfolding c_malloc_def ok_bind
  by (rule ask_ok [OF assms(1)]) (auto simp: ok_simps ok_macros assms)

text \<open>How many heap blocks a pointer holds.\<close>

abbreviation blocks :: "'b option \<Rightarrow> int" where
  "blocks p \<equiv> (case p of None \<Rightarrow> 0 | Some _ \<Rightarrow> 1)"

lemma live_same [simp]: "s\<lparr>live := live s\<rparr> = s"
  by simp

lemma ok_free [ok_simps]: "ok (c_free p) e s Q \<longleftrightarrow> Q () e (s\<lparr>live := live s - blocks p\<rparr>)"
  by (cases p) (auto simp: c_free_def ok_simps)

section \<open>read and write\<close>

text \<open>
  \<open>read\<close>: \<open>None\<close> for -1, else the bytes; no byte exactly at end of file (for a nonzero count).
  \<open>write\<close> to a pipe: \<open>None\<close> for -1, else how many bytes it took, at least one.
\<close>

abbreviation transfer :: "answer \<Rightarrow> nat \<Rightarrow> nat" where
  "transfer a n \<equiv> (case a of Part k \<Rightarrow> min n (Suc k) | _ \<Rightarrow> n)"

definition sys_read :: "int \<Rightarrow> nat \<Rightarrow> ('s, byte list option) proc" where
  "sys_read fd n =
     bind_io ask (\<lambda>a. if a = Fault then return_io None else
     bind_io (get_st (\<lambda>s. rds s fd)) (\<lambda>bs.
     seq_io (put_st (\<lambda>s. s\<lparr>rds := (rds s)(fd := drop (transfer a n) bs)\<rparr>))
            (return_io (Some (take (transfer a n) bs)))))"

definition sys_write :: "int \<Rightarrow> byte list \<Rightarrow> ('s, nat option) proc" where
  "sys_write fd bs =
     bind_io ask (\<lambda>a. if a = Fault then return_io None else
     let m = transfer a (length bs) in
     seq_io (put_st (\<lambda>s. s\<lparr>wrs := (wrs s)(fd := wrs s fd @ take m bs)\<rparr>))
            (return_io (Some m)))"

lemma transfer_bounds: "transfer a n \<le> n" and transfer_zero: "transfer a n = 0 \<Longrightarrow> n = 0"
  by (auto split: answer.splits)

lemma sys_read_ok:
  assumes "evolve e0 e"
    and "\<And>e' m. evolve e0 e' \<Longrightarrow> m \<le> n \<Longrightarrow> m \<le> length (rds s fd) \<Longrightarrow>
           (m = 0 \<longrightarrow> n = 0 \<or> rds s fd = []) \<Longrightarrow>
           Q (Some (take m (rds s fd))) e' (s\<lparr>rds := (rds s)(fd := drop m (rds s fd))\<rparr>)"
    and "\<And>e'. evolve e0 e' \<Longrightarrow> faulty e0 \<Longrightarrow> Q None e' s"
  shows "ok (sys_read fd n) e s Q"
  unfolding sys_read_def ok_bind
proof (rule ask_ok [OF assms(1)])
  fix e' a
  assume "evolve e0 e'" and "a \<noteq> Fault"
  let ?m = "min (transfer a n) (length (rds s fd))"
  have "?m = 0 \<longrightarrow> n = 0 \<or> rds s fd = []" and "?m \<le> n"
    using transfer_bounds [of n a] transfer_zero [of n a] by (auto simp: min_def split: if_splits)
  with \<open>evolve e0 e'\<close> \<open>a \<noteq> Fault\<close> show "ok (if a = Fault then return_io None else
     bind_io (get_st (\<lambda>s. rds s fd)) (\<lambda>bs.
     seq_io (put_st (\<lambda>s. s\<lparr>rds := (rds s)(fd := drop (transfer a n) bs)\<rparr>))
            (return_io (Some (take (transfer a n) bs))))) e' s Q"
    using assms(2) [of e' ?m] by (simp add: ok_simps ok_macros)
qed (simp add: ok_simps ok_macros assms)

lemma sys_write_ok:
  assumes "evolve e0 e"
    and "\<And>e' m. evolve e0 e' \<Longrightarrow> m \<le> length bs \<Longrightarrow> (m = 0 \<longrightarrow> bs = []) \<Longrightarrow>
           Q (Some m) e' (s\<lparr>wrs := (wrs s)(fd := wrs s fd @ take m bs)\<rparr>)"
    and "\<And>e'. evolve e0 e' \<Longrightarrow> faulty e0 \<Longrightarrow> Q None e' s"
  shows "ok (sys_write fd bs) e s Q"
  unfolding sys_write_def ok_bind
proof (rule ask_ok [OF assms(1)])
  fix e' a
  assume "evolve e0 e'" and "a \<noteq> Fault"
  then show "ok (if a = Fault then return_io None else
     let m = transfer a (length bs) in
     seq_io (put_st (\<lambda>s. s\<lparr>wrs := (wrs s)(fd := wrs s fd @ take m bs)\<rparr>))
            (return_io (Some m))) e' s Q"
    using assms(2) [of e' "transfer a (length bs)"]
    by (cases a) (auto simp: ok_simps ok_macros min_def Let_def)
qed (simp add: ok_simps ok_macros assms)

section \<open>read_n and write_n\<close>

text \<open>The bytes \<open>bs\<close> stored at offset \<open>i\<close> of a buffer.\<close>

definition store :: "nat \<Rightarrow> byte list \<Rightarrow> byte list \<Rightarrow> byte list" where
  "store i bs buf = take i buf @ bs @ drop (i + length bs) buf"

lemma length_store [simp]: "i + length bs \<le> length buf \<Longrightarrow> length (store i bs buf) = length buf"
  by (simp add: store_def)

lemma store_0: "store 0 bs buf = bs @ drop (length bs) buf"
  by (simp add: store_def)

lemma store_empty [simp]: "store i [] buf = buf"
  by (simp add: store_def)

lemma store_store_append:
  "i + length xs + length ys \<le> length buf \<Longrightarrow>
   store (i + length xs) ys (store i xs buf) = store i (xs @ ys) buf"
  by (simp add: store_def ac_simps)

text \<open>
  The loop of \<open>read_n\<close>: \<open>buf\<close> is the destination, \<open>tot\<close> the variable \<open>total_read\<close>. A
  \<open>read\<close> that would put bytes outside the destination is undefined.
\<close>

function read_loop ::
    "int \<Rightarrow> nat \<Rightarrow> nat \<Rightarrow> byte list \<Rightarrow> ('s, int \<times> byte list) proc" where
  "read_loop fd n tot buf w =
     (if tot < n then
        (case sys_read fd (n - tot) w of
           (Inl x, w') \<Rightarrow> (Inl x, w')
         | (Inr None, w') \<Rightarrow> (Inr (-1, buf), w')
         | (Inr (Some bs), w') \<Rightarrow>
             if bs = [] then (Inr (ssize tot, buf), w')
             else if length buf < tot + length bs then (Inl Undefined, w')
             else read_loop fd n (tot + length bs) (store tot bs buf) w')
      else (Inr (ssize tot, buf), w))"
  by pat_completeness auto
termination
  by (relation "measure (\<lambda>(fd, n, tot, buf, w). n - tot)") (auto intro!: diff_less_mono2)

declare read_loop.simps [simp del]

definition read_n :: "int \<Rightarrow> byte list \<Rightarrow> nat \<Rightarrow> ('s, int \<times> byte list) proc" where
  "read_n fd buffer n =
     seq_io (assert_c (0 \<le> fd)) (read_loop fd n 0 buffer)"

function write_loop :: "int \<Rightarrow> byte list \<Rightarrow> nat \<Rightarrow> nat \<Rightarrow> ('s, int) proc" where
  "write_loop fd buf n tot w =
     (if tot < n then
        (case sys_write fd (take (n - tot) (drop tot buf)) w of
           (Inl x, w') \<Rightarrow> (Inl x, w')
         | (Inr None, w') \<Rightarrow> (Inr (-1), w')
         | (Inr (Some m), w') \<Rightarrow>
             if m = 0 then (Inl Blocked, w') else write_loop fd buf n (tot + m) w')
      else (Inr (ssize tot), w))"
  by pat_completeness auto
termination
  by (relation "measure (\<lambda>(fd, buf, n, tot, w). n - tot)") auto

declare write_loop.simps [simp del]

text \<open>
  Writing more bytes than the buffer has is undefined. A \<open>write\<close> that takes no byte (which the
  modelled pipe never does) would make the loop of the source spin: \<open>Blocked\<close>.
\<close>

definition write_n :: "int \<Rightarrow> byte list \<Rightarrow> nat \<Rightarrow> ('s, int) proc" where
  "write_n fd buffer n =
     seq_io (assert_c (0 \<le> fd)) (
     seq_io (defined_c (n \<le> length buffer)) (write_loop fd buffer n 0))"

abbreviation put_rd :: "int \<Rightarrow> byte list \<Rightarrow> 's state_scheme \<Rightarrow> 's state_scheme" where
  "put_rd fd bs s \<equiv> s\<lparr>rds := (rds s)(fd := bs)\<rparr>"

abbreviation add_wr :: "int \<Rightarrow> byte list \<Rightarrow> 's state_scheme \<Rightarrow> 's state_scheme" where
  "add_wr fd bs s \<equiv> s\<lparr>wrs := (wrs s)(fd := wrs s fd @ bs)\<rparr>"

lemma put_rd_same [simp]: "rds s fd = bs \<Longrightarrow> put_rd fd bs s = s"
  by (metis fun_upd_triv state.surjective state.update_convs(3))

lemma add_wr_nil [simp]: "add_wr fd [] s = s"
  by simp

text \<open>A normal order for updates of different fields, so that equal states become equal terms.\<close>

lemma state_update_order [simp]:
  fixes s :: "'s state_scheme"
  shows "handles_update g (live_update f s) = live_update f (handles_update g s)"
    and "rds_update h (live_update f s) = live_update f (rds_update h s)"
    and "rds_update h (handles_update g s) = handles_update g (rds_update h s)"
    and "wrs_update i (live_update f s) = live_update f (wrs_update i s)"
    and "wrs_update i (handles_update g s) = handles_update g (wrs_update i s)"
    and "wrs_update i (rds_update h s) = rds_update h (wrs_update i s)"
    and "files_update j (live_update f s) = live_update f (files_update j s)"
    and "files_update j (handles_update g s) = handles_update g (files_update j s)"
    and "files_update j (rds_update h s) = rds_update h (files_update j s)"
    and "files_update j (wrs_update i s) = wrs_update i (files_update j s)"
  by simp_all

text \<open>From an offset \<open>tot\<close> the loop moves \<open>min (n - tot)\<close> of what is to come.\<close>

lemma read_loop_ok:
  assumes "evolve e0 e" and "tot \<le> n" and "n \<le> length buf"
    and "\<And>e' m. evolve e0 e' \<Longrightarrow> m = min (n - tot) (length (rds s fd)) \<Longrightarrow>
           Q (ssize (tot + m), store tot (take m (rds s fd)) buf) e' (put_rd fd (drop m (rds s fd)) s)"
    and "\<And>e' m buf'. evolve e0 e' \<Longrightarrow> faulty e0 \<Longrightarrow> m < n - tot \<Longrightarrow> length buf' = length buf \<Longrightarrow>
           Q (-1, buf') e' (put_rd fd (drop m (rds s fd)) s)"
  shows "ok (read_loop fd n tot buf) e s Q"
  using assms
proof (induction "n - tot" arbitrary: tot buf e s rule: less_induct)
  case less
  note ev = less.prems(1) and good = less.prems(4) and bad = less.prems(5)
  show ?case
  proof (cases "tot < n")
    case False
    then have "read_loop fd n tot buf (e, s) = (Inr (ssize tot, buf), (e, s))"
      by (subst read_loop.simps) simp
    then show ?thesis
      using good [OF ev, of 0] False by (simp add: ok_result)
  next
    case True
    have "ok (sys_read fd (n - tot)) e s (\<lambda>r e' s'.
        case r of None \<Rightarrow> Q (-1, buf) e' s' | Some bs \<Rightarrow>
          if bs = [] then Q (ssize tot, buf) e' s'
          else \<not> length buf < tot + length bs \<and>
               ok (read_loop fd n (tot + length bs) (store tot bs buf)) e' s' Q)"
    proof (rule sys_read_ok [OF ev]; simp only: option.case)
      fix e' m
      assume ev': "evolve e0 e'" and m: "m \<le> n - tot" "m \<le> length (rds s fd)"
        "m = 0 \<longrightarrow> n - tot = 0 \<or> rds s fd = []"
      let ?got = "take m (rds s fd)" and ?s = "put_rd fd (drop m (rds s fd)) s"
      show "if ?got = [] then Q (ssize tot, buf) e' ?s
            else \<not> length buf < tot + length ?got \<and>
                 ok (read_loop fd n (tot + length ?got) (store tot ?got buf)) e' ?s Q"
      proof (cases "rds s fd = []")
        case True
        then show ?thesis using good [OF ev', of 0] by simp
      next
        case False
        then have "0 < m" and len: "length ?got = m" and fits: "tot + m \<le> n"
          using m \<open>tot < n\<close> by auto
        have "ok (read_loop fd n (tot + m) (store tot ?got buf)) e' ?s Q"
        proof (rule less.hyps [OF _ ev' fits])
          fix e'' k
          assume ev'': "evolve e0 e''" and k: "k = min (n - (tot + m)) (length (rds ?s fd))"
          have st: "store (tot + m) (take k (drop m (rds s fd))) (store tot ?got buf) =
                    store tot (take (m + k) (rds s fd)) buf"
            using store_store_append [of tot ?got "take k (drop m (rds s fd))" buf] k len fits
              less.prems(3) by (simp add: take_add)
          have "m + k = min (n - tot) (length (rds s fd))" using k m by simp
          from good [OF ev'' this]
          show "Q (ssize (tot + m + k), store (tot + m) (take k (rds ?s fd)) (store tot ?got buf))
                e'' (put_rd fd (drop k (rds ?s fd)) ?s)"
            by (simp add: st add.assoc add.commute [of m k])
        next
          fix e'' k and buf' :: "byte list"
          assume "evolve e0 e''" "faulty e0" "k < n - (tot + m)"
            and "length buf' = length (store tot ?got buf)"
          then show "Q (-1, buf') e'' (put_rd fd (drop k (rds ?s fd)) ?s)"
            using bad [of e'' "k + m" buf'] fits len less.prems(3) by simp
        qed (use \<open>0 < m\<close> \<open>tot < n\<close> len fits less.prems(3) in auto)
        then show ?thesis using len fits less.prems(3) \<open>0 < m\<close> by auto
      qed
    qed (use bad [of _ 0 buf] True in auto)
    then show ?thesis
      using True
      by (auto simp: ok_def read_loop.simps [of fd n tot] split: option.splits if_splits)
  qed
qed

lemma read_n_ok:
  assumes "evolve e0 e" and "0 \<le> fd" and "n \<le> length buf" and "n < SSIZE_LIMIT"
    and "\<And>e' m. evolve e0 e' \<Longrightarrow> m = min n (length (rds s fd)) \<Longrightarrow>
           Q (int m, take m (rds s fd) @ drop m buf) e' (put_rd fd (drop m (rds s fd)) s)"
    and "\<And>e' m buf'. evolve e0 e' \<Longrightarrow> faulty e0 \<Longrightarrow> m < n \<Longrightarrow> length buf' = length buf \<Longrightarrow>
           Q (-1, buf') e' (put_rd fd (drop m (rds s fd)) s)"
  shows "ok (read_n fd buf n) e s Q"
proof -
  have "ok (read_loop fd n 0 buf) e s Q"
    using assms by (intro read_loop_ok) (auto simp: store_0 min_def)
  then show ?thesis using assms(2) by (simp add: read_n_def ok_simps)
qed

text \<open>The same for \<open>write_n\<close>: everything is written, or the transfer stops short on a fault.\<close>

lemma write_loop_ok:
  assumes "evolve e0 e" and "tot \<le> n" and "n \<le> length buf"
    and "\<And>e'. evolve e0 e' \<Longrightarrow> Q (ssize n) e' (add_wr fd (take (n - tot) (drop tot buf)) s)"
    and "\<And>e' m. evolve e0 e' \<Longrightarrow> faulty e0 \<Longrightarrow> m < n - tot \<Longrightarrow>
           Q (-1) e' (add_wr fd (take m (drop tot buf)) s)"
  shows "ok (write_loop fd buf n tot) e s Q"
  using assms
proof (induction "n - tot" arbitrary: tot e s rule: less_induct)
  case less
  note ev = less.prems(1) and good = less.prems(4) and bad = less.prems(5)
  show ?case
  proof (cases "tot < n")
    case False
    then have "write_loop fd buf n tot (e, s) = (Inr (ssize n), (e, s))"
      using less.prems(2) by (subst write_loop.simps) simp
    then show ?thesis
      using good [OF ev] False by (simp add: ok_result)
  next
    case True
    let ?out = "take (n - tot) (drop tot buf)"
    have "ok (sys_write fd ?out) e s (\<lambda>r e' s'.
        case r of None \<Rightarrow> Q (-1) e' s' | Some m \<Rightarrow>
          m \<noteq> 0 \<and> ok (write_loop fd buf n (tot + m)) e' s' Q)"
    proof (rule sys_write_ok [OF ev]; simp only: option.case)
      fix e' m
      assume ev': "evolve e0 e'" and "m \<le> length ?out" "m = 0 \<longrightarrow> ?out = []"
      then have m: "0 < m" "tot + m \<le> n" using True less.prems(3) by auto
      have app: "take m ?out @ take k (drop (tot + m) buf) = take (m + k) (drop tot buf)" for k
        using m take_add [of m k "drop tot buf"] by (simp add: add.commute)
      have "ok (write_loop fd buf n (tot + m)) e' (add_wr fd (take m ?out) s) Q"
      proof (rule less.hyps [OF _ ev' m(2) less.prems(3)])
        fix e'' assume "evolve e0 e''"
        from good [OF this] app [of "n - (tot + m)"] m
        show "Q (ssize n) e'' (add_wr fd (take (n - (tot + m)) (drop (tot + m) buf))
                (add_wr fd (take m ?out) s))"
          by simp
      next
        fix e'' k assume "evolve e0 e''" "faulty e0" "k < n - (tot + m)"
        with bad [of e'' "m + k"] app [of k] m
        show "Q (-1) e'' (add_wr fd (take k (drop (tot + m) buf)) (add_wr fd (take m ?out) s))"
          by simp
      qed (use m True in auto)
      then show "m \<noteq> 0 \<and> ok (write_loop fd buf n (tot + m)) e' (add_wr fd (take m ?out) s) Q"
        using m by simp
    qed (use bad [of _ 0] True in auto)
    then show ?thesis
      using True
      by (auto simp: ok_def write_loop.simps [of fd buf n tot] split: option.splits if_splits)
  qed
qed

lemma write_n_ok:
  assumes "evolve e0 e" and "0 \<le> fd" and "n \<le> length buf" and "n < SSIZE_LIMIT"
    and "\<And>e'. evolve e0 e' \<Longrightarrow> Q (int n) e' (add_wr fd (take n buf) s)"
    and "\<And>e' m. evolve e0 e' \<Longrightarrow> faulty e0 \<Longrightarrow> m < n \<Longrightarrow> Q (-1) e' (add_wr fd (take m buf) s)"
  shows "ok (write_n fd buf n) e s Q"
proof -
  have "ok (write_loop fd buf n 0) e s Q"
    using assms by (intro write_loop_ok) auto
  then show ?thesis using assms(2,3) by (simp add: write_n_def ok_simps)
qed

text \<open>
  Without assumptions: the loop of \<open>read_n\<close> ends, takes some bytes off the stream, at least one
  if it can and returns neither 0 nor -1.
\<close>

lemma c_malloc_halts:
  assumes "\<And>p e' d. Q p e' (s\<lparr>live := live s + d\<rparr>)"
  shows "halts (c_malloc n) e s Q"
  using assms [of _ _ 0] assms
  by (auto simp: c_malloc_def halts_simps intro!: halts_ask)

lemma c_free_halts [halts_simps]:
  "halts (c_free p) e s Q \<longleftrightarrow> Q () e (s\<lparr>live := live s - blocks p\<rparr>)"
  by (cases p) (auto simp: c_free_def halts_simps)

lemma read_loop_halts:
  assumes "\<And>e' r m b. r = -1 \<or> r = ssize (tot + m) \<Longrightarrow>
      (tot < n \<and> m = 0 \<and> r \<noteq> -1 \<longrightarrow> rds s fd = []) \<Longrightarrow> m \<le> n - tot \<Longrightarrow> m \<le> length (rds s fd) \<Longrightarrow>
      Q (r, b) e' (put_rd fd (drop m (rds s fd)) s)"
  shows "halts (read_loop fd n tot buf) e s Q"
  using assms
proof (induction "n - tot" arbitrary: tot buf e s rule: less_induct)
  case less
  note good = less.prems(1)
  have "halts (sys_read fd (n - tot)) e s (\<lambda>r e' s'.
      case r of None \<Rightarrow> Q (-1, buf) e' s' | Some bs \<Rightarrow>
        if bs = [] then Q (ssize tot, buf) e' s'
        else \<not> length buf < tot + length bs \<longrightarrow>
             halts (read_loop fd n (tot + length bs) (store tot bs buf)) e' s' Q)"
    if "tot < n"
    unfolding sys_read_def halts_bind
  proof (rule halts_ask)
    fix a e'
    obtain m where m_def: "m = min (transfer a (n - tot)) (length (rds s fd))" by simp
    let ?s = "put_rd fd (drop m (rds s fd)) s"
    have m: "m \<le> n - tot" "m \<le> length (rds s fd)" "m = 0 \<longleftrightarrow> rds s fd = []"
      using transfer_bounds [of "n - tot" a] transfer_zero [of "n - tot" a] that
      by (auto simp: min_def m_def)
    have td: "take (transfer a (n - tot)) (rds s fd) = take m (rds s fd)"
      "drop (transfer a (n - tot)) (rds s fd) = drop m (rds s fd)" by (simp_all add: m_def)
    have "halts (read_loop fd n (tot + m) buf') e' ?s Q" if "0 < m" for buf'
    proof (rule less.hyps)
      fix e'' r k b
      assume r: "r = -1 \<or> r = ssize (tot + m + k)" and k: "k \<le> n - (tot + m)"
        and len: "k \<le> length (rds ?s fd)"
      then have "Q (r, b) e'' (put_rd fd (drop (m + k) (rds s fd)) s)"
        using that m(1,2) \<open>tot < n\<close> by (intro good) (simp_all add: add.assoc)
      then show "Q (r, b) e'' (put_rd fd (drop k (rds ?s fd)) ?s)" by (simp add: add.commute)
    qed (use that \<open>tot < n\<close> in auto)
    then show "halts (if a = Fault then return_io None
       else bind_io (get_st (\<lambda>s. rds s fd)) (\<lambda>bs.
            seq_io (put_st (\<lambda>s. s\<lparr>rds := (rds s)(fd := drop (transfer a (n - tot)) bs)\<rparr>))
              (return_io (Some (take (transfer a (n - tot)) bs))))) e' s
       (\<lambda>r e' s'. case r of None \<Rightarrow> Q (-1, buf) e' s' | Some bs \<Rightarrow>
        if bs = [] then Q (ssize tot, buf) e' s'
        else \<not> length buf < tot + length bs \<longrightarrow>
             halts (read_loop fd n (tot + length bs) (store tot bs buf)) e' s' Q)"
      using m good [of "-1" 0 buf e'] good [of "ssize tot" 0 buf e']
      by (cases "m = 0") (use transfer_zero [of "n - tot" a] that in \<open>auto simp: halts_simps td\<close>)
  qed
  then show ?case
    using good [of "ssize tot" 0 buf e]
    by (auto simp: halts_def read_loop.simps [of fd n tot] split: option.splits if_splits
             prod.splits sum.splits)
qed

lemma read_n_halts:
  assumes "\<And>e' r m b. r = -1 \<or> r = ssize m \<Longrightarrow> (0 < n \<and> m = 0 \<and> r \<noteq> -1 \<longrightarrow> rds s fd = []) \<Longrightarrow>
      m \<le> n \<Longrightarrow> m \<le> length (rds s fd) \<Longrightarrow> Q (r, b) e' (put_rd fd (drop m (rds s fd)) s)"
  shows "halts (read_n fd buf n) e s Q"
  unfolding read_n_def
  by (auto simp: halts_simps intro!: read_loop_halts assms)

section \<open>Properties\<close>

text \<open>\<open>read_n\<close> hides short reads: whatever the sizes of the reads, it returns the number of
  bytes asked for, or all that are left before the end of the stream, with exactly these bytes at
  the start of the buffer and the rest of the buffer unchanged; or -1 after a failed read.\<close>

theorem read_n_transfers:
  assumes "0 \<le> fd" and "n \<le> length buf" and "n < SSIZE_LIMIT"
  shows "ok (read_n fd buf n) e s (\<lambda>(r, buf') e' s'.
    r = int (min n (length (rds s fd))) \<and>
    buf' = take n (rds s fd) @ drop (min n (length (rds s fd))) buf \<and>
    s' = put_rd fd (drop n (rds s fd)) s \<or>
    r = -1 \<and> faulty e \<and> length buf' = length buf \<and> (\<exists>k < n. s' = put_rd fd (drop k (rds s fd)) s))"
  by (rule read_n_ok [OF evolve_refl assms]) auto

definition example_state :: "byte list \<Rightarrow> state" where
  "example_state bs = \<lparr>live = 0, handles = 0, rds = (\<lambda>_. bs), wrs = (\<lambda>_. []), files = (\<lambda>_. None)\<rparr>"

lemma example_state_simps [simp]:
  "live (example_state bs) = 0" "handles (example_state bs) = 0" "rds (example_state bs) = (\<lambda>_. bs)"
  "wrs (example_state bs) = (\<lambda>_. [])" "files (example_state bs) = (\<lambda>_. None)"
  by (simp_all add: example_state_def)

theorem read_n_transfers_witness:
  "ok (read_n 0 [7, 7, 7, 7] 3) (example_env [Part 0, Full]) (example_state [1, 2, 3, 4])
     (\<lambda>(r, buf') e' s'. r = 3 \<and> buf' = [1, 2, 3, 7] \<and> rds s' 0 = [4])"
  using read_n_transfers [of 0 3 "[7, 7, 7, 7]" "example_env [Part 0, Full]" "example_state [1, 2, 3, 4]"]
  by (rule ok_mono) auto

text \<open>\<open>write_n\<close> hides short writes: it returns \<open>n\<close> with the first \<open>n\<close> bytes of the buffer
  written in order, or -1 after a failed write, with fewer of them written.\<close>

theorem write_n_transfers:
  assumes "0 \<le> fd" and "n \<le> length buf" and "n < SSIZE_LIMIT"
  shows "ok (write_n fd buf n) e s (\<lambda>r e' s'.
    r = int n \<and> s' = add_wr fd (take n buf) s \<or>
    r = -1 \<and> faulty e \<and> (\<exists>k < n. s' = add_wr fd (take k buf) s))"
  by (rule write_n_ok [OF evolve_refl assms]) auto

theorem write_n_transfers_witness:
  "ok (write_n 1 [1, 2, 3, 4] 4) (example_env [Part 0, Part 1]) (example_state [])
     (\<lambda>r e' s'. r = 4 \<and> wrs s' 1 = [1, 2, 3, 4])"
  using write_n_transfers [of 1 4 "[1, 2, 3, 4]" "example_env [Part 0, Part 1]" "example_state []"]
  by (rule ok_mono) auto

end
