(* ===== verification/Mr_Queue.thy ===== *)
theory Mr_Queue
  imports Mr_Posix
begin

text \<open>
  The data of \<open>src/queue.c\<close>: creation, the buffer arithmetic of a push and a pop and the abstract
  queue it implements, a bounded stack (the header calls it a LIFO buffer). The locking is in
  \<open>Mr_Queue_Monitor\<close>.
\<close>

section \<open>State and creation\<close>

text \<open>\<open>mr_queue_t\<close> without its mutex and condition variables.\<close>

record mr_queue_t =
  capacity :: size_t
  element_size :: size_t
  q_count :: size_t
  closed :: bool
  buffer :: "byte list"

text \<open>
  \<open>mr_queue_init\<close>: the result and, on success, the queue. The size of the buffer is a product in
  \<open>size_t\<close> and wraps. \<open>mtx_init\<close> and \<open>cnd_init\<close> only succeed or fail.
\<close>

definition mr_queue_init :: "size_t \<Rightarrow> size_t \<Rightarrow> ('s, int \<times> mr_queue_t option) proc" where
  "mr_queue_init cap esize =
     seq_io (assert_c (0 < cap)) (
     seq_io (assert_c (0 < esize)) (
     bind_io (c_malloc (unat (cap * esize))) (\<lambda>buf.
     if buf = None then return_io (-1, None) else
     bind_io (call True False) (\<lambda>mtx.
     if \<not> mtx then seq_io (c_free buf) (return_io (-1, None)) else
     bind_io (call True False) (\<lambda>cnd_full.
     if \<not> cnd_full then seq_io (c_free buf) (return_io (-1, None)) else
     bind_io (call True False) (\<lambda>cnd_empty.
     if \<not> cnd_empty then seq_io (c_free buf) (return_io (-1, None)) else
     return_io (0, Some
       \<lparr>capacity = cap, element_size = esize, q_count = 0, closed = False, buffer = the buf\<rparr>)))))))"

definition mr_queue_destroy :: "mr_queue_t \<Rightarrow> ('s, unit) proc" where
  "mr_queue_destroy q = c_free (Some (buffer q))"

text \<open>
  The lines of \<open>mr_queue_push\<close> and \<open>mr_queue_pop\<close> between the wait and the signal. \<open>None\<close>: the
  \<open>memcpy\<close> leaves the buffer, which is undefined.
\<close>

definition push_data :: "mr_queue_t \<Rightarrow> byte list \<Rightarrow> mr_queue_t option" where
  "push_data q d =
     (let off = unat (q_count q * element_size q); n = unat (element_size q) in
      if off + n \<le> length (buffer q) \<and> n \<le> length d
      then Some (q\<lparr>buffer := store off (take n d) (buffer q), q_count := q_count q + 1\<rparr>)
      else None)"

definition pop_data :: "mr_queue_t \<Rightarrow> (byte list \<times> mr_queue_t) option" where
  "pop_data q =
     (let c = q_count q - 1; off = unat (c * element_size q); n = unat (element_size q) in
      if off + n \<le> length (buffer q)
      then Some (take n (drop off (buffer q)), q\<lparr>q_count := c\<rparr>)
      else None)"

section \<open>The abstract queue\<close>

text \<open>The elements, oldest first.\<close>

definition elems :: "mr_queue_t \<Rightarrow> byte list list" where
  "elems q = map (\<lambda>i. take (unat (element_size q)) (drop (i * unat (element_size q)) (buffer q)))
     [0..<unat (q_count q)]"

definition queue_ok :: "mr_queue_t \<Rightarrow> bool" where
  "queue_ok q \<longleftrightarrow>
     0 < capacity q \<and> 0 < element_size q \<and>
     length (buffer q) = unat (capacity q) * unat (element_size q) \<and>
     unat (capacity q) * unat (element_size q) < 2 ^ 64 \<and> q_count q \<le> capacity q"

lemma length_elems [simp]: "length (elems q) = unat (q_count q)"
  by (simp add: elems_def)

lemma product_fits:
  assumes "queue_ok q" and "c \<le> capacity q"
  shows "unat (c * element_size q) = unat c * unat (element_size q)"
proof -
  have "unat c * unat (element_size q) \<le> unat (capacity q) * unat (element_size q)"
    using assms(2) by (intro mult_le_mono1) (simp add: word_le_nat_alt)
  also have "\<dots> < 2 ^ LENGTH(64)"
    using assms(1) by (simp add: queue_ok_def)
  finally show ?thesis by (rule unat_mult_lem [THEN iffD1])
qed

lemma slot_fits:
  assumes "queue_ok q" and "i < unat (capacity q)"
  shows "i * unat (element_size q) + unat (element_size q) \<le> length (buffer q)"
proof -
  have "Suc i * unat (element_size q) \<le> unat (capacity q) * unat (element_size q)"
    using assms(2) by (intro mult_le_mono1) simp
  then show ?thesis using assms(1) by (simp add: queue_ok_def add.commute)
qed

lemma unat_succ_lt: "(c :: size_t) < k \<Longrightarrow> unat (c + 1) = Suc (unat c)"
proof -
  assume "c < k"
  then have "unat c + unat (1 :: size_t) < 2 ^ LENGTH(64)"
    using unsigned_less [of k, where 'a = nat] by (simp add: word_less_nat_alt)
  then show ?thesis by (simp add: unat_add_lem [THEN iffD1])
qed

lemma unat_pred: "0 < (c :: size_t) \<Longrightarrow> Suc (unat (c - 1)) = unat c"
  by (simp add: unat_minus_one word_neq_0_conv word_less_nat_alt)

text \<open>A slot is not touched by a store at or after its end.\<close>

lemma take_drop_store:
  assumes "i + n \<le> off" and "off \<le> length buf"
  shows "take n (drop i (store off d buf)) = take n (drop i buf)"
  using assms by (simp add: store_def drop_take min_def) linarith

lemma take_drop_store_at:
  assumes "off + length d \<le> length buf" and "n = length d"
  shows "take n (drop off (store off d buf)) = d"
  using assms by (simp add: store_def)

lemma push_data_ok:
  assumes q: "queue_ok q" and room: "q_count q < capacity q" and d: "length d = unat (element_size q)"
  shows "\<exists>q'. push_data q d = Some q' \<and> queue_ok q' \<and> elems q' = elems q @ [d] \<and>
    capacity q' = capacity q \<and> element_size q' = element_size q \<and> closed q' = closed q \<and>
    q_count q' = q_count q + 1"
proof -
  let ?n = "unat (element_size q)" and ?c = "unat (q_count q)"
  have off: "unat (q_count q * element_size q) = ?c * ?n"
    using product_fits [OF q, of "q_count q"] room by simp
  have fits: "?c * ?n + ?n \<le> length (buffer q)"
    using slot_fits [OF q] room by (simp add: word_less_nat_alt)
  have c: "unat (q_count q + 1) = Suc ?c" by (rule unat_succ_lt [OF room])
  let ?q = "q\<lparr>buffer := store (?c * ?n) d (buffer q), q_count := q_count q + 1\<rparr>"
  have "push_data q d = Some ?q"
    using fits d by (simp add: push_data_def off Let_def)
  moreover have "queue_ok ?q"
    using q fits d room by (auto simp: queue_ok_def word_le_nat_alt c word_less_nat_alt)
  moreover have "elems ?q = elems q @ [d]"
  proof -
    have "take ?n (drop (i * ?n) (store (?c * ?n) d (buffer q))) = take ?n (drop (i * ?n) (buffer q))"
      if "i < ?c" for i
    proof (rule take_drop_store)
      have "Suc i * ?n \<le> ?c * ?n" using that by (intro mult_le_mono1) simp
      then show "i * ?n + ?n \<le> ?c * ?n" by (simp add: add.commute)
    qed (use fits in simp)
    moreover have "take ?n (drop (?c * ?n) (store (?c * ?n) d (buffer q))) = d"
      by (rule take_drop_store_at) (use fits d in auto)
    ultimately show ?thesis by (simp add: elems_def c)
  qed
  ultimately show ?thesis by simp
qed

lemma pop_data_ok:
  assumes q: "queue_ok q" and some: "0 < q_count q"
  shows "\<exists>d q'. pop_data q = Some (d, q') \<and> queue_ok q' \<and> elems q = elems q' @ [d] \<and>
    capacity q' = capacity q \<and> element_size q' = element_size q \<and> closed q' = closed q \<and>
    q_count q' = q_count q - 1"
proof -
  let ?n = "unat (element_size q)" and ?c = "unat (q_count q - 1)"
  have c: "unat (q_count q) = Suc ?c" using unat_pred [OF some] by simp
  have le: "Suc ?c \<le> unat (capacity q)"
    using q c by (simp add: queue_ok_def word_le_nat_alt)
  then have off: "unat ((q_count q - 1) * element_size q) = ?c * ?n"
    using product_fits [OF q, of "q_count q - 1"] by (simp add: word_le_nat_alt)
  have fits: "?c * ?n + ?n \<le> length (buffer q)" using slot_fits [OF q, of ?c] le by simp
  let ?q = "q\<lparr>q_count := q_count q - 1\<rparr>" and ?d = "take ?n (drop (?c * ?n) (buffer q))"
  have "pop_data q = Some (?d, ?q)" using fits by (simp add: pop_data_def off Let_def)
  moreover have "queue_ok ?q" using q le by (auto simp: queue_ok_def word_le_nat_alt)
  moreover have "elems q = elems ?q @ [?d]" by (simp add: elems_def c)
  ultimately show ?thesis by simp
qed

section \<open>The interface\<close>

text \<open>
  What the threads rely on: within its capacity the queue is a stack. The history of a queue is
  the list of its pushes and pops in the order they take effect.
\<close>

datatype 'd event = Pushed 'd | Popped 'd

text \<open>The content of a stack after a history, \<open>None\<close> when no stack behaves like that.\<close>

fun replay :: "'d event list \<Rightarrow> 'd list \<Rightarrow> 'd list option" where
  "replay [] st = Some st"
| "replay (Pushed d # h) st = replay h (st @ [d])"
| "replay (Popped d # h) st = (if st \<noteq> [] \<and> last st = d then replay h (butlast st) else None)"

lemma replay_append: "replay (h @ h') st = (case replay h st of None \<Rightarrow> None | Some st' \<Rightarrow> replay h' st')"
  by (induction h st rule: replay.induct) auto

locale bounded_stack =
  fixes inv :: "'q \<Rightarrow> bool" and content :: "'q \<Rightarrow> 'd list" and room :: "'q \<Rightarrow> bool"
    and fits :: "'q \<Rightarrow> 'd \<Rightarrow> bool"
    and push :: "'q \<Rightarrow> 'd \<Rightarrow> 'q option" and pop :: "'q \<Rightarrow> ('d \<times> 'q) option"
  assumes push_law: "inv q \<Longrightarrow> room q \<Longrightarrow> fits q d \<Longrightarrow>
      \<exists>q'. push q d = Some q' \<and> inv q' \<and> content q' = content q @ [d]"
    and pop_law: "inv q \<Longrightarrow> content q \<noteq> [] \<Longrightarrow>
      \<exists>d q'. pop q = Some (d, q') \<and> inv q' \<and> content q = content q' @ [d]"
begin

lemma push_content:
  "inv q \<Longrightarrow> room q \<Longrightarrow> fits q d \<Longrightarrow> push q d = Some q' \<Longrightarrow> content q' = content q @ [d]"
  using push_law by fastforce

lemma pop_content: "inv q \<Longrightarrow> content q \<noteq> [] \<Longrightarrow> pop q = Some (d, q') \<Longrightarrow> content q = content q' @ [d]"
  using pop_law by fastforce

lemma push_inv: "inv q \<Longrightarrow> room q \<Longrightarrow> fits q d \<Longrightarrow> push q d = Some q' \<Longrightarrow> inv q'"
  using push_law by fastforce

lemma pop_inv: "inv q \<Longrightarrow> content q \<noteq> [] \<Longrightarrow> pop q = Some (d, q') \<Longrightarrow> inv q'"
  using pop_law by fastforce

lemma push_defined: "inv q \<Longrightarrow> room q \<Longrightarrow> fits q d \<Longrightarrow> push q d \<noteq> None"
  using push_law by fastforce

lemma pop_defined: "inv q \<Longrightarrow> content q \<noteq> [] \<Longrightarrow> pop q \<noteq> None"
  using pop_law by fastforce

text \<open>What has just been pushed is popped first, and the content is as before.\<close>

lemma last_in_first_out:
  "inv q \<Longrightarrow> room q \<Longrightarrow> fits q d \<Longrightarrow> push q d = Some q' \<Longrightarrow>
   \<exists>q''. pop q' = Some (d, q'') \<and> inv q'' \<and> content q'' = content q"
  using push_content [of q d q'] push_inv [of q d q'] pop_law [of q'] by auto

text \<open>Every push and every pop extends a history the content is the result of.\<close>

lemma replay_push:
  "inv q \<Longrightarrow> room q \<Longrightarrow> fits q d \<Longrightarrow> push q d = Some q' \<Longrightarrow> replay h [] = Some (content q) \<Longrightarrow>
   replay (h @ [Pushed d]) [] = Some (content q')"
  by (drule (3) push_content) (simp add: replay_append)

lemma replay_pop:
  "inv q \<Longrightarrow> content q \<noteq> [] \<Longrightarrow> pop q = Some (d, q') \<Longrightarrow> replay h [] = Some (content q) \<Longrightarrow>
   replay (h @ [Popped d]) [] = Some (content q')"
  by (drule (2) pop_content) (simp add: replay_append)

end

interpretation mrq: bounded_stack queue_ok elems "\<lambda>q. q_count q < capacity q"
    "\<lambda>q d. length d = unat (element_size q)" push_data pop_data
proof unfold_locales
  fix q and d :: "byte list"
  assume "queue_ok q" "q_count q < capacity q" "length d = unat (element_size q)"
  from push_data_ok [OF this]
  show "\<exists>q'. push_data q d = Some q' \<and> queue_ok q' \<and> elems q' = elems q @ [d]" by blast
next
  fix q assume "queue_ok q" and "elems q \<noteq> []"
  then have "0 < q_count q" by (auto simp: elems_def word_less_nat_alt)
  from pop_data_ok [OF \<open>queue_ok q\<close> this]
  show "\<exists>d q'. pop_data q = Some (d, q') \<and> queue_ok q' \<and> elems q = elems q' @ [d]" by blast
qed

text \<open>In a history of a stack every popped element was pushed, and as often.\<close>

fun pushed :: "'d event list \<Rightarrow> 'd list" where
  "pushed [] = []"
| "pushed (Pushed d # h) = d # pushed h"
| "pushed (Popped d # h) = pushed h"

fun popped :: "'d event list \<Rightarrow> 'd list" where
  "popped [] = []"
| "popped (Pushed d # h) = popped h"
| "popped (Popped d # h) = d # popped h"

lemma replay_conserves:
  "replay h st = Some st' \<Longrightarrow> mset (pushed h) + mset st = mset (popped h) + mset st'"
proof (induction h st rule: replay.induct)
  case (3 d h st)
  then have "st \<noteq> []" "last st = d"
    and IH: "mset (pushed h) + mset (butlast st) = mset (popped h) + mset st'"
    by (auto split: if_splits)
  then have "mset st = add_mset d (mset (butlast st))" using mset_butlast_last [of st] by simp
  with IH show ?case by simp
qed auto

section \<open>Properties\<close>

lemma mr_queue_init_ok:
  assumes ev: "evolve e0 e" and pos: "0 < cap" "0 < esize"
    and good: "\<And>e' q. evolve e0 e' \<Longrightarrow> capacity q = cap \<Longrightarrow> element_size q = esize \<Longrightarrow> q_count q = 0 \<Longrightarrow>
      \<not> closed q \<Longrightarrow> length (buffer q) = unat (cap * esize) \<Longrightarrow>
      Q (0, Some q) e' (s\<lparr>live := live s + 1\<rparr>)"
    and bad: "\<And>e'. evolve e0 e' \<Longrightarrow> faulty e0 \<Longrightarrow> Q (-1, None) e' s"
  shows "ok (mr_queue_init cap esize) e s Q"
  unfolding mr_queue_init_def
  apply (simp add: ok_simps pos split del: if_split)
  apply (rule c_malloc_ok [OF ev])
   apply (simp add: ok_simps split del: if_split)
   apply (erule call_ok; simp add: ok_simps bad split del: if_split)
   apply (erule call_ok; simp add: ok_simps bad split del: if_split)
   apply (erule call_ok; simp add: ok_simps bad good)
  apply (simp add: ok_simps bad)
  done

text \<open>C29. \<open>mr_queue_init\<close> gives an empty, open queue of the requested capacity that satisfies the
  invariant of the operations, provided the size of the buffer does not overflow a \<open>size_t\<close>; or -1
  after a failed call, with every block it allocated freed.\<close>

theorem mr_queue_init_fresh:
  assumes "0 < cap" and "0 < esize" and "unat cap * unat esize < 2 ^ 64"
  shows "ok (mr_queue_init cap esize) e s (\<lambda>(r, out) e' s'.
    r = 0 \<and> s' = s\<lparr>live := live s + 1\<rparr> \<and>
      (\<exists>q. out = Some q \<and> queue_ok q \<and> elems q = [] \<and> capacity q = cap \<and> \<not> closed q) \<or>
    r = -1 \<and> out = None \<and> faulty e \<and> s' = s)"
proof -
  have "unat (cap * esize) = unat cap * unat esize"
    using assms(3) by (intro unat_mult_lem [THEN iffD1]) simp
  then show ?thesis
    using assms by (intro mr_queue_init_ok [OF evolve_refl assms(1,2)]) (auto simp: queue_ok_def elems_def)
qed

theorem mr_queue_init_fresh_witness:
  "ok (mr_queue_init 4 8) (example_env []) (example_state []) (\<lambda>(r, out) e' s'. r = 0 \<and> live s' = 1)"
  by (rule ok_mono [OF mr_queue_init_fresh]) auto

text \<open>C32. The product is not checked: for a capacity and an element size whose product overflows,
  \<open>mr_queue_init\<close> still succeeds when no call fails, with a buffer too small for its capacity.\<close>

theorem mr_queue_init_overflow:
  assumes "0 < cap" and "0 < esize" and "2 ^ 64 \<le> unat cap * unat esize" and "\<not> faulty e"
  shows "ok (mr_queue_init cap esize) e s (\<lambda>(r, out) e' s'.
    r = 0 \<and> (\<exists>q. out = Some q \<and> capacity q = cap \<and> element_size q = esize \<and>
      length (buffer q) < unat cap * unat esize))"
proof -
  have "unat (cap * esize) < 2 ^ 64" using unsigned_less [of "cap * esize", where 'a = nat] by simp
  then have "unat (cap * esize) < unat cap * unat esize" using assms(3) by simp
  then show ?thesis
    using assms by (intro mr_queue_init_ok [OF evolve_refl assms(1,2)]) auto
qed

theorem mr_queue_init_overflow_witness:
  "ok (mr_queue_init 0x2000000000000000 8) (example_env []) (example_state []) (\<lambda>(r, out) e' s'. r = 0)"
  by (rule ok_mono [OF mr_queue_init_overflow]) auto

text \<open>Popping right after a push returns the pushed element and leaves the elements as they were
  before, for the byte arithmetic of the code at every fill level.\<close>

theorem queue_last_in_first_out:
  assumes "queue_ok q" and "q_count q < capacity q" and "length d = unat (element_size q)"
  shows "\<exists>q' q''. push_data q d = Some q' \<and> elems q' = elems q @ [d] \<and>
    pop_data q' = Some (d, q'') \<and> elems q'' = elems q \<and> queue_ok q''"
  using push_data_ok [OF assms] mrq.last_in_first_out [OF assms] by blast

theorem queue_last_in_first_out_witness:
  "\<exists>q' q''. push_data \<lparr>capacity = 2, element_size = 2, q_count = 1, closed = False, buffer = [1, 2, 0, 0]\<rparr>
       [3, 4] = Some q' \<and> pop_data q' = Some ([3, 4], q'')"
  using queue_last_in_first_out
    [of "\<lparr>capacity = 2, element_size = 2, q_count = 1, closed = False, buffer = [1, 2, 0, 0]\<rparr>" "[3, 4]"]
  by (auto simp: queue_ok_def)

end
