(* ===== verification/Mr_Queue_Monitor.thy ===== *)
theory Mr_Queue_Monitor
  imports Mr_Queue
begin

text \<open>
  The operations of \<open>src/queue.c\<close> as threads run them: each thread has a program counter, and
  every call of a function of \<open>threads.h\<close> and every access to the queue is a step of its own, so
  all interleavings are covered. The clients are arbitrary: between two operations a thread may
  start any operation.
\<close>

section \<open>Threads\<close>

datatype answer_val = No_data | Data "byte list" | Flag bool

datatype look = Look_closed | Look_empty

text \<open>
  The program counter inside an operation. \<open>_enter\<close>: before \<open>mtx_lock\<close>. \<open>_test\<close>: at the condition
  of the loop. \<open>_wait\<close>: blocked in \<open>cnd_wait\<close>. \<open>_wake\<close>: in \<open>cnd_wait\<close>, about to take the mutex
  again. \<open>_signal\<close>: before \<open>cnd_signal\<close>. \<open>Leave r x\<close>: before \<open>mtx_unlock\<close>, to return \<open>r\<close> with \<open>x\<close>
  in the out-parameter. \<open>Returned\<close>: between two operations.
\<close>

datatype pc =
    Returned int answer_val
  | Crashed stop
  | Push_enter "byte list" | Push_test "byte list" | Push_wait "byte list" | Push_wake "byte list"
  | Push_signal
  | Pop_enter | Pop_test | Pop_wait | Pop_wake | Pop_signal "byte list"
  | Close_enter | Close_set | Close_bcast
  | Look_enter look | Look_read look
  | Leave int answer_val

record monitor =
  queue :: mr_queue_t
  mutex :: "nat option"       \<comment> \<open>the thread that holds \<open>q->mutex\<close>\<close>
  threads :: "pc list"
  history :: "byte list event list"    \<comment> \<open>ghost: the effects so far, in order\<close>

abbreviation at :: "monitor \<Rightarrow> nat \<Rightarrow> pc \<Rightarrow> bool" where
  "at m i p \<equiv> i < length (threads m) \<and> threads m ! i = p"

abbreviation goto :: "nat \<Rightarrow> pc \<Rightarrow> monitor \<Rightarrow> monitor" where
  "goto i p m \<equiv> m\<lparr>threads := (threads m)[i := p]\<rparr>"

text \<open>Taking and giving up the mutex.\<close>

abbreviation lock_goto :: "nat \<Rightarrow> pc \<Rightarrow> monitor \<Rightarrow> monitor" where
  "lock_goto i p m \<equiv> m\<lparr>mutex := Some i, threads := (threads m)[i := p]\<rparr>"

abbreviation unlock_goto :: "nat \<Rightarrow> pc \<Rightarrow> monitor \<Rightarrow> monitor" where
  "unlock_goto i p m \<equiv> m\<lparr>mutex := None, threads := (threads m)[i := p]\<rparr>"

fun is_push_wait :: "pc \<Rightarrow> bool" where
  "is_push_wait (Push_wait d) = True" | "is_push_wait _ = False"

text \<open>\<open>cnd_signal(&q->full)\<close> moves a waiter on to \<open>Push_wake\<close>.\<close>

fun wake_push :: "pc \<Rightarrow> pc" where
  "wake_push (Push_wait d) = Push_wake d" | "wake_push p = p"

fun is_enter :: "pc \<Rightarrow> bool" where
  "is_enter (Push_enter d) = True" | "is_enter Pop_enter = True" | "is_enter Close_enter = True"
| "is_enter (Look_enter l) = True" | "is_enter _ = False"

section \<open>Steps\<close>

text \<open>
  \<open>Call\<close>: a client starts an operation. \<open>Run\<close>: a step in which no call fails. \<open>Spurious\<close>: a wake-up
  without a signal, which C11 allows. \<open>Fail\<close>: a function of \<open>threads.h\<close> returns an error; a
  failed \<open>mtx_unlock\<close> leaves the mutex as it is; the paths that return 0 test its result, the
  others do not.
\<close>

datatype label = Call | Run | Spurious | Fail

inductive step :: "label \<Rightarrow> monitor \<Rightarrow> monitor \<Rightarrow> bool" where
  call_push: "at m i (Returned r x) \<Longrightarrow> length d = unat (element_size (queue m)) \<Longrightarrow>
    step Call m (goto i (Push_enter d) m)"
| call_push_closed: "at m i (Returned r x) \<Longrightarrow> closed (queue m) \<Longrightarrow>
    step Call m (goto i (Crashed Assert_Failed) m)"
| call_pop: "at m i (Returned r x) \<Longrightarrow> step Call m (goto i Pop_enter m)"
| call_close: "at m i (Returned r x) \<Longrightarrow> step Call m (goto i Close_enter m)"
| call_look: "at m i (Returned r x) \<Longrightarrow> step Call m (goto i (Look_enter l) m)"
| lock_fail: "at m i p \<Longrightarrow> is_enter p \<Longrightarrow> step Fail m (goto i (Returned (-1) No_data) m)"
| leave: "at m i (Leave r x) \<Longrightarrow> step Run m (unlock_goto i (Returned r x) m)"
| leave_fail: "at m i (Leave r x) \<Longrightarrow> 
    step Fail m (goto i (Returned (if r = 0 then -1 else r) x) m)"

| push_lock: "at m i (Push_enter d) \<Longrightarrow> mutex m = None \<Longrightarrow> step Run m (lock_goto i (Push_test d) m)"
| push_wait: "at m i (Push_test d) \<Longrightarrow> q_count (queue m) = capacity (queue m) \<Longrightarrow>
    step Run m (unlock_goto i (Push_wait d) m)"
| push_wait_fail: "at m i (Push_test d) \<Longrightarrow> q_count (queue m) = capacity (queue m) \<Longrightarrow>
    step Fail m (goto i (Leave (-1) No_data) m)"
| push_spurious: "at m i (Push_wait d) \<Longrightarrow> step Spurious m (goto i (Push_wake d) m)"
| push_relock: "at m i (Push_wake d) \<Longrightarrow> mutex m = None \<Longrightarrow> step Run m (lock_goto i (Push_test d) m)"
| push_store: "at m i (Push_test d) \<Longrightarrow> q_count (queue m) \<noteq> capacity (queue m) \<Longrightarrow>
    push_data (queue m) d = Some q' \<Longrightarrow>
    step Run m (m\<lparr>queue := q', threads := (threads m)[i := Push_signal],
                  history := history m @ [Pushed d]\<rparr>)"
| push_undefined: "at m i (Push_test d) \<Longrightarrow> q_count (queue m) \<noteq> capacity (queue m) \<Longrightarrow>
    push_data (queue m) d = None \<Longrightarrow> step Run m (goto i (Crashed Undefined) m)"
| push_signal: "at m i Push_signal \<Longrightarrow> at m j Pop_wait \<Longrightarrow>
    step Run m (goto i (Leave 0 No_data) (goto j Pop_wake m))"
| push_signal_none: "at m i Push_signal \<Longrightarrow> Pop_wait \<notin> set (threads m) \<Longrightarrow>
    step Run m (goto i (Leave 0 No_data) m)"
| push_signal_fail: "at m i Push_signal \<Longrightarrow> step Fail m (goto i (Leave (-1) No_data) m)"

| pop_lock: "at m i Pop_enter \<Longrightarrow> mutex m = None \<Longrightarrow> step Run m (lock_goto i Pop_test m)"
| pop_wait: "at m i Pop_test \<Longrightarrow> q_count (queue m) = 0 \<Longrightarrow> \<not> closed (queue m) \<Longrightarrow>
    step Run m (unlock_goto i Pop_wait m)"
| pop_wait_fail: "at m i Pop_test \<Longrightarrow> q_count (queue m) = 0 \<Longrightarrow> \<not> closed (queue m) \<Longrightarrow>
    step Fail m (goto i (Leave (-1) No_data) m)"
| pop_spurious: "at m i Pop_wait \<Longrightarrow> step Spurious m (goto i Pop_wake m)"
| pop_relock: "at m i Pop_wake \<Longrightarrow> mutex m = None \<Longrightarrow> step Run m (lock_goto i Pop_test m)"
| pop_end: "at m i Pop_test \<Longrightarrow> q_count (queue m) = 0 \<Longrightarrow> closed (queue m) \<Longrightarrow>
    step Run m (goto i (Leave 1 No_data) m)"
| pop_take: "at m i Pop_test \<Longrightarrow> q_count (queue m) \<noteq> 0 \<Longrightarrow> pop_data (queue m) = Some (d, q') \<Longrightarrow>
    step Run m (m\<lparr>queue := q', threads := (threads m)[i := Pop_signal d],
                  history := history m @ [Popped d]\<rparr>)"
| pop_undefined: "at m i Pop_test \<Longrightarrow> q_count (queue m) \<noteq> 0 \<Longrightarrow> pop_data (queue m) = None \<Longrightarrow>
    step Run m (goto i (Crashed Undefined) m)"
| pop_signal: "at m i (Pop_signal d) \<Longrightarrow> at m j (Push_wait d') \<Longrightarrow>
    step Run m (goto i (Leave 0 (Data d)) (goto j (Push_wake d') m))"
| pop_signal_none: "at m i (Pop_signal d) \<Longrightarrow> (\<forall>p \<in> set (threads m). \<not> is_push_wait p) \<Longrightarrow>
    step Run m (goto i (Leave 0 (Data d)) m)"
| pop_signal_fail: "at m i (Pop_signal d) \<Longrightarrow> step Fail m (goto i (Leave (-1) (Data d)) m)"

| close_lock: "at m i Close_enter \<Longrightarrow> mutex m = None \<Longrightarrow> step Run m (lock_goto i Close_set m)"
| close_set: "at m i Close_set \<Longrightarrow>
    step Run m (m\<lparr>queue := (queue m)\<lparr>closed := True\<rparr>, threads := (threads m)[i := Close_bcast]\<rparr>)"
| close_bcast: "at m i Close_bcast \<Longrightarrow>
    step Run m (m\<lparr>threads := (map (\<lambda>p. if p = Pop_wait then Pop_wake else p) (threads m))
                    [i := Leave 0 No_data]\<rparr>)"
| close_bcast_fail: "at m i Close_bcast \<Longrightarrow> step Fail m (goto i (Leave (-1) No_data) m)"

| look_lock: "at m i (Look_enter l) \<Longrightarrow> mutex m = None \<Longrightarrow> step Run m (lock_goto i (Look_read l) m)"
| look_closed: "at m i (Look_read Look_closed) \<Longrightarrow>
    step Run m (goto i (Leave 0 (Flag (closed (queue m)))) m)"
| look_empty: "at m i (Look_read Look_empty) \<Longrightarrow>
    step Run m (goto i (Leave 0 (Flag (q_count (queue m) = 0))) m)"

definition fresh :: "mr_queue_t \<Rightarrow> bool" where
  "fresh q \<longleftrightarrow> queue_ok q \<and> q_count q = 0 \<and> \<not> closed q"

text \<open>The start: a fresh queue and \<open>n\<close> threads that have done nothing.\<close>

definition start :: "mr_queue_t \<Rightarrow> nat \<Rightarrow> monitor" where
  "start q n = \<lparr>queue = q, mutex = None, threads = replicate n (Returned 0 No_data), history = []\<rparr>"

definition started :: "monitor \<Rightarrow> bool" where
  "started m \<longleftrightarrow> (\<exists>q n. fresh q \<and> m = start q n)"

section \<open>Safety\<close>

text \<open>Where a thread holds the mutex.\<close>

fun holds :: "pc \<Rightarrow> bool" where
  "holds (Push_test d) = True" | "holds Push_signal = True"
| "holds Pop_test = True" | "holds (Pop_signal d) = True"
| "holds Close_set = True" | "holds Close_bcast = True" | "holds (Look_read l) = True"
| "holds (Leave r x) = True" | "holds _ = False"

definition mutex_inv :: "monitor \<Rightarrow> bool" where
  "mutex_inv m \<longleftrightarrow> (\<forall>i < length (threads m). holds (threads m ! i) \<longrightarrow> mutex m = Some i)"

lemma step_length: "step l m m' \<Longrightarrow> length (threads m') = length (threads m)"
  by (induction rule: step.induct) simp_all

lemma step_mutex_inv: "step l m m' \<Longrightarrow> mutex_inv m \<Longrightarrow> mutex_inv m'"
  unfolding mutex_inv_def
  by (induction rule: step.induct)
     (auto simp: nth_list_update split: if_splits,
      (frule_tac x = i in spec, drule_tac x = ia in spec, simp)+)

text \<open>Mutual exclusion: two threads between \<open>mtx_lock\<close> and \<open>mtx_unlock\<close> are the same thread.\<close>

lemma mutex_inv_unique:
  "mutex_inv m \<Longrightarrow> at m i p \<Longrightarrow> at m j p' \<Longrightarrow> holds p \<Longrightarrow> holds p' \<Longrightarrow> i = j"
  unfolding mutex_inv_def by (metis option.inject)

text \<open>The queue invariant, the elements that are about to be pushed, and the history.\<close>

fun carried :: "pc \<Rightarrow> byte list option" where
  "carried (Push_enter d) = Some d" | "carried (Push_test d) = Some d" | "carried (Push_wait d) = Some d"
| "carried (Push_wake d) = Some d" | "carried _ = None"

definition thread_ok :: "size_t \<Rightarrow> pc \<Rightarrow> bool" where
  "thread_ok esize p \<longleftrightarrow>
     p \<noteq> Crashed Undefined \<and> (\<forall>d. carried p = Some d \<longrightarrow> length d = unat esize)"

definition data_inv :: "monitor \<Rightarrow> bool" where
  "data_inv m \<longleftrightarrow>
     queue_ok (queue m) \<and> replay (history m) [] = Some (elems (queue m)) \<and>
     (\<forall>p \<in> set (threads m). thread_ok (element_size (queue m)) p)"

lemma thread_ok_simps [simp]:
  "carried p = None \<Longrightarrow> p \<noteq> Crashed Undefined \<Longrightarrow> thread_ok e p"
  by (simp add: thread_ok_def)

lemma thread_ok_carried:
  "thread_ok e p \<Longrightarrow> carried p = Some d \<Longrightarrow> carried p' = Some d \<Longrightarrow> thread_ok e p'"
  by (auto simp: thread_ok_def)

lemma set_update_dest: "x \<in> set (ps[i := y]) \<Longrightarrow> x = y \<or> x \<in> set ps"
  using set_update_subset_insert by fastforce

lemma queue_ok_closed: "queue_ok (q\<lparr>closed := b\<rparr>) = queue_ok q" "elems (q\<lparr>closed := b\<rparr>) = elems q"
  by (simp_all add: queue_ok_def elems_def)

lemma data_inv_at: "data_inv m \<Longrightarrow> at m i p \<Longrightarrow> thread_ok (element_size (queue m)) p"
  by (auto simp: data_inv_def)

text \<open>A step that moves one thread, and perhaps the mutex.\<close>

lemma data_inv_goto:
  assumes "data_inv m" and "thread_ok (element_size (queue m)) p"
  shows "data_inv (goto i p m)" "data_inv (lock_goto i p m)" "data_inv (unlock_goto i p m)"
  using assms by (auto simp: data_inv_def dest!: set_update_dest)

lemma data_inv_store:
  assumes inv: "data_inv m" and p: "at m i (Push_test d)" and full: "q_count (queue m) \<noteq> capacity (queue m)"
  shows "\<exists>q'. push_data (queue m) d = Some q' \<and>
    data_inv (m\<lparr>queue := q', threads := (threads m)[i := Push_signal], history := history m @ [Pushed d]\<rparr>)"
proof -
  have q: "queue_ok (queue m)" and room: "q_count (queue m) < capacity (queue m)"
    and h: "replay (history m) [] = Some (elems (queue m))"
    using inv full by (auto simp: data_inv_def queue_ok_def)
  have d: "length d = unat (element_size (queue m))"
    using data_inv_at [OF inv p] by (simp add: thread_ok_def)
  obtain q' where q': "push_data (queue m) d = Some q'" "queue_ok q'" "element_size q' = element_size (queue m)"
    using push_data_ok [OF q room d] by blast
  then show ?thesis
    using inv mrq.replay_push [OF q room d q'(1) h]
    by (auto simp: data_inv_def dest!: set_update_dest)
qed

lemma data_inv_take:
  assumes inv: "data_inv m" and some: "q_count (queue m) \<noteq> 0"
  shows "\<exists>d q'. pop_data (queue m) = Some (d, q') \<and>
    data_inv (m\<lparr>queue := q', threads := (threads m)[i := Pop_signal d], history := history m @ [Popped d]\<rparr>)"
proof -
  have q: "queue_ok (queue m)" and h: "replay (history m) [] = Some (elems (queue m))"
    using inv by (auto simp: data_inv_def)
  have pos: "0 < q_count (queue m)" using some by (simp add: word_neq_0_conv)
  then have ne: "elems (queue m) \<noteq> []"
    using length_elems [of "queue m"] by (auto simp: word_less_nat_alt simp del: length_elems)
  obtain d q' where q': "pop_data (queue m) = Some (d, q')" "queue_ok q'" "element_size q' = element_size (queue m)"
    using pop_data_ok [OF q pos] by blast
  then show ?thesis
    using inv mrq.replay_pop [OF q ne q'(1) h]
    by (auto simp: data_inv_def dest!: set_update_dest)
qed

lemma step_data_inv:
  assumes "step l m m'" and inv: "data_inv m"
  shows "data_inv m'"
  using assms
proof (cases rule: step.cases)
  case (call_push i r x d)
  then show ?thesis using inv by (auto intro!: data_inv_goto simp: thread_ok_def)
next
  case (push_lock i d)
  then show ?thesis using inv data_inv_at [OF inv push_lock(3)]
    by (auto intro!: data_inv_goto intro: thread_ok_carried)
next
  case (push_relock i d)
  then show ?thesis using inv data_inv_at [OF inv push_relock(3)]
    by (auto intro!: data_inv_goto intro: thread_ok_carried)
next
  case (push_wait i d)
  then show ?thesis using inv data_inv_at [OF inv push_wait(3)]
    by (auto intro!: data_inv_goto intro: thread_ok_carried)
next
  case (push_spurious i d)
  then show ?thesis using inv data_inv_at [OF inv push_spurious(3)]
    by (auto intro!: data_inv_goto intro: thread_ok_carried)
next
  case (push_store i d q')
  then show ?thesis using data_inv_store [OF inv push_store(3,4)] by simp
next
  case (push_undefined i d)
  then show ?thesis using data_inv_store [OF inv push_undefined(3,4)] by simp
next
  case (pop_take i d q')
  then show ?thesis using data_inv_take [OF inv pop_take(4), of i] by simp
next
  case (pop_undefined i)
  then show ?thesis using data_inv_take [OF inv pop_undefined(4)] by simp
next
  case (push_signal i j)
  then have "data_inv (goto j Pop_wake m)" using inv by (auto intro!: data_inv_goto)
  from data_inv_goto(1) [OF this, of "Leave 0 No_data" i] show ?thesis using push_signal by simp
next
  case (pop_signal i d j d')
  then have "data_inv (goto j (Push_wake d') m)"
    using inv data_inv_at [OF inv pop_signal(4)] by (auto intro!: data_inv_goto intro: thread_ok_carried)
  from data_inv_goto(1) [OF this, of "Leave 0 (Data d)" i] show ?thesis using pop_signal by simp
next
  case (close_set i)
  then show ?thesis using inv by (auto simp: data_inv_def queue_ok_closed dest!: set_update_dest)
next
  case (close_bcast i)
  then show ?thesis using inv by (auto simp: data_inv_def dest!: set_update_dest)
qed (use inv in \<open>auto intro!: data_inv_goto\<close>)

section \<open>No lost wake-up\<close>

text \<open>How many threads are at a place.\<close>

definition cnt :: "(pc \<Rightarrow> bool) \<Rightarrow> pc list \<Rightarrow> int" where
  "cnt P ts = int (length (filter P ts))"

lemma cnt_update [simp]:
  "i < length ts \<Longrightarrow>
   cnt P (ts[i := x]) = cnt P ts - (if P (ts ! i) then 1 else 0) + (if P x then 1 else 0)"
proof (induction ts arbitrary: i)
  case (Cons a ts)
  have "cnt P (a # ts) = (if P a then 1 else 0) + cnt P ts" for a ts
    by (simp add: cnt_def)
  then show ?case using Cons by (cases i) auto
qed simp

lemma cnt_nonneg [simp]: "0 \<le> cnt P ts"
  by (simp add: cnt_def)

lemma cnt_pos: "i < length ts \<Longrightarrow> P (ts ! i) \<Longrightarrow> 1 \<le> cnt P ts"
  by (induction ts arbitrary: i) (auto simp: cnt_def nth_Cons split: nat.splits)

lemma cnt_zero: "cnt P ts = 0 \<longleftrightarrow> (\<forall>p \<in> set ts. \<not> P p)"
  by (auto simp: cnt_def filter_empty_conv)

text \<open>
  Threads that will look at the queue, or wake up a thread that will, before the queue comes to
  rest: those after a wake-up or at the test, and those about to signal.
\<close>

fun popper :: "pc \<Rightarrow> bool" where
  "popper Pop_wake = True" | "popper Pop_test = True" | "popper Push_signal = True" | "popper _ = False"

fun pusher :: "pc \<Rightarrow> bool" where
  "pusher (Push_wake d) = True" | "pusher (Push_test d) = True" | "pusher (Pop_signal d) = True"
| "pusher _ = False"

abbreviation pop_waiters :: "monitor \<Rightarrow> int" where "pop_waiters m \<equiv> cnt (\<lambda>p. p = Pop_wait) (threads m)"
abbreviation push_waiters :: "monitor \<Rightarrow> int" where "push_waiters m \<equiv> cnt is_push_wait (threads m)"

definition owner_inv :: "monitor \<Rightarrow> bool" where
  "owner_inv m \<longleftrightarrow> (\<forall>i. mutex m = Some i \<longrightarrow> i < length (threads m) \<and> holds (threads m ! i))"

definition pop_live :: "monitor \<Rightarrow> bool" where
  "pop_live m \<longleftrightarrow> pop_waiters m = 0 \<or> uint (q_count (queue m)) \<le> cnt popper (threads m)"

definition push_live :: "monitor \<Rightarrow> bool" where
  "push_live m \<longleftrightarrow> push_waiters m = 0 \<or>
     uint (capacity (queue m)) - uint (q_count (queue m)) \<le> cnt pusher (threads m)"

definition close_live :: "monitor \<Rightarrow> bool" where
  "close_live m \<longleftrightarrow> (closed (queue m) \<longrightarrow> pop_waiters m = 0 \<or> 1 \<le> cnt (\<lambda>p. p = Close_bcast) (threads m))"

lemma push_data_facts:
  assumes "data_inv m" and "at m i (Push_test d)" and "q_count (queue m) \<noteq> capacity (queue m)"
    and "push_data (queue m) d = Some q'"
  shows "uint (q_count q') = uint (q_count (queue m)) + 1 \<and> capacity q' = capacity (queue m) \<and>
    closed q' = closed (queue m)"
proof -
  have q: "queue_ok (queue m)" and room: "q_count (queue m) < capacity (queue m)"
    using assms(1,3) by (auto simp: data_inv_def queue_ok_def)
  have d: "length d = unat (element_size (queue m))"
    using data_inv_at [OF assms(1,2)] by (simp add: thread_ok_def)
  from push_data_ok [OF q room d] assms(4) have "capacity q' = capacity (queue m)"
    "closed q' = closed (queue m)" "q_count q' = q_count (queue m) + 1" by auto
  moreover have "uint (q_count (queue m) + 1) = uint (q_count (queue m)) + 1"
    using arg_cong [OF unat_succ_lt [OF room], of int] by simp
  ultimately show ?thesis by simp
qed

lemma pop_data_facts:
  assumes "data_inv m" and "q_count (queue m) \<noteq> 0" and "pop_data (queue m) = Some (d, q')"
  shows "uint (q_count q') = uint (q_count (queue m)) - 1 \<and> capacity q' = capacity (queue m) \<and>
    closed q' = closed (queue m)"
proof -
  have q: "queue_ok (queue m)" and pos: "0 < q_count (queue m)"
    using assms(1,2) by (auto simp: data_inv_def word_neq_0_conv)
  from pop_data_ok [OF q pos] assms(3) have "capacity q' = capacity (queue m)"
    "closed q' = closed (queue m)" "q_count q' = q_count (queue m) - 1" by auto
  moreover have "uint (q_count (queue m) - 1) = uint (q_count (queue m)) - 1"
    using arg_cong [OF unat_pred [OF pos], of int] by simp
  ultimately show ?thesis by simp
qed

lemma cnt_bcast:
  "cnt (\<lambda>p. p = Pop_wait) (map (\<lambda>p. if p = Pop_wait then Pop_wake else p) ts) = 0"
  by (auto simp: cnt_zero)

lemma cnt_bcast_other:
  "\<not> P Pop_wait \<Longrightarrow> \<not> P Pop_wake \<Longrightarrow> cnt P (map (\<lambda>p. if p = Pop_wait then Pop_wake else p) ts) = cnt P ts"
  by (induction ts) (auto simp: cnt_def)

lemma not_Pop_wait: "Pop_wait \<notin> set ts \<Longrightarrow> cnt (\<lambda>p. p = Pop_wait) ts = 0"
  by (auto simp: cnt_zero)

lemma step_pop_live:
  assumes "step l m m'" and "l \<noteq> Fail" and "data_inv m" and "pop_live m"
  shows "pop_live m'"
  using assms
proof (cases rule: step.cases)
  case (push_store i d q')
  then show ?thesis using assms push_data_facts [OF assms(3) push_store(3-5)]
    by (auto simp: pop_live_def)
next
  case (pop_take i d q')
  then show ?thesis using assms pop_data_facts [OF assms(3) pop_take(4,5)]
    by (auto simp: pop_live_def)
next
  case (push_signal i j)
  then show ?thesis using assms cnt_pos [of j "threads m" "\<lambda>p. p = Pop_wait"]
    by (auto simp: pop_live_def nth_list_update)
next
  case (pop_signal i d j d')
  then show ?thesis using assms by (auto simp: pop_live_def nth_list_update)
next
  case (close_bcast i)
  then show ?thesis by (simp add: pop_live_def cnt_bcast)
next
  case (push_signal_none i)
  then show ?thesis by (simp add: pop_live_def not_Pop_wait)
next
  case (push_undefined i d)
  then show ?thesis using data_inv_store [OF assms(3) push_undefined(3,4)] by simp
next
  case (pop_undefined i)
  then show ?thesis using data_inv_take [OF assms(3) pop_undefined(4)] by simp
next
  case (pop_wait i)
  then show ?thesis using assms cnt_pos [of i "threads m" popper]
    by (auto simp: pop_live_def)
next
  case (pop_end i)
  then show ?thesis using assms cnt_pos [of i "threads m" popper]
    by (auto simp: pop_live_def)
next
  case (pop_spurious i)
  then show ?thesis using assms cnt_pos [of i "threads m" "\<lambda>p. p = Pop_wait"]
    by (auto simp: pop_live_def)
qed (use assms in \<open>auto simp: pop_live_def\<close>)

lemma step_push_live:
  assumes "step l m m'" and "l \<noteq> Fail" and "data_inv m" and "push_live m"
  shows "push_live m'"
  using assms
proof (cases rule: step.cases)
  case (push_store i d q')
  then show ?thesis using assms push_data_facts [OF assms(3) push_store(3-5)]
    by (auto simp: push_live_def)
next
  case (pop_take i d q')
  then show ?thesis using assms pop_data_facts [OF assms(3) pop_take(4,5)]
    by (auto simp: push_live_def)
next
  case (push_signal i j)
  then show ?thesis using assms by (auto simp: push_live_def nth_list_update)
next
  case (pop_signal i d j d')
  then show ?thesis using assms cnt_pos [of j "threads m" is_push_wait]
    by (auto simp: push_live_def nth_list_update)
next
  case (close_bcast i)
  then show ?thesis using assms by (auto simp: push_live_def cnt_bcast_other)
next
  case (pop_signal_none i d)
  then have "push_waiters m = 0" by (simp add: cnt_zero)
  then show ?thesis using pop_signal_none by (auto simp: push_live_def)
next
  case (push_undefined i d)
  then show ?thesis using data_inv_store [OF assms(3) push_undefined(3,4)] by simp
next
  case (pop_undefined i)
  then show ?thesis using data_inv_take [OF assms(3) pop_undefined(4)] by simp
next
  case (push_wait i d)
  then show ?thesis using assms cnt_pos [of i "threads m" pusher]
    by (auto simp: push_live_def)
next
  case (push_spurious i d)
  then show ?thesis using assms cnt_pos [of i "threads m" is_push_wait]
    by (auto simp: push_live_def)
qed (use assms in \<open>auto simp: push_live_def\<close>)

lemma step_close_live:
  assumes "step l m m'" and "l \<noteq> Fail" and "data_inv m" and "close_live m"
  shows "close_live m'"
  using assms
proof (cases rule: step.cases)
  case (push_store i d q')
  then show ?thesis using assms push_data_facts [OF assms(3) push_store(3-5)]
    by (auto simp: close_live_def)
next
  case (pop_take i d q')
  then show ?thesis using assms pop_data_facts [OF assms(3) pop_take(4,5)]
    by (auto simp: close_live_def)
next
  case (push_signal i j)
  then show ?thesis using assms cnt_pos [of j "threads m" "\<lambda>p. p = Pop_wait"]
    by (auto simp: close_live_def nth_list_update)
next
  case (pop_signal i d j d')
  then show ?thesis using assms by (auto simp: close_live_def nth_list_update)
next
  case (close_set i)
  then show ?thesis using assms by (auto simp: close_live_def)
next
  case (close_bcast i)
  then show ?thesis by (simp add: close_live_def cnt_bcast)
next
  case (pop_spurious i)
  then show ?thesis using assms cnt_pos [of i "threads m" "\<lambda>p. p = Pop_wait"]
    by (auto simp: close_live_def)
qed (use assms in \<open>auto simp: close_live_def\<close>)

lemma step_owner_inv:
  assumes "step l m m'" and "l \<noteq> Fail" and "data_inv m" and "owner_inv m"
  shows "owner_inv m'"
  using assms
proof (cases rule: step.cases)
  case (push_undefined i d)
  then show ?thesis using data_inv_store [OF assms(3) push_undefined(3,4)] by simp
next
  case (pop_undefined i)
  then show ?thesis using data_inv_take [OF assms(3) pop_undefined(4)] by simp
qed (use assms in \<open>auto simp: owner_inv_def nth_list_update split: if_splits\<close>)

section \<open>Coming to rest\<close>

text \<open>
  A bound on the steps a thread still makes. A wait weighs nearly as much as a wake-up, so the
  thread that signals pays for the thread it wakes; a broadcast pays for all threads.
\<close>

fun weight :: "nat \<Rightarrow> pc \<Rightarrow> nat" where
  "weight n (Returned r x) = 0" | "weight n (Crashed s) = 0"
| "weight n (Push_enter d) = 12" | "weight n (Push_test d) = 11" | "weight n (Push_wait d) = 10"
| "weight n (Push_wake d) = 12" | "weight n Push_signal = 4"
| "weight n Pop_enter = 12" | "weight n Pop_test = 11" | "weight n Pop_wait = 10"
| "weight n Pop_wake = 12" | "weight n (Pop_signal d) = 4"
| "weight n Close_enter = 2 * n + 4" | "weight n Close_set = 2 * n + 3" | "weight n Close_bcast = 2 * n + 2"
| "weight n (Look_enter l) = 3" | "weight n (Look_read l) = 2" | "weight n (Leave r x) = 1"

definition work :: "monitor \<Rightarrow> nat" where
  "work m = sum_list (map (weight (length (threads m))) (threads m))"

lemma sum_list_weight_update:
  "i < length ts \<Longrightarrow>
   sum_list (map f (ts[i := x])) + f (ts ! i) = sum_list (map f ts) + (f x :: nat)"
proof (induction ts arbitrary: i)
  case (Cons a ts)
  show ?case
  proof (cases i)
    case (Suc k)
    then show ?thesis using Cons.IH [of k] Cons.prems by simp
  qed simp
qed simp

lemma sum_list_bcast:
  "sum_list (map (weight n) (map (\<lambda>p. if p = Pop_wait then Pop_wake else p) ts)) \<le>
   sum_list (map (weight n) ts) + 2 * length ts"
  by (induction ts) auto

lemma work_goto:
  assumes "i < length (threads m)" and "threads m' = (threads m)[i := p]"
    and "weight (length (threads m)) p < weight (length (threads m)) (threads m ! i)"
  shows "work m' < work m"
  using sum_list_weight_update [OF assms(1), of "weight (length (threads m))" p] assms
  by (simp add: work_def)

text \<open>Every step of an operation brings the threads closer to rest.\<close>

lemma run_work: 
  assumes "step Run m m'"
  shows "work m' < work m"
  using assms
proof (cases rule: step.cases)
  case (push_signal i j)
  let ?f = "weight (length (threads m))" and ?ts = "(threads m)[j := Pop_wake]"
  have "i \<noteq> j" using push_signal by auto
  then show ?thesis
    using push_signal sum_list_weight_update [of i ?ts ?f "Leave 0 No_data"]
      sum_list_weight_update [of j "threads m" ?f Pop_wake]
    by (simp add: work_def)
next
  case (pop_signal i d j d')
  let ?f = "weight (length (threads m))" and ?ts = "(threads m)[j := Push_wake d']"
  have "i \<noteq> j" using pop_signal by auto
  then show ?thesis
    using pop_signal sum_list_weight_update [of i ?ts ?f "Leave 0 (Data d)"]
      sum_list_weight_update [of j "threads m" ?f "Push_wake d'"]
    by (simp add: work_def)
next
  case (close_bcast i)
  let ?f = "weight (length (threads m))"
    and ?ts = "map (\<lambda>p. if p = Pop_wait then Pop_wake else p) (threads m)"
  have "?ts ! i = Close_bcast" using close_bcast by simp
  then show ?thesis
    using close_bcast sum_list_weight_update [of i ?ts ?f "Leave 0 No_data"]
      sum_list_bcast [of "length (threads m)" "threads m"]
    by (simp add: work_def)
qed (auto intro!: work_goto)

text \<open>A thread that takes no step by itself.\<close>

fun resting :: "pc \<Rightarrow> bool" where
  "resting (Returned r x) = True" | "resting (Crashed s) = True"
| "resting (Push_wait d) = True" | "resting Pop_wait = True" | "resting _ = False"

text \<open>The mutex is never the reason for a standstill: if a thread is not at rest, some step runs.\<close>

lemma holder_runs:
  assumes "i < length (threads m)" and "holds (threads m ! i)"
  shows "\<exists>m'. step Run m m'"
proof (cases "threads m ! i")
  case (Push_test d)
  then show ?thesis using assms step.push_wait [of i m d] step.push_store [of i m d] step.push_undefined [of i m d]
    by (cases "push_data (queue m) d") blast+
next
  case Push_signal
  show ?thesis
  proof (cases "Pop_wait \<in> set (threads m)")
    case True
    then obtain j where "at m j Pop_wait" by (auto simp: in_set_conv_nth)
    then show ?thesis using step.push_signal [of i m j] Push_signal assms(1) by blast
  next
    case False
    then show ?thesis using step.push_signal_none [of i m] Push_signal assms(1) by blast
  qed
next
  case Pop_test
  then show ?thesis using assms step.pop_wait [of i m] step.pop_end [of i m] step.pop_take [of i m]
      step.pop_undefined [of i m]
    by (cases "pop_data (queue m)") force+
next
  case (Pop_signal d)
  show ?thesis
  proof (cases "\<forall>p \<in> set (threads m). \<not> is_push_wait p")
    case True
    then show ?thesis using step.pop_signal_none [of i m d] Pop_signal assms(1) by blast
  next
    case False
    then obtain j where "j < length (threads m)" "is_push_wait (threads m ! j)"
      by (auto simp: in_set_conv_nth)
    then obtain d' where "at m j (Push_wait d')" by (cases "threads m ! j") auto
    then show ?thesis using step.pop_signal [of i m d j d'] Pop_signal assms(1) by blast
  qed
next
  case (Look_read l)
  then show ?thesis using assms step.look_closed [of i m] step.look_empty [of i m] by (cases l) blast+
qed (use assms step.close_set [of i m] step.close_bcast [of i m] step.leave [of i m] in auto)

lemma not_resting_runs:
  assumes "owner_inv m" and "i < length (threads m)" and "\<not> resting (threads m ! i)"
  shows "\<exists>m'. step Run m m'"
proof (cases "mutex m")
  case (Some k)
  then show ?thesis using assms(1) holder_runs [of k m] by (simp add: owner_inv_def)
next
  case None
  then show ?thesis
    using assms holder_runs [of i m] step.push_lock [of i m] step.push_relock [of i m]
      step.pop_lock [of i m] step.pop_relock [of i m] step.close_lock [of i m] step.look_lock [of i m]
    by (cases "threads m ! i") auto
qed

section \<open>Reachable states\<close>

abbreviation reliable :: "label set" where "reliable \<equiv> {Call, Run, Spurious}"

definition live_inv :: "monitor \<Rightarrow> bool" where
  "live_inv m \<longleftrightarrow> data_inv m \<and> owner_inv m \<and> pop_live m \<and> push_live m \<and> close_live m"

lemma start_inv:
  assumes "fresh q"
  shows "mutex_inv (start q n)" "data_inv (start q n)" "live_inv (start q n)"
proof -
  have zero: "\<not> P (Returned 0 No_data) \<Longrightarrow> cnt P (replicate n (Returned 0 No_data)) = 0" for P
    by (simp add: cnt_zero)
  show "mutex_inv (start q n)" by (simp add: mutex_inv_def start_def)
  show data: "data_inv (start q n)"
    using assms by (auto simp: data_inv_def start_def fresh_def elems_def)
  show "live_inv (start q n)"
    using data
    by (simp add: live_inv_def owner_inv_def pop_live_def push_live_def close_live_def) (simp add: start_def zero)
qed

lemma step_live_inv: "step l m m' \<Longrightarrow> l \<noteq> Fail \<Longrightarrow> live_inv m \<Longrightarrow> live_inv m'"
  unfolding live_inv_def
  using step_data_inv step_owner_inv step_pop_live step_push_live step_close_live by blast

interpretation queue_mutex: machine_invariant step ls started mutex_inv for ls
proof unfold_locales
  show "started m \<Longrightarrow> mutex_inv m" for m by (auto simp: started_def start_inv)
qed (rule step_mutex_inv, assumption+)

interpretation queue_data: machine_invariant step ls started data_inv for ls
proof unfold_locales
  show "started m \<Longrightarrow> data_inv m" for m by (auto simp: started_def start_inv)
qed (rule step_data_inv, assumption+)

interpretation queue_live: machine_invariant step reliable started live_inv
proof unfold_locales
  show "started m \<Longrightarrow> live_inv m" for m by (auto simp: started_def start_inv)
qed (erule step_live_inv, auto)

lemma fresh_started: "fresh q \<Longrightarrow> started (start q n)"
  by (auto simp: started_def)

lemmas reachable_mutex_inv = queue_mutex.always [OF fresh_started]
lemmas reachable_data_inv = queue_data.always [OF fresh_started]
lemmas reachable_live_inv = queue_live.always [OF fresh_started]

lemma resting_not: "resting p \<Longrightarrow> \<not> popper p \<and> \<not> pusher p \<and> p \<noteq> Close_bcast"
  by (cases p) auto

lemma live_inv_rest:
  assumes "live_inv m" and rest: "\<forall>p \<in> set (threads m). resting p"
  shows "Pop_wait \<in> set (threads m) \<Longrightarrow> elems (queue m) = [] \<and> \<not> closed (queue m)"
    and "Push_wait d \<in> set (threads m) \<Longrightarrow> q_count (queue m) = capacity (queue m)"
proof -
  have none: "cnt popper (threads m) = 0" "cnt pusher (threads m) = 0"
    "cnt (\<lambda>p. p = Close_bcast) (threads m) = 0"
    using rest resting_not by (auto simp: cnt_zero)
  show "elems (queue m) = [] \<and> \<not> closed (queue m)" if "Pop_wait \<in> set (threads m)"
  proof -
    have "pop_waiters m \<noteq> 0" using that by (auto simp: cnt_zero)
    then have "uint (q_count (queue m)) \<le> 0" and "\<not> closed (queue m)"
      using assms(1) none by (auto simp: live_inv_def pop_live_def close_live_def)
    then show ?thesis by (simp add: elems_def uint_0_iff)
  qed
  show "q_count (queue m) = capacity (queue m)" if "Push_wait d \<in> set (threads m)"
  proof -
    have "push_waiters m \<noteq> 0" using that by (force simp: cnt_zero)
    then have "uint (capacity (queue m)) \<le> uint (q_count (queue m))"
      using assms(1) none by (auto simp: live_inv_def push_live_def)
    moreover have "q_count (queue m) \<le> capacity (queue m)"
      using assms(1) by (simp add: live_inv_def data_inv_def queue_ok_def)
    ultimately show ?thesis by (simp add: word_le_def word_uint_eq_iff)
  qed
qed

lemmas step_front = reachable_front [of step]
lemmas step_back = reachable_step [of step]

lemma comes_to_rest:
  "live_inv m \<Longrightarrow> \<exists>m'. reachable step {Run} m m' \<and> live_inv m' \<and> (\<forall>p \<in> set (threads m'). resting p)"
proof (induction "work m" arbitrary: m rule: less_induct)
  case less
  show ?case
  proof (cases "\<forall>p \<in> set (threads m). resting p")
    case True
    then show ?thesis using less.prems reachable_refl [of step "{Run}" m] by blast
  next
    case False
    then obtain i where "i < length (threads m)" "\<not> resting (threads m ! i)"
      by (auto simp: in_set_conv_nth)
    then obtain m' where m': "step Run m m'"
      using not_resting_runs less.prems by (auto simp: live_inv_def)
    have "live_inv m'" by (rule step_live_inv [OF m' _ less.prems]) simp
    from less.hyps [OF run_work [OF m'] this] obtain m'' where
      "reachable step {Run} m' m''" "live_inv m''" "\<forall>p \<in> set (threads m''). resting p" by blast
    moreover have "reachable step {Run} m m'"
      by (rule step_front [OF m' _ reachable_refl]) simp
    ultimately show ?thesis using reachable_trans [of step] by blast
  qed
qed

section \<open>Properties\<close>

text \<open>C18. Mutual exclusion: in every interleaving of any operations of any number of threads, failed
  calls and spurious wake-ups included, at most one thread is between \<open>mtx_lock\<close> and \<open>mtx_unlock\<close>.\<close>

theorem queue_mutual_exclusion:
  assumes "fresh q" and "reachable step ls (start q n) m" and "at m i p" "holds p" and "at m j p'" "holds p'"
  shows "i = j"
  using mutex_inv_unique reachable_mutex_inv assms by blast

text \<open>C11. In every interleaving the queue is a bounded stack: the pushes and pops that have taken
  effect, in their order, are a history of a stack and the buffer holds the result; every element
  popped was pushed, the rest is still there, none is lost or delivered twice; the queue never
  holds more than its capacity and no \<open>memcpy\<close> leaves the buffer.\<close>

theorem queue_is_bounded_stack:
  assumes "fresh q" and "reachable step ls (start q n) m"
  shows "replay (history m) [] = Some (elems (queue m)) \<and>
    mset (pushed (history m)) = mset (popped (history m)) + mset (elems (queue m)) \<and>
    length (elems (queue m)) \<le> unat (capacity (queue m)) \<and> Crashed Undefined \<notin> set (threads m)"
  using reachable_data_inv [OF assms] replay_conserves [of "history m" "[]"]
  by (auto simp: data_inv_def queue_ok_def word_le_nat_alt thread_ok_def)

text \<open>C16. No wake-up is lost: as long as no call fails, when all threads have come to rest a thread
  waits in \<open>mr_queue_pop\<close> only if the queue is empty and open, and in \<open>mr_queue_push\<close> only if it is
  full. In particular after \<open>mr_queue_close\<close> no consumer is left waiting.\<close>

theorem queue_no_lost_wakeup:
  assumes "fresh q" and "reachable step reliable (start q n) m" and "\<forall>p \<in> set (threads m). resting p"
  shows "(Pop_wait \<in> set (threads m) \<longrightarrow> elems (queue m) = [] \<and> \<not> closed (queue m)) \<and>
    (\<forall>d. Push_wait d \<in> set (threads m) \<longrightarrow> length (elems (queue m)) = unat (capacity (queue m)))"
  using live_inv_rest [OF reachable_live_inv [OF assms(1,2)] assms(3)] by auto

text \<open>C17. No deadlock and no livelock: as long as no call fails, from every reachable state the
  operations that have started can run on until every thread has returned or waits for a reason,
  and no run of them without new calls is longer than \<open>work\<close>.\<close>

theorem queue_comes_to_rest:
  assumes "fresh q" and "reachable step reliable (start q n) m"
  shows "(\<exists>m'. reachable step {Run} m m' \<and> (\<forall>p \<in> set (threads m'). resting p)) \<and>
    (\<forall>k m'. (step Run ^^ k) m m' \<longrightarrow> k + work m' \<le> work m)"
proof -
  have "k + work m' \<le> work m" if "(step Run ^^ k) m m'" for k m'
    using that
  proof (induction k arbitrary: m')
    case (Suc k)
    then obtain m'' where "(step Run ^^ k) m m''" "step Run m'' m'" by auto
    with Suc.IH [of m''] run_work [of m'' m'] show ?case by simp
  qed simp
  then show ?thesis
    using comes_to_rest [OF reachable_live_inv [OF assms(1,2)]] by blast
qed

definition example_queue :: mr_queue_t where
  "example_queue = \<lparr>capacity = 2, element_size = 1, q_count = 0, closed = False, buffer = [0, 0]\<rparr>"

lemma example_queue_fresh: "fresh example_queue"
  by (simp add: fresh_def queue_ok_def example_queue_def)

text \<open>A run of one thread: it pushes 7, with a failing \<open>cnd_signal\<close> if \<open>l\<close> is \<open>Fail\<close>.\<close>

definition example_push :: "pc list \<Rightarrow> pc \<Rightarrow> nat option \<Rightarrow> bool \<Rightarrow> monitor" where
  "example_push others p mx stored =
     \<lparr>queue = (if stored then \<lparr>capacity = 2, element_size = 1, q_count = 1, closed = False, buffer = [7, 0]\<rparr>
               else example_queue),
      mutex = mx, threads = p # others, history = (if stored then [Pushed [7]] else [])\<rparr>"

lemma example_push_steps:
  "step Call (example_push ps (Returned 0 No_data) None False) (example_push ps (Push_enter [7]) None False)"
  "step Run (example_push ps (Push_enter [7]) None False) (example_push ps (Push_test [7]) (Some 0) False)"
  "step Run (example_push ps (Push_test [7]) (Some 0) False) (example_push ps Push_signal (Some 0) True)"
  "step Fail (example_push ps Push_signal (Some 0) True) (example_push ps (Leave (-1) No_data) (Some 0) True)"
  "step Run (example_push ps (Leave (-1) No_data) (Some 0) True) (example_push ps (Returned (-1) No_data) None True)"
  using step.call_push [of 0 "example_push ps (Returned 0 No_data) None False" 0 No_data "[7]"]
    step.push_lock [of 0 "example_push ps (Push_enter [7]) None False" "[7]"]
    step.push_store [of 0 "example_push ps (Push_test [7]) (Some 0) False" "[7]"]
    step.push_signal_fail [of 0 "example_push ps Push_signal (Some 0) True"]
    step.leave [of 0 "example_push ps (Leave (-1) No_data) (Some 0) True" "-1" No_data]
  by (simp_all add: example_push_def example_queue_def push_data_def store_def Let_def)

lemma example_push_reachable:
  assumes "reachable step UNIV m (example_push ps (Returned 0 No_data) None False)"
  shows "reachable step UNIV m (example_push ps (Returned (-1) No_data) None True)"
  by (rule step_back [OF step_back [OF step_back [OF step_back [OF step_back
        [OF assms _ example_push_steps(1)] _ example_push_steps(2)] _ example_push_steps(3)]
        _ example_push_steps(4)] _ example_push_steps(5)]) simp_all

text \<open>A second thread that has found the queue empty.\<close>

lemma example_pop_reachable:
  "reachable step UNIV (start example_queue 2) (example_push [Pop_wait] (Returned 0 No_data) None False)"
proof -
  let ?r = "Returned 0 No_data"
  have s: "start example_queue 2 = example_push [?r] ?r None False"
    by (simp add: start_def example_push_def numeral_2_eq_2)
  have "step Call (example_push [?r] ?r None False) (example_push [Pop_enter] ?r None False)"
    "step Run (example_push [Pop_enter] ?r None False) (example_push [Pop_test] ?r (Some 1) False)"
    "step Run (example_push [Pop_test] ?r (Some 1) False) (example_push [Pop_wait] ?r None False)"
    using step.call_pop [of 1 "example_push [?r] ?r None False" 0 No_data]
      step.pop_lock [of 1 "example_push [Pop_enter] ?r None False"]
      step.pop_wait [of 1 "example_push [Pop_test] ?r (Some 1) False"]
    by (simp_all add: example_push_def example_queue_def)
  from this(1,2) step_front [OF this(3) _ reachable_refl, of UNIV] show ?thesis
    unfolding s by (simp add: step_front)
qed


theorem queue_mutual_exclusion_witness:
  "reachable step UNIV (start example_queue 1) (example_push [] (Push_test [7]) (Some 0) False) \<and>
   {j. at (example_push [] (Push_test [7]) (Some 0) False) j (Push_test [7])} = {0}"
proof -
  have s: "start example_queue 1 = example_push [] (Returned 0 No_data) None False"
    by (simp add: start_def example_push_def)
  have r: "reachable step UNIV (start example_queue 1) (example_push [] (Push_test [7]) (Some 0) False)"
    unfolding s
    by (rule step_front [OF example_push_steps(1)], simp,
        rule step_front [OF example_push_steps(2)], simp, rule reachable_refl)
  show ?thesis
    using r queue_mutual_exclusion [OF example_queue_fresh r, of 0 "Push_test [7]"]
    by (auto simp: example_push_def)
qed

theorem queue_is_bounded_stack_witness:
  "replay [Pushed [7]] [] = Some (elems (queue (example_push [Pop_wait] (Returned (-1) No_data) None True)))"
  using queue_is_bounded_stack
      [OF example_queue_fresh example_push_reachable [OF example_pop_reachable], THEN conjunct1]
  unfolding example_push_def by (simp only: monitor.select_convs if_True)

lemma example_pop_reliable:
  "reachable step reliable (start example_queue 1)
     (start example_queue 1\<lparr>threads := [Pop_wait]\<rparr>)"
proof -
  let ?m = "\<lambda>p x. \<lparr>queue = example_queue, mutex = x, threads = [p], history = []\<rparr>"
  have "step Call (?m (Returned 0 No_data) None) (?m Pop_enter None)"
    "step Run (?m Pop_enter None) (?m Pop_test (Some 0))" "step Run (?m Pop_test (Some 0)) (?m Pop_wait None)"
    using step.call_pop [of 0 "?m (Returned 0 No_data) None" 0 No_data]
      step.pop_lock [of 0 "?m Pop_enter None"] step.pop_wait [of 0 "?m Pop_test (Some 0)"]
    by (simp_all add: example_queue_def)
  from this(1,2) step_front [OF this(3) _ reachable_refl, of reliable]
  have "reachable step reliable (?m (Returned 0 No_data) None) (?m Pop_wait None)"
    by (auto intro: step_front)
  then show ?thesis by (simp add: start_def)
qed

theorem queue_no_lost_wakeup_witness:
  "Pop_wait \<in> set (threads (start example_queue 1\<lparr>threads := [Pop_wait]\<rparr>)) \<and>
   elems example_queue = [] \<and> \<not> closed example_queue"
  using queue_no_lost_wakeup [OF example_queue_fresh example_pop_reliable]
  by (simp add: start_def)

theorem queue_comes_to_rest_witness:
  "\<exists>m'. reachable step {Run} (start example_queue 1\<lparr>threads := [Pop_wait]\<rparr>) m' \<and>
     (\<forall>p \<in> set (threads m'). resting p)"
  using queue_comes_to_rest [OF example_queue_fresh example_pop_reliable] by blast

end
