(* ===== verification/Mr_Queue_Spec.thy ===== *)
theory Mr_Queue_Spec
  imports Mr_Queue_Monitor
begin

text \<open>
  The specification of the queue as its clients see it: a bounded stack on which every operation
  takes effect at once, at some moment between its call and its return. The operations of
  \<open>Mr_Queue_Monitor\<close>, with their mutex, their condition variables and their byte buffer, refine it.
\<close>

section \<open>The atomic stack\<close>

datatype operation = Push "byte list" | Pop | Close_queue | Look look

text \<open>
  Where a client is: in no operation, with the result of the last one; in an operation that has not
  taken effect; in one that has, with what it will return; or stopped at the assertion of a push on
  a closed queue.
\<close>

datatype client = Idle int answer_val | Called operation | Effected int answer_val | Stopped stop

record stack =
  items :: "byte list list"      \<comment> \<open>the last one is the top\<close>
  limit :: size_t
  width :: size_t
  shut :: bool
  clients :: "client list"

abbreviation client :: "stack \<Rightarrow> nat \<Rightarrow> client \<Rightarrow> bool" where
  "client s i c \<equiv> i < length (clients s) \<and> clients s ! i = c"

abbreviation client_to :: "nat \<Rightarrow> client \<Rightarrow> stack \<Rightarrow> stack" where
  "client_to i c s \<equiv> s\<lparr>clients := (clients s)[i := c]\<rparr>"

text \<open>
  \<open>Call\<close>, \<open>Run\<close> and \<open>Fail\<close> as for the steps of the monitor. A failure makes the result of the
  operation -1, either before its effect or, for the signal and the unlocking at its end, after it.
\<close>

inductive stack_step :: "label \<Rightarrow> stack \<Rightarrow> stack \<Rightarrow> bool" where
  invoke: "client s i (Idle r x) \<Longrightarrow> (\<forall>d. op = Push d \<longrightarrow> length d = unat (width s)) \<Longrightarrow>
    stack_step Call s (client_to i (Called op) s)"
| invoke_closed: "client s i (Idle r x) \<Longrightarrow> shut s \<Longrightarrow> stack_step Call s (client_to i (Stopped Assert_Failed) s)"
| give: "client s i (Effected r x) \<Longrightarrow> stack_step Run s (client_to i (Idle r x) s)"
| push_effect: "client s i (Called (Push d)) \<Longrightarrow> length (items s) < unat (limit s) \<Longrightarrow>
    stack_step Run s ((client_to i (Effected 0 No_data) s)\<lparr>items := items s @ [d]\<rparr>)"
| pop_effect: "client s i (Called Pop) \<Longrightarrow> items s = ds @ [d] \<Longrightarrow>
    stack_step Run s ((client_to i (Effected 0 (Data d)) s)\<lparr>items := ds\<rparr>)"
| pop_over: "client s i (Called Pop) \<Longrightarrow> items s = [] \<Longrightarrow> shut s \<Longrightarrow>
    stack_step Run s (client_to i (Effected 1 No_data) s)"
| close_effect: "client s i (Called Close_queue) \<Longrightarrow>
    stack_step Run s ((client_to i (Effected 0 No_data) s)\<lparr>shut := True\<rparr>)"
| look_shut: "client s i (Called (Look Look_closed)) \<Longrightarrow>
    stack_step Run s (client_to i (Effected 0 (Flag (shut s))) s)"
| look_items: "client s i (Called (Look Look_empty)) \<Longrightarrow>
    stack_step Run s (client_to i (Effected 0 (Flag (items s = []))) s)"
| fail_before: "client s i (Called op) \<Longrightarrow> c \<in> {Effected (-1) No_data, Idle (-1) No_data} \<Longrightarrow>
    stack_step Fail s (client_to i c s)"
| fail_after: "client s i (Effected r x) \<Longrightarrow> c \<in> {Effected (-1) x, Idle (if r = 0 then -1 else r) x} \<Longrightarrow>
    stack_step Fail s (client_to i c s)"

definition stack_start :: "mr_queue_t \<Rightarrow> nat \<Rightarrow> stack" where
  "stack_start q n = \<lparr>items = [], limit = capacity q, width = element_size q, shut = False,
     clients = replicate n (Idle 0 No_data)\<rparr>"

section \<open>The abstraction\<close>

fun client_of :: "pc \<Rightarrow> client" where
  "client_of (Returned r x) = Idle r x"
| "client_of (Crashed s) = Stopped s"
| "client_of (Push_enter d) = Called (Push d)" | "client_of (Push_test d) = Called (Push d)"
| "client_of (Push_wait d) = Called (Push d)" | "client_of (Push_wake d) = Called (Push d)"
| "client_of Push_signal = Effected 0 No_data"
| "client_of Pop_enter = Called Pop" | "client_of Pop_test = Called Pop"
| "client_of Pop_wait = Called Pop" | "client_of Pop_wake = Called Pop"
| "client_of (Pop_signal d) = Effected 0 (Data d)"
| "client_of Close_enter = Called Close_queue" | "client_of Close_set = Called Close_queue"
| "client_of Close_bcast = Effected 0 No_data"
| "client_of (Look_enter l) = Called (Look l)" | "client_of (Look_read l) = Called (Look l)"
| "client_of (Leave r x) = Effected r x"

definition stack_of :: "monitor \<Rightarrow> stack" where
  "stack_of m = \<lparr>items = elems (queue m), limit = capacity (queue m), width = element_size (queue m),
     shut = closed (queue m), clients = map client_of (threads m)\<rparr>"

lemma stack_of_start: "fresh q \<Longrightarrow> stack_of (start q n) = stack_start q n"
  by (simp add: fresh_def stack_of_def start_def stack_start_def elems_def)

lemma stack_of_sel [simp]:
  "items (stack_of m) = elems (queue m)" "limit (stack_of m) = capacity (queue m)"
  "width (stack_of m) = element_size (queue m)" "shut (stack_of m) = closed (queue m)"
  "clients (stack_of m) = map client_of (threads m)"
  by (simp_all add: stack_of_def)

text \<open>A step of one thread, seen by the clients: nothing, or the step of its client.\<close>

lemma stack_of_goto:
  "stack_of (goto i p m) = client_to i (client_of p) (stack_of m)"
  "stack_of (lock_goto i p m) = client_to i (client_of p) (stack_of m)"
  "stack_of (unlock_goto i p m) = client_to i (client_of p) (stack_of m)"
  by (simp_all add: stack_of_def map_update)

lemma client_same: "client s i c \<Longrightarrow> client_to i c s = s"
  by (cases s) auto

lemma client_goto: "at m i p \<Longrightarrow> client_of p' = client_of p \<Longrightarrow> stack_of (goto i p' m) = stack_of m"
  unfolding stack_of_goto by (rule client_same) simp

lemma elems_empty: "elems q = [] \<longleftrightarrow> q_count q = 0"
  using length_elems [of q] by (auto simp: elems_def unat_eq_0)

text \<open>The two effects on the data.\<close>

lemma stack_of_store:
  assumes inv: "data_inv m" and p: "at m i (Push_test d)" and full: "q_count (queue m) \<noteq> capacity (queue m)"
    and q': "push_data (queue m) d = Some q'"
  shows "stack_step Run (stack_of m)
    (stack_of (m\<lparr>queue := q', threads := (threads m)[i := Push_signal], history := h\<rparr>))"
proof -
  have q: "queue_ok (queue m)" and room: "q_count (queue m) < capacity (queue m)"
    using inv full by (auto simp: data_inv_def queue_ok_def)
  have d: "length d = unat (element_size (queue m))" using data_inv_at [OF inv p] by (simp add: thread_ok_def)
  have "elems q' = elems (queue m) @ [d] \<and> capacity q' = capacity (queue m) \<and> element_size q' = element_size (queue m) \<and>
      closed q' = closed (queue m)" using push_data_ok [OF q room d] q' by auto
  then have "stack_of (m\<lparr>queue := q', threads := (threads m)[i := Push_signal], history := h\<rparr>) =
      (client_to i (Effected 0 No_data) (stack_of m))\<lparr>items := items (stack_of m) @ [d]\<rparr>"
    by (simp add: stack_of_def map_update)
  moreover have "client (stack_of m) i (Called (Push d))" using p by simp
  moreover have "length (items (stack_of m)) < unat (limit (stack_of m))" using room by (simp add: word_less_nat_alt)
  ultimately show ?thesis by (metis push_effect)
qed

lemma stack_of_take:
  assumes inv: "data_inv m" and p: "at m i Pop_test" and some: "q_count (queue m) \<noteq> 0"
    and q': "pop_data (queue m) = Some (d, q')"
  shows "stack_step Run (stack_of m)
    (stack_of (m\<lparr>queue := q', threads := (threads m)[i := Pop_signal d], history := h\<rparr>))"
proof -
  have q: "queue_ok (queue m)" and pos: "0 < q_count (queue m)"
    using inv some by (auto simp: data_inv_def word_neq_0_conv)
  have "elems (queue m) = elems q' @ [d] \<and> capacity q' = capacity (queue m) \<and> element_size q' = element_size (queue m) \<and>
      closed q' = closed (queue m)" using pop_data_ok [OF q pos] q' by auto
  then have "stack_of (m\<lparr>queue := q', threads := (threads m)[i := Pop_signal d], history := h\<rparr>) =
      (client_to i (Effected 0 (Data d)) (stack_of m))\<lparr>items := elems q'\<rparr>" and "items (stack_of m) = elems q' @ [d]"
    by (simp_all add: stack_of_def map_update)
  moreover have "client (stack_of m) i (Called Pop)" using p by simp
  ultimately show ?thesis by (metis pop_effect)
qed

lemma stack_of_close:
  assumes "at m i Close_set"
  shows "stack_step Run (stack_of m)
    (stack_of (m\<lparr>queue := (queue m)\<lparr>closed := True\<rparr>, threads := (threads m)[i := Close_bcast]\<rparr>))"
proof -
  have "stack_of (m\<lparr>queue := (queue m)\<lparr>closed := True\<rparr>, threads := (threads m)[i := Close_bcast]\<rparr>) =
      (client_to i (Effected 0 No_data) (stack_of m))\<lparr>shut := True\<rparr>"
    by (simp add: stack_of_def map_update queue_ok_closed)
  then show ?thesis using assms close_effect [where s = "stack_of m" and i = i] by simp
qed

lemma client_wake: "map client_of (map (\<lambda>p. if p = Pop_wait then Pop_wake else p) ts) = map client_of ts"
  by simp

lemma stack_of_threads: "map client_of ts = map client_of ts' \<Longrightarrow> stack_of (m\<lparr>threads := ts\<rparr>) = stack_of (m\<lparr>threads := ts'\<rparr>)"
  by (simp add: stack_of_def)

lemma stack_of_bcast:
  "stack_of (m\<lparr>threads := (map (\<lambda>p. if p = Pop_wait then Pop_wake else p) (threads m))[i := p']\<rparr>) = stack_of (goto i p' m)"
  by (rule stack_of_threads) (simp only: map_update client_wake)

text \<open>Waking a waiter, and a step of another thread.\<close>

lemma stack_of_wake:
  "at m j p \<Longrightarrow> client_of p'' = client_of p \<Longrightarrow> stack_of (goto i p' (goto j p'' m)) = stack_of (goto i p' m)"
  unfolding stack_of_goto(1) [where i = i] by (simp only: client_goto)

lemmas stack_calls = invoke invoke_closed give pop_over look_shut look_items fail_before fail_after

lemma step_simulates:
  "step l m m' \<Longrightarrow> data_inv m \<Longrightarrow> stack_of m' = stack_of m \<or> stack_step l (stack_of m) (stack_of m')"
proof (induction rule: step.induct)
  case (push_store m i d q')
  then show ?case using stack_of_store by blast
next
  case (pop_take m i d q')
  then show ?case using stack_of_take by blast
next
  case (close_set m i)
  then show ?case using stack_of_close by blast
next
  case (push_undefined m i d)
  then show ?case using data_inv_store by fastforce
next
  case (pop_undefined m i)
  then show ?case using data_inv_take by fastforce
next
  case (lock_fail m i p)
  then have "client (stack_of m) i (client_of p)" "\<exists>op. client_of p = Called op" by (cases p; simp)+
  then show ?case unfolding stack_of_goto using fail_before [where s = "stack_of m" and i = i and c = "Idle (-1) No_data"] by auto
next
  case (push_signal m i j)
  have "stack_of (goto i (Leave 0 No_data) (goto j Pop_wake m)) = stack_of (goto i (Leave 0 No_data) m)"
    by (rule stack_of_wake [OF push_signal(2)]) simp
  also have "\<dots> = stack_of m" by (rule client_goto [OF push_signal(1)]) simp
  finally show ?case ..
next
  case (pop_signal m i d j d')
  have "stack_of (goto i (Leave 0 (Data d)) (goto j (Push_wake d') m)) = stack_of (goto i (Leave 0 (Data d)) m)"
    by (rule stack_of_wake [OF pop_signal(2)]) simp
  also have "\<dots> = stack_of m" by (rule client_goto [OF pop_signal(1)]) simp
  finally show ?case ..
next
  case (look_closed m i)
  then show ?case unfolding stack_of_goto using look_shut [where s = "stack_of m" and i = i] by simp
next
  case (look_empty m i)
  then show ?case unfolding stack_of_goto using look_items [where s = "stack_of m" and i = i] by (simp add: elems_empty)
qed (unfold stack_of_bcast stack_of_goto client_of.simps,
  (rule disjI1, rule client_same; simp; fail | rule disjI2, rule stack_calls; simp add: elems_empty; fail)+)

section \<open>Refinement\<close>

interpretation queue_atomic: machine_refinement step ls started data_inv stack_step stack_of for ls
  by unfold_locales (rule step_simulates)

text \<open>C12. The queue refines an atomic bounded stack. Map every thread to what its caller sees of it: an
  operation that was called, one that has taken effect and will return this result, or none. Then
  every step of the threads is a step of the stack machine, on which each operation takes effect
  at once between its call and its return, or changes nothing there; so whatever the threads do and
  whichever calls fail, a state reached by the code is one the atomic stack reaches with the same
  kinds of steps.\<close>

theorem queue_refines_stack:
  assumes "fresh q" and "reachable step ls (start q n) m"
  shows "reachable stack_step ls (stack_start q n) (stack_of m) \<and>
    (step l m m' \<longrightarrow> stack_of m' = stack_of m \<or> stack_step l (stack_of m) (stack_of m'))"
  using queue_atomic.refines [OF fresh_started [OF assms(1)] assms(2)] step_simulates
    reachable_data_inv [OF assms] unfolding stack_of_start [OF assms(1)] by blast

theorem queue_refines_stack_witness:
  "\<exists>s. reachable stack_step UNIV (stack_start example_queue 2) s \<and> items s = [[7]] \<and>
     clients s = [Idle (-1) No_data, Called Pop]"
  using queue_refines_stack [OF example_queue_fresh example_push_reachable [OF example_pop_reachable]]
  by (intro exI conjI, blast) (simp_all add: example_push_def elems_def)

end
