(* ===== verification/Mr_Pool.thy ===== *)
theory Mr_Pool
  imports Mr_Queue_Monitor
begin

text \<open>
  The worker pool of \<open>src/mapper.c\<close> and \<open>src/reducer.c\<close>: a controller feeds the items of its work
  to a queue, closes it and joins the workers; each worker pops items, runs the user's function on
  them and writes what it emits to the standard output under a mutex. The queue is the one of
  \<open>Mr_Queue_Monitor\<close>, so every interleaving of the threads is covered.

  The user's function is arbitrary. What it does with one item is a tree: it emits a message and
  goes on with the result of the emit, or it returns.
\<close>

section \<open>State\<close>

datatype 'm script = Return int | Emit 'm "int \<Rightarrow> 'm script"

text \<open>
  Where a thread is outside the queue operations. Thread 0 is the controller: \<open>Feed\<close> with the
  items left, \<open>Feeding\<close> while \<open>mr_queue_push\<close> runs, \<open>Close\<close> and \<open>Closing\<close> before and in
  \<open>mr_queue_close\<close> (with the exit code to come, and whether errors are checked), \<open>Join\<close> with the
  next worker to wait for. The others are workers: \<open>Popping\<close> while \<open>mr_queue_pop\<close> runs, \<open>User\<close> in
  the user's function on an item, \<open>Lock\<close>, \<open>Write\<close> (bytes left) and \<open>Unlock\<close> (result) in the emit
  function.
\<close>

datatype 'm role =
    Feed "byte list list" | Feeding "byte list list"
  | Close bool int | Closing bool int | Join bool int nat | Exit int
  | Start | Loop | Popping | Ending | Done int
  | User "byte list" "'m script"
  | Lock "byte list" 'm "int \<Rightarrow> 'm script"
  | Write "byte list" "byte list" 'm "int \<Rightarrow> 'm script"
  | Unlock "byte list" int 'm "int \<Rightarrow> 'm script"

record 'm pool =
  mon :: monitor
  roles :: "'m role list"
  out_mutex :: "nat option"
  out :: "byte list"         \<comment> \<open>written to the standard output\<close>
  emitted :: size_t          \<comment> \<open>\<open>pairs_count\<close>, \<open>results_count\<close>\<close>
  sent :: "'m list"          \<comment> \<open>ghost: the messages written whole\<close>
  finished :: "byte list list"  \<comment> \<open>ghost: the items the user's function has returned from\<close>

text \<open>
  What differs between the two processes: the user's function, the bytes of a message, what a
  worker does after the user's function returned, what the controller does after a failed push
  (with the items left), and the exit code after a regular end.
\<close>

record 'm program =
  job :: "byte list \<Rightarrow> 'm script"
  bytes :: "'m \<Rightarrow> byte list"
  after_user :: "int \<Rightarrow> 'm role"
  after_push_error :: "byte list list \<Rightarrow> 'm role"
  exit_code :: int

section \<open>Steps\<close>

abbreviation acts :: "'m pool \<Rightarrow> nat \<Rightarrow> 'm role \<Rightarrow> bool" where
  "acts p i r \<equiv> i < length (roles p) \<and> roles p ! i = r \<and> (\<exists>c x. at (mon p) i (Returned c x))"

abbreviation become :: "nat \<Rightarrow> 'm role \<Rightarrow> 'm pool \<Rightarrow> 'm pool" where
  "become i r p \<equiv> p\<lparr>roles := (roles p)[i := r]\<rparr>"

abbreviation enter :: "nat \<Rightarrow> pc \<Rightarrow> 'm role \<Rightarrow> 'm pool \<Rightarrow> 'm pool" where
  "enter i pc r p \<equiv> p\<lparr>mon := goto i pc (mon p), roles := (roles p)[i := r]\<rparr>"

inductive pool_step :: "'m program \<Rightarrow> label \<Rightarrow> 'm pool \<Rightarrow> 'm pool \<Rightarrow> bool" for P where
  in_queue: "step l (mon p) m' \<Longrightarrow> l \<noteq> Call \<Longrightarrow> pool_step P l p (p\<lparr>mon := m'\<rparr>)"

| feed: "acts p i (Feed (d # ds)) \<Longrightarrow> pool_step P Run p (enter i (Push_enter d) (Feeding ds) p)"
| fed: "acts p i (Feeding ds) \<Longrightarrow> at (mon p) i (Returned 0 x) \<Longrightarrow> pool_step P Run p (become i (Feed ds) p)"
| fed_error: "acts p i (Feeding ds) \<Longrightarrow> at (mon p) i (Returned (-1) x) \<Longrightarrow>
    pool_step P Run p (become i (after_push_error P ds) p)"
| feed_end: "acts p i (Feed []) \<Longrightarrow> pool_step P Run p (become i (Close True (exit_code P)) p)"
| close: "acts p i (Close chk c) \<Longrightarrow> pool_step P Run p (enter i Close_enter (Closing chk c) p)"
| close_done: "acts p i (Closing chk c) \<Longrightarrow> at (mon p) i (Returned r x) \<Longrightarrow>
    pool_step P Run p (become i (if chk \<and> r = -1 then Exit EXIT_FAILURE else Join chk c 1) p)"
| join: "acts p i (Join chk c k) \<Longrightarrow> k < length (roles p) \<Longrightarrow> roles p ! k = Done z \<Longrightarrow>
    pool_step P Run p (become i (Join chk c (Suc k)) p)"
| join_fail: "acts p i (Join chk c k) \<Longrightarrow> k < length (roles p) \<Longrightarrow>
    pool_step P Fail p (become i (if chk then Exit EXIT_FAILURE else Join chk c (Suc k)) p)"
| joined: "acts p i (Join chk c k) \<Longrightarrow> length (roles p) \<le> k \<Longrightarrow> pool_step P Run p (become i (Exit c) p)"

| start: "acts p i Start \<Longrightarrow> pool_step P Run p (become i Loop p)"
| start_fail: "acts p i Start \<Longrightarrow> pool_step P Fail p (become i (Done EXIT_FAILURE) p)"
| pop: "acts p i Loop \<Longrightarrow> pool_step P Run p (enter i Pop_enter Popping p)"
| popped: "acts p i Popping \<Longrightarrow> at (mon p) i (Returned 0 (Data d)) \<Longrightarrow>
    pool_step P Run p (become i (User d (job P d)) p)"
| pop_end: "acts p i Popping \<Longrightarrow> at (mon p) i (Returned r x) \<Longrightarrow> r \<noteq> 0 \<Longrightarrow>
    pool_step P Run p (become i Ending p)"
| ending: "acts p i Ending \<Longrightarrow> pool_step P Run p (become i (Done EXIT_SUCCESS) p)"
| ending_fail: "acts p i Ending \<Longrightarrow> pool_step P Fail p (become i (Done EXIT_FAILURE) p)"
| user_end: "acts p i (User d (Return r)) \<Longrightarrow>
    pool_step P Run p ((become i (after_user P r) p)\<lparr>finished := finished p @ [d]\<rparr>)"

| emit: "acts p i (User d (Emit m k)) \<Longrightarrow> pool_step P Run p (become i (Lock d m k) p)"
| lock_out: "acts p i (Lock d m k) \<Longrightarrow> out_mutex p = None \<Longrightarrow>
    pool_step P Run p ((become i (Write d (bytes P m) m k) p)\<lparr>out_mutex := Some i\<rparr>)"
| lock_fail: "acts p i (Lock d m k) \<Longrightarrow> pool_step P Fail p (become i (User d (k (-1))) p)"
| write_some: "acts p i (Write d bs m k) \<Longrightarrow> 0 < n \<Longrightarrow> n \<le> length bs \<Longrightarrow>
    pool_step P Run p ((become i (Write d (drop n bs) m k) p)\<lparr>out := out p @ take n bs\<rparr>)"
| write_fail: "acts p i (Write d bs m k) \<Longrightarrow> bs \<noteq> [] \<Longrightarrow> pool_step P Fail p (become i (Unlock d (-1) m k) p)"
| written: "acts p i (Write d [] m k) \<Longrightarrow>
    pool_step P Run p ((become i (Unlock d 0 m k) p)\<lparr>emitted := emitted p + 1, sent := sent p @ [m]\<rparr>)"
| unlock_out: "acts p i (Unlock d r m k) \<Longrightarrow>
    pool_step P Run p ((become i (User d (k r)) p)\<lparr>out_mutex := None\<rparr>)"
| unlock_fail: "acts p i (Unlock d r m k) \<Longrightarrow> pool_step P Fail p (become i (User d (k (-1))) p)"

text \<open>The start: a fresh queue, \<open>n\<close> workers, all the items still to be fed.\<close>

definition pool_start :: "mr_queue_t \<Rightarrow> nat \<Rightarrow> byte list list \<Rightarrow> 'm pool" where
  "pool_start q n items =
     \<lparr>mon = start q (Suc n), roles = Feed items # replicate n Start, out_mutex = None, out = [],
      emitted = 0, sent = [], finished = []\<rparr>"

section \<open>The threads of the queue\<close>

text \<open>
  How a step without a failed call moves a program counter. \<open>over\<close>: nothing is left and nothing
  will come.
\<close>

definition over :: "mr_queue_t \<Rightarrow> bool" where
  "over q \<longleftrightarrow> closed q \<and> q_count q = 0"

fun moves :: "mr_queue_t \<Rightarrow> pc \<Rightarrow> pc \<Rightarrow> bool" where
  "moves q (Push_enter d) p' \<longleftrightarrow> p' = Push_enter d \<or> p' = Push_test d"
| "moves q (Push_test d) p' \<longleftrightarrow> p' = Push_test d \<or> p' = Push_wait d \<or> p' = Push_signal"
| "moves q (Push_wait d) p' \<longleftrightarrow> p' = Push_wait d \<or> p' = Push_wake d"
| "moves q (Push_wake d) p' \<longleftrightarrow> p' = Push_wake d \<or> p' = Push_test d"
| "moves q Push_signal p' \<longleftrightarrow> p' = Push_signal \<or> p' = Leave 0 No_data"
| "moves q Pop_enter p' \<longleftrightarrow> p' = Pop_enter \<or> p' = Pop_test"
| "moves q Pop_test p' \<longleftrightarrow> p' = Pop_test \<or> p' = Pop_wait \<or> (\<exists>d. p' = Pop_signal d) \<or>
     p' = Leave 1 No_data \<and> over q"
| "moves q Pop_wait p' \<longleftrightarrow> p' = Pop_wait \<or> p' = Pop_wake"
| "moves q Pop_wake p' \<longleftrightarrow> p' = Pop_wake \<or> p' = Pop_test"
| "moves q (Pop_signal d) p' \<longleftrightarrow> p' = Pop_signal d \<or> p' = Leave 0 (Data d)"
| "moves q Close_enter p' \<longleftrightarrow> p' = Close_enter \<or> p' = Close_set"
| "moves q Close_set p' \<longleftrightarrow> p' = Close_set \<or> p' = Close_bcast \<and> closed q"
| "moves q Close_bcast p' \<longleftrightarrow> p' = Close_bcast \<or> p' = Leave 0 No_data"
| "moves q (Look_enter l) p' \<longleftrightarrow> p' = Look_enter l \<or> p' = Look_read l"
| "moves q (Look_read l) p' \<longleftrightarrow> p' = Look_read l \<or> (\<exists>b. p' = Leave 0 (Flag b))"
| "moves q (Leave r x) p' \<longleftrightarrow> p' = Leave r x \<or> p' = Returned r x"
| "moves q (Returned r x) p' \<longleftrightarrow> p' = Returned r x"
| "moves q (Crashed s) p' \<longleftrightarrow> p' = Crashed s"

lemma moves_refl [simp]: "moves q p p"
  by (cases p) auto

text \<open>The steps that remain when no call fails.\<close>

abbreviation smooth :: "label set" where "smooth \<equiv> {Run, Spurious}"

lemma no_undefined:
  assumes "data_inv m"
  shows "at m i (Push_test d) \<Longrightarrow> q_count (queue m) \<noteq> capacity (queue m) \<Longrightarrow> push_data (queue m) d \<noteq> None"
    and "q_count (queue m) \<noteq> 0 \<Longrightarrow> pop_data (queue m) \<noteq> None"
proof -
  show "push_data (queue m) d \<noteq> None" if "at m i (Push_test d)" "q_count (queue m) \<noteq> capacity (queue m)"
    using data_inv_store [OF assms that] by blast
  show "pop_data (queue m) \<noteq> None" if "q_count (queue m) \<noteq> 0"
    using data_inv_take [OF assms that] by blast
qed

lemma data_fields:
  "push_data q d = Some q' \<Longrightarrow> closed q' = closed q \<and> capacity q' = capacity q \<and> element_size q' = element_size q"
  "pop_data q = Some (d, q') \<Longrightarrow> closed q' = closed q \<and> capacity q' = capacity q \<and> element_size q' = element_size q"
  by (auto simp: push_data_def pop_data_def Let_def split: if_splits)

lemma step_moves:
  assumes "step l m m'" and "l \<in> smooth" and "data_inv m" and "k < length (threads m)"
  shows "moves (queue m') (threads m ! k) (threads m' ! k)"
  using assms
  by (induction rule: step.induct)
     (auto simp: nth_list_update over_def dest: no_undefined)

text \<open>The queue is closed by the thread in \<open>mr_queue_close\<close> only, and filled by one in \<open>mr_queue_push\<close> only.\<close>

lemma step_closed:
  "step l m m' \<Longrightarrow> closed (queue m') = closed (queue m) \<or> closed (queue m') \<and> (\<exists>i. at m i Close_set)"
  by (induction rule: step.induct) (auto dest: data_fields)

lemma step_over:
  "step l m m' \<Longrightarrow> over (queue m) \<Longrightarrow> over (queue m') \<or> (\<exists>i d. at m i (Push_test d))"
  by (induction rule: step.induct) (auto simp: over_def)

lemma step_capacity:
  "step l m m' \<Longrightarrow> capacity (queue m') = capacity (queue m) \<and> element_size (queue m') = element_size (queue m)"
  by (induction rule: step.induct) (auto dest: data_fields)

section \<open>Roles and program counters\<close>

primrec msgs :: "'m script \<Rightarrow> 'm list" where
  "msgs (Return r) = []" | "msgs (Emit m k) = m # msgs (k 0)"

primrec result :: "'m script \<Rightarrow> int" where
  "result (Return r) = r" | "result (Emit m k) = result (k 0)"

text \<open>No worker gives up: with the result of the user's function it goes on to the next item.\<close>

definition steady :: "'m program \<Rightarrow> bool" where
  "steady P \<longleftrightarrow> (\<forall>d. after_user P (result (job P d)) = Loop)"

fun is_controller :: "'m role \<Rightarrow> bool" where
  "is_controller (Feed ds) = True" | "is_controller (Feeding ds) = True"
| "is_controller (Close chk c) = True" | "is_controller (Closing chk c) = True"
| "is_controller (Join chk c k) = True" | "is_controller (Exit c) = True" | "is_controller _ = False"

fun feeds :: "'m role \<Rightarrow> bool" where
  "feeds (Feed ds) = True" | "feeds (Feeding ds) = True" | "feeds (Close chk c) = True" | "feeds _ = False"

fun returned :: "pc \<Rightarrow> bool" where
  "returned (Returned r x) = True" | "returned _ = False"

fun agree :: "'m program \<Rightarrow> mr_queue_t \<Rightarrow> 'm role \<Rightarrow> pc \<Rightarrow> bool" where
  "agree P q (Feed ds) pc \<longleftrightarrow> returned pc"
| "agree P q (Feeding ds) pc \<longleftrightarrow>
     carried pc \<noteq> None \<or> pc = Push_signal \<or> pc = Leave 0 No_data \<or> pc = Returned 0 No_data"
| "agree P q (Close chk c) pc \<longleftrightarrow> returned pc \<and> chk \<and> c = exit_code P"
| "agree P q (Closing chk c) pc \<longleftrightarrow> chk \<and> c = exit_code P \<and> (pc = Close_enter \<or> pc = Close_set \<or>
     closed q \<and> (pc = Close_bcast \<or> pc = Leave 0 No_data \<or> pc = Returned 0 No_data))"
| "agree P q (Join chk c k) pc \<longleftrightarrow> returned pc \<and> closed q \<and> chk \<and> c = exit_code P \<and> 0 < k"
| "agree P q (Exit c) pc \<longleftrightarrow> returned pc \<and> closed q \<and> c = exit_code P"
| "agree P q Popping pc \<longleftrightarrow> pc \<in> {Pop_enter, Pop_test, Pop_wait, Pop_wake} \<or>
     (\<exists>d. pc = Pop_signal d \<or> pc = Leave 0 (Data d) \<or> pc = Returned 0 (Data d)) \<or>
     over q \<and> (pc = Leave 1 No_data \<or> pc = Returned 1 No_data)"
| "agree P q Ending pc \<longleftrightarrow> returned pc \<and> over q"
| "agree P q (Done c) pc \<longleftrightarrow> returned pc \<and> over q"
| "agree P q (User d s) pc \<longleftrightarrow> returned pc \<and> after_user P (result s) = Loop"
| "agree P q (Lock d m k) pc \<longleftrightarrow> returned pc \<and> after_user P (result (k 0)) = Loop"
| "agree P q (Write d bs m k) pc \<longleftrightarrow> returned pc \<and> after_user P (result (k 0)) = Loop"
| "agree P q (Unlock d r m k) pc \<longleftrightarrow> returned pc \<and> r = 0 \<and> after_user P (result (k 0)) = Loop"
| "agree P q r pc \<longleftrightarrow> returned pc"

lemma returnedE: "returned pc \<Longrightarrow> (\<And>r x. pc = Returned r x \<Longrightarrow> thesis) \<Longrightarrow> thesis"
  by (cases pc) auto

lemma moves_returned: "moves q pc pc' \<Longrightarrow> returned pc \<Longrightarrow> pc' = pc"
  by (cases pc) auto

lemma moves_carried: "moves q pc pc' \<Longrightarrow> carried pc = Some d \<Longrightarrow> carried pc' = Some d \<or> pc' = Push_signal"
  by (cases pc) auto

text \<open>A move of the queue keeps the agreement, if the queue stays closed and over.\<close>

lemma agree_moves:
  assumes "agree P q r pc" and "moves q' pc pc'" and "closed q \<Longrightarrow> closed q'" and "over q \<Longrightarrow> over q'"
  shows "agree P q' r pc'"
proof (cases r)
  case (Feeding ds)
  then show ?thesis using assms(1,2) by (cases pc) auto
next
  case (Closing chk c)
  then show ?thesis using assms by (cases pc) auto
next
  case Popping
  then show ?thesis using assms by (cases pc) auto
qed (use assms moves_returned [OF assms(2)] in auto)

section \<open>The invariant of the roles\<close>

fun todo :: "'m role \<Rightarrow> byte list list" where
  "todo (Feed ds) = ds" | "todo (Feeding ds) = ds" | "todo _ = []"

fun joined_to :: "nat \<Rightarrow> 'm role \<Rightarrow> nat" where
  "joined_to n (Join chk c k) = k" | "joined_to n (Exit c) = n" | "joined_to n _ = 0"

abbreviation esize :: "'m pool \<Rightarrow> nat" where
  "esize p \<equiv> unat (element_size (queue (mon p)))"

definition role_ok :: "'m program \<Rightarrow> 'm pool \<Rightarrow> nat \<Rightarrow> 'm role \<Rightarrow> pc \<Rightarrow> bool" where
  "role_ok P p i r pc \<longleftrightarrow>
     agree P (queue (mon p)) r pc \<and> (is_controller r \<longleftrightarrow> i = 0) \<and>
     (closed (queue (mon p)) \<longrightarrow> \<not> feeds r) \<and> (\<forall>d \<in> set (todo r). length d = esize p) \<and>
     (\<forall>j. 0 < j \<longrightarrow> j < joined_to (length (roles p)) r \<longrightarrow> j < length (roles p) \<longrightarrow> (\<exists>z. roles p ! j = Done z))"

definition roles_inv :: "'m program \<Rightarrow> 'm pool \<Rightarrow> bool" where
  "roles_inv P p \<longleftrightarrow>
     live_inv (mon p) \<and> length (roles p) = length (threads (mon p)) \<and> 0 < length (roles p) \<and>
     (\<forall>i < length (roles p). role_ok P p i (roles p ! i) (threads (mon p) ! i))"

lemma roles_inv_role: "roles_inv P p \<Longrightarrow> i < length (roles p) \<Longrightarrow> role_ok P p i (roles p ! i) (threads (mon p) ! i)"
  by (simp add: roles_inv_def)

lemma agree_places:
  assumes "agree P q r pc"
  shows "pc = Push_test d \<Longrightarrow> \<exists>ds. r = Feeding ds" and "pc = Close_set \<Longrightarrow> \<exists>chk c. r = Closing chk c"
    and "pc = Pop_test \<Longrightarrow> r = Popping"
  using assms by (cases r; auto)+

lemma roles_inv_queue:
  assumes inv: "roles_inv P p" and st: "step l (mon p) m'" and l: "l \<in> smooth"
  shows "roles_inv P (p\<lparr>mon := m'\<rparr>)"
proof -
  let ?m = "mon p"
  have live: "live_inv ?m" and len: "length (roles p) = length (threads ?m)" and pos: "0 < length (roles p)"
    using inv by (auto simp: roles_inv_def)
  have data: "data_inv ?m" using live by (simp add: live_inv_def)
  have ctl: "roles p ! i = r \<Longrightarrow> i < length (roles p) \<Longrightarrow> is_controller r \<Longrightarrow> i = 0" for i r
    using roles_inv_role [OF inv] by (auto simp: role_ok_def)
  have ag: "agree P (queue ?m) (roles p ! i) pc" if "at ?m i pc" for i pc
    using roles_inv_role [OF inv, of i] that len by (auto simp: role_ok_def)
  have closing: "\<not> feeds (roles p ! 0)" if "at ?m i Close_set" for i
  proof -
    from agree_places(2) [OF ag [OF that] refl] obtain chk c where r: "roles p ! i = Closing chk c" by blast
    then have "i = 0" using ctl [OF r] that len by simp
    with r show ?thesis by simp
  qed
  have "\<exists>ds. roles p ! 0 = Feeding ds" if "at ?m i (Push_test d)" for i d
  proof -
    from agree_places(1) [OF ag [OF that] refl] obtain ds where r: "roles p ! i = Feeding ds" by blast
    then have "i = 0" using ctl [OF r] that len by simp
    with r show ?thesis by blast
  qed
  then have "closed (queue ?m) \<Longrightarrow> \<not> at ?m i (Push_test d)" for i d
    using roles_inv_role [OF inv pos] by (fastforce simp: role_ok_def)
  then have over': "over (queue ?m) \<Longrightarrow> over (queue m')"
    using step_over [OF st] by (auto simp: over_def)
  have closed': "closed (queue ?m) \<Longrightarrow> closed (queue m')" using step_closed [OF st] by auto
  have feeds': "closed (queue m') \<Longrightarrow> \<not> feeds (roles p ! i)" if "i < length (roles p)" for i
    using step_closed [OF st] roles_inv_role [OF inv that] closing
    by (cases "i = 0") (auto simp: role_ok_def elim: feeds.elims)
  have "role_ok P (p\<lparr>mon := m'\<rparr>) i (roles p ! i) (threads m' ! i)" if i: "i < length (roles p)" for i
    using roles_inv_role [OF inv i] step_moves [OF st l data] i len closed' over' feeds' [OF i] step_capacity [OF st]
    by (auto simp: role_ok_def intro: agree_moves)
  then show ?thesis
    using inv step_live_inv [OF st _ live] l len step_length [OF st] by (auto simp: roles_inv_def)
qed

lemma roles_inv_fields [simp]:
  "roles_inv P (p\<lparr>out := a\<rparr>) = roles_inv P p" "roles_inv P (p\<lparr>out_mutex := b\<rparr>) = roles_inv P p"
  "roles_inv P (p\<lparr>emitted := c\<rparr>) = roles_inv P p" "roles_inv P (p\<lparr>sent := d\<rparr>) = roles_inv P p"
  "roles_inv P (p\<lparr>finished := f\<rparr>) = roles_inv P p"
  by (simp_all add: roles_inv_def role_ok_def)

lemma role_ok_become:
  assumes "role_ok P p j r pc" and "\<nexists>z. roles p ! i = Done z"
  shows "role_ok P (become i r' p) j r pc"
proof -
  have "\<exists>z. (roles p)[i := r'] ! k = Done z" if "\<exists>z. roles p ! k = Done z" for k
    using assms(2) that by (cases "k = i") auto
  then have "\<forall>k. 0 < k \<longrightarrow> k < joined_to (length (roles p)) r \<longrightarrow> k < length (roles p) \<longrightarrow>
      (\<exists>z. (roles p)[i := r'] ! k = Done z)"
    using assms(1) unfolding role_ok_def by blast
  then show ?thesis using assms(1) by (simp add: role_ok_def)
qed

lemma roles_inv_become:
  assumes inv: "roles_inv P p" and i: "i < length (roles p)" and old: "\<nexists>z. roles p ! i = Done z"
    and new: "role_ok P p i r' (threads (mon p) ! i)"
  shows "roles_inv P (become i r' p)"
proof -
  have "role_ok P (become i r' p) j ((roles p)[i := r'] ! j) (threads (mon p) ! j)" if "j < length (roles p)" for j
    using role_ok_become [OF _ old] roles_inv_role [OF inv that] new i that by (cases "j = i") auto
  then show ?thesis using inv by (auto simp: roles_inv_def)
qed

lemma roles_inv_enter:
  assumes inv: "roles_inv P p" and i: "i < length (roles p)" and old: "\<nexists>z. roles p ! i = Done z"
    and new: "role_ok P p i r' pc" and call: "step Call (mon p) (goto i pc (mon p))"
  shows "roles_inv P (enter i pc r' p)"
proof -
  have same: "role_ok P (enter i pc r' p) = role_ok P (become i r' p)"
    by (simp add: fun_eq_iff role_ok_def)
  have "role_ok P (become i r' p) j ((roles p)[i := r'] ! j) ((threads (mon p))[i := pc] ! j)" if "j < length (roles p)" for j
    using role_ok_become [OF _ old] roles_inv_role [OF inv that] new i that inv
    by (cases "j = i") (auto simp: roles_inv_def)
  moreover have "live_inv (goto i pc (mon p))"
    using step_live_inv [OF call] inv by (simp add: roles_inv_def)
  ultimately show ?thesis
    using inv unfolding roles_inv_def same by auto
qed

lemma acts_role:
  "roles_inv P p \<Longrightarrow> acts p i r \<Longrightarrow> role_ok P p i r (threads (mon p) ! i) \<and> returned (threads (mon p) ! i)"
  using roles_inv_role [of P p i] by auto

lemma step_roles_inv:
  assumes "pool_step P l p p'" and "l \<in> smooth" and steady: "steady P" and inv: "roles_inv P p"
  shows "roles_inv P p'"
proof -
  have role: "role_ok P p i r (threads (mon p) ! i)" if "acts p i r" for i r using acts_role [OF inv that] by blast
  note become = roles_inv_become [OF inv] and enter = roles_inv_enter [OF inv]
  show ?thesis
    using assms(1)
  proof (cases rule: pool_step.cases)
    case (in_queue m')
    then show ?thesis using roles_inv_queue [OF inv] assms(2) by simp
  next
    case (feed i d ds)
    then show ?thesis using role [OF feed(3)] by (auto simp: role_ok_def intro!: enter step.call_push)
  next
    case (close i chk c)
    then show ?thesis using role [OF close(3)] by (auto simp: role_ok_def intro!: enter step.call_close)
  next
    case (pop i)
    then show ?thesis using role [OF pop(3)] by (auto simp: role_ok_def intro!: enter step.call_pop)
  next
    case (join i chk c k z)
    then show ?thesis using role [OF join(3)] by (auto simp: role_ok_def less_Suc_eq intro!: become)
  next
    case (popped i d)
    then show ?thesis using role [OF popped(3)] steady by (auto simp: role_ok_def steady_def intro!: become)
  qed (frule role; use assms(2) in \<open>auto simp: role_ok_def intro!: become\<close>)+
qed

section \<open>What a step does to its thread\<close>

text \<open>
  A step outside the queue without a failed call, as its thread sees it: the role and the program
  counter before and after, the items it has finished and the messages it has sent; \<open>n\<close> is the
  number of threads. Every such step of a pool is one of these.
\<close>

inductive thread_step ::
    "'m program \<Rightarrow> nat \<Rightarrow> 'm role \<Rightarrow> pc \<Rightarrow> 'm role \<Rightarrow> pc \<Rightarrow> byte list list \<Rightarrow> 'm list \<Rightarrow> bool" for P n where
  ts_feed: "thread_step P n (Feed (d # ds)) pc (Feeding ds) (Push_enter d) [] []"
| ts_fed: "thread_step P n (Feeding ds) (Returned 0 x) (Feed ds) (Returned 0 x) [] []"
| ts_feed_end: "thread_step P n (Feed []) pc (Close True (exit_code P)) pc [] []"
| ts_close: "thread_step P n (Close True c) pc (Closing True c) Close_enter [] []"
| ts_close_done: "thread_step P n (Closing True c) (Returned 0 x) (Join True c 1) (Returned 0 x) [] []"
| ts_join: "k < n \<Longrightarrow> thread_step P n (Join True c k) pc (Join True c (Suc k)) pc [] []"
| ts_joined: "thread_step P n (Join True c k) pc (Exit c) pc [] []"
| ts_start: "thread_step P n Start pc Loop pc [] []"
| ts_pop: "thread_step P n Loop pc Popping Pop_enter [] []"
| ts_popped: "thread_step P n Popping (Returned 0 (Data d)) (User d (job P d)) (Returned 0 (Data d)) [] []"
| ts_pop_end: "thread_step P n Popping (Returned 1 No_data) Ending (Returned 1 No_data) [] []"
| ts_ending: "thread_step P n Ending pc (Done EXIT_SUCCESS) pc [] []"
| ts_user_end: "thread_step P n (User d (Return r)) pc Loop pc [d] []"
| ts_emit: "thread_step P n (User d (Emit m k)) pc (Lock d m k) pc [] []"
| ts_lock: "thread_step P n (Lock d m k) pc (Write d (bytes P m) m k) pc [] []"
| ts_write: "0 < j \<Longrightarrow> j \<le> length bs \<Longrightarrow> thread_step P n (Write d bs m k) pc (Write d (drop j bs) m k) pc [] []"
| ts_written: "thread_step P n (Write d [] m k) pc (Unlock d 0 m k) pc [] [m]"
| ts_unlock: "thread_step P n (Unlock d 0 m k) pc (User d (k 0)) pc [] []"

lemma pool_step_thread:
  assumes "pool_step P l p p'" and "l \<in> smooth" and inv: "roles_inv P p"
  obtains (queue) m' where "step l (mon p) m'" and "l \<noteq> Call" and "p' = p\<lparr>mon := m'\<rparr>"
    | (thread) i r pc c x fs ms where "l = Run" and "i < length (roles p)" and "threads (mon p) ! i = Returned c x"
      and "thread_step P (length (roles p)) (roles p ! i) (Returned c x) r pc fs ms"
      and "roles p' = (roles p)[i := r]" and "mon p' = (mon p)\<lparr>threads := (threads (mon p))[i := pc]\<rparr>"
      and "finished p' = finished p @ fs" and "sent p' = sent p @ ms"
proof -
  note role = acts_role [OF inv]
  have keeps: thesis if "i < length (roles p)" "threads (mon p) ! i = Returned c x"
      "thread_step P (length (roles p)) (roles p ! i) (Returned c x) r (Returned c x) fs ms"
      "roles p' = (roles p)[i := r]" "mon p' = mon p" "finished p' = finished p @ fs" "sent p' = sent p @ ms" "l = Run"
    for i r c x fs ms
  proof (rule thread [OF that(8,1-4)])
    have "(threads (mon p))[i := Returned c x] = threads (mon p)" using that(2) by (metis list_update_id)
    then show "mon p' = (mon p)\<lparr>threads := (threads (mon p))[i := Returned c x]\<rparr>" using that(5) by simp
  qed (use that in auto)
  show thesis
    using assms(1)
  proof (cases rule: pool_step.cases)
    case (in_queue m')
    then show ?thesis by (intro queue)
  next
    case (feed i d ds)
    then show ?thesis by (auto intro!: thread [of i] thread_step.intros)
  next
    case (close i chk c)
    then show ?thesis using role [OF close(3)] by (auto simp: role_ok_def intro!: thread [of i] thread_step.intros)
  next
    case (pop i)
    then show ?thesis by (auto intro!: thread [of i] thread_step.intros)
  next
    case (fed i ds x)
    then show ?thesis by (auto intro!: keeps [of i] thread_step.intros)
  next
    case (fed_error i ds x)
    then show ?thesis using role [OF fed_error(3)] by (auto simp: role_ok_def)
  next
    case (close_done i chk c r x)
    then show ?thesis using role [OF close_done(3)] by (auto simp: role_ok_def intro!: keeps [of i] thread_step.intros)
  next
    case (joined i chk c k)
    then show ?thesis using role [OF joined(3)] by (auto simp: role_ok_def intro!: keeps [of i] thread_step.intros)
  next
    case (join i chk c k z)
    then show ?thesis using role [OF join(3)] by (auto simp: role_ok_def intro!: keeps [of i] ts_join)
  next
    case (pop_end i r x)
    then show ?thesis using role [OF pop_end(3)] by (auto simp: role_ok_def intro!: keeps [of i] thread_step.intros)
  next
    case (user_end i d r)
    then show ?thesis using role [OF user_end(3)] by (auto simp: role_ok_def intro!: keeps [of i] thread_step.intros)
  next
    case (unlock_out i d r m k)
    then show ?thesis using role [OF unlock_out(3)] by (auto simp: role_ok_def intro!: keeps [of i] thread_step.intros)
  qed (use assms(2) in \<open>auto intro!: keeps thread_step.intros\<close>)
qed

section \<open>The standard output\<close>

abbreviation sent_bytes :: "'m program \<Rightarrow> 'm pool \<Rightarrow> byte list" where
  "sent_bytes P p \<equiv> concat (map (bytes P) (sent p))"

text \<open>A thread that writes holds the mutex, and what is not a whole message on the output is its part.\<close>

fun out_ok :: "'m program \<Rightarrow> 'm pool \<Rightarrow> nat \<Rightarrow> 'm role \<Rightarrow> bool" where
  "out_ok P p i (Write d bs m k) \<longleftrightarrow>
     out_mutex p = Some i \<and> (\<exists>w. bytes P m = w @ bs \<and> out p = sent_bytes P p @ w)"
| "out_ok P p i (Unlock d r m k) \<longleftrightarrow> out_mutex p = Some i \<and> out p = sent_bytes P p"
| "out_ok P p i r \<longleftrightarrow> out_mutex p \<noteq> Some i"

definition out_inv :: "'m program \<Rightarrow> 'm pool \<Rightarrow> bool" where
  "out_inv P p \<longleftrightarrow>
     (\<forall>i < length (roles p). out_ok P p i (roles p ! i)) \<and>
     (out_mutex p = None \<longrightarrow> out p = sent_bytes P p) \<and> (\<forall>i. out_mutex p = Some i \<longrightarrow> i < length (roles p)) \<and>
     emitted p = word_of_nat (length (sent p))"

fun silent :: "'m role \<Rightarrow> bool" where
  "silent (Write d bs m k) = False" | "silent (Unlock d r m k) = False" | "silent r = True"

lemma out_ok_silent: "silent r \<Longrightarrow> out_ok P p i r \<longleftrightarrow> out_mutex p \<noteq> Some i"
  by (cases r) auto

text \<open>The mutex of another thread does not matter to a thread that does not write.\<close>

lemma out_ok_other:
  "out_ok P p j r \<Longrightarrow> out_mutex p \<noteq> Some j \<Longrightarrow> silent r"
  by (cases r) auto

lemma out_inv_silent:
  assumes "out_inv P p" and "i < length (roles p)" and "silent (roles p ! i)" and "silent r"
    and "roles p' = (roles p)[i := r]" and "out p' = out p" and "out_mutex p' = out_mutex p"
    and "sent p' = sent p" and "emitted p' = emitted p"
  shows "out_inv P p'"
proof -
  have "out_ok P p' j (roles p ! j)" if "j < length (roles p)" for j
    using assms(1,6-8) that unfolding out_inv_def by (cases "roles p ! j") auto
  moreover have "out_mutex p \<noteq> Some i"
    using assms(1-3) out_ok_silent unfolding out_inv_def by metis
  ultimately show ?thesis
    using assms by (auto simp: out_inv_def nth_list_update out_ok_silent)
qed

text \<open>A thread that takes, uses or gives up the mutex: all others are silent.\<close>

lemma out_inv_writer:
  assumes "out_inv P p" and "i < length (roles p)" and "out_mutex p = None \<or> out_mutex p = Some i"
    and "out_mutex p' = None \<or> out_mutex p' = Some i" and "roles p' = (roles p)[i := r]" and "out_ok P p' i r"
    and "out_mutex p' = None \<longrightarrow> out p' = sent_bytes P p'" and "emitted p' = word_of_nat (length (sent p'))"
  shows "out_inv P p'"
proof -
  have "silent (roles p ! j)" if "j < length (roles p)" "j \<noteq> i" for j
    using assms(1,3) that out_ok_other [of P p j] unfolding out_inv_def by auto
  then have "out_ok P p' j ((roles p)[i := r] ! j)" if "j < length (roles p)" for j
    using assms(2,4,6) that out_ok_silent [of "roles p ! j" P p' j] by (cases "j = i") auto
  then show ?thesis using assms by (auto simp: out_inv_def)
qed

lemma out_inv_mon [simp]: "out_inv P (p\<lparr>mon := m\<rparr>) = out_inv P p"
proof -
  have "out_ok P (p\<lparr>mon := m\<rparr>) i r = out_ok P p i r" for i r by (cases r) auto
  then show ?thesis by (simp add: out_inv_def)
qed

lemma acts_out: "out_inv P p \<Longrightarrow> acts p i r \<Longrightarrow> out_ok P p i r"
  by (auto simp: out_inv_def)

lemma after_steady: "roles_inv P p \<Longrightarrow> acts p i (User d (Return r)) \<Longrightarrow> after_user P r = Loop"
  using acts_role [of P p i "User d (Return r)"] by (simp add: role_ok_def)

lemma out_inv_become:
  assumes "out_inv P p" and "i < length (roles p)" and "silent (roles p ! i)" and "silent r"
  shows "out_inv P (become i r p)" and "out_inv P (enter i pc r p)"
  by (rule out_inv_silent [OF assms(1-4)]; simp)+

lemma step_out_inv:
  assumes "pool_step P l p p'" and "l \<in> smooth" and roles: "roles_inv P p" and inv: "out_inv P p"
  shows "out_inv P p'"
  using assms(1)
proof (cases rule: pool_step.cases)
  case (fed_error i ds x)
  then show ?thesis using acts_role [OF roles fed_error(3)] by (auto simp: role_ok_def)
next
  case (user_end i d r)
  then show ?thesis
    using after_steady [OF roles user_end(3)] by simp (rule out_inv_silent [OF inv, of i Loop]; simp)
next
  case (lock_out i d m k)
  then show ?thesis using inv by (intro out_inv_writer [OF inv, of i]) (auto simp: out_inv_def)
next
  case (write_some i d bs m k n)
  then obtain w where w: "out_mutex p = Some i" "bytes P m = w @ bs" "out p = sent_bytes P p @ w"
    using acts_out [OF inv write_some(3)] by auto
  then have "bytes P m = (w @ take n bs) @ drop n bs" by simp
  then show ?thesis
    using write_some w inv
    by (intro out_inv_writer [OF inv, of i]) (auto simp: out_inv_def intro!: exI [of _ "w @ take n bs"])
next
  case (written i d m k)
  then show ?thesis using acts_out [OF inv written(3)] inv
    by (intro out_inv_writer [OF inv, of i]) (auto simp: out_inv_def)
next
  case (unlock_out i d r m k)
  then show ?thesis using acts_out [OF inv unlock_out(3)] inv
    by (intro out_inv_writer [OF inv, of i]) (auto simp: out_inv_def)
qed (use assms(2) inv in \<open>auto intro!: out_inv_become\<close>)

section \<open>Where the items are\<close>

fun takes :: "pc \<Rightarrow> byte list multiset" where
  "takes (Pop_signal d) = {#d#}" | "takes (Leave r (Data d)) = {#d#}" | "takes (Returned r (Data d)) = {#d#}"
| "takes pc = {#}"

fun waits :: "'m role \<Rightarrow> pc \<Rightarrow> byte list multiset" where
  "waits (Feed ds) pc = mset ds"
| "waits (Feeding ds) pc = mset ds + (case carried pc of None \<Rightarrow> {#} | Some d \<Rightarrow> {#d#})"
| "waits Popping pc = takes pc"
| "waits r pc = {#}"

fun in_hand :: "'m role \<Rightarrow> byte list multiset" where
  "in_hand (User d s) = {#d#}" | "in_hand (Lock d m k) = {#d#}" | "in_hand (Write d bs m k) = {#d#}"
| "in_hand (Unlock d r m k) = {#d#}" | "in_hand r = {#}"

fun rest :: "'m role \<Rightarrow> 'm list" where
  "rest (User d s) = msgs s" | "rest (Lock d m k) = m # msgs (k 0)" | "rest (Write d bs m k) = m # msgs (k 0)"
| "rest (Unlock d r m k) = msgs (k 0)" | "rest r = []"

definition over_threads :: "('m role \<Rightarrow> pc \<Rightarrow> 'a :: comm_monoid_add) \<Rightarrow> 'm role list \<Rightarrow> pc list \<Rightarrow> 'a" where
  "over_threads f rs ts = (\<Sum>i < length rs. f (rs ! i) (ts ! i))"

lemma over_threads_update:
  fixes f :: "'m role \<Rightarrow> pc \<Rightarrow> 'a :: cancel_comm_monoid_add"
  assumes "i < length rs"
  shows "over_threads f (rs[i := r]) (ts[i := pc]) + f (rs ! i) (ts ! i) =
    over_threads f rs ts + f r (ts[i := pc] ! i)"
proof -
  have "(\<Sum>j \<in> {..<length rs} - {i}. f (rs[i := r] ! j) (ts[i := pc] ! j)) =
      (\<Sum>j \<in> {..<length rs} - {i}. f (rs ! j) (ts ! j))"
    by (rule sum.cong) auto
  then show ?thesis
    using assms sum.remove [of "{..<length rs}" i "\<lambda>j. f (rs[i := r] ! j) (ts[i := pc] ! j)"]
      sum.remove [of "{..<length rs}" i "\<lambda>j. f (rs ! j) (ts ! j)"]
    by (simp add: over_threads_def ac_simps)
qed

lemma over_threads_roles:
  fixes f :: "'m role \<Rightarrow> pc \<Rightarrow> 'a :: cancel_comm_monoid_add"
  shows "i < length rs \<Longrightarrow> over_threads f (rs[i := r]) ts + f (rs ! i) (ts ! i) =
    over_threads f rs ts + f r (ts ! i)"
  using over_threads_update [of i rs f r ts "ts ! i"] by simp

lemma over_threads_pcs:
  fixes f :: "'m role \<Rightarrow> pc \<Rightarrow> 'a :: cancel_comm_monoid_add"
  shows "i < length rs \<Longrightarrow> i < length ts \<Longrightarrow> over_threads f rs (ts[i := pc]) + f (rs ! i) (ts ! i) =
    over_threads f rs ts + f (rs ! i) pc"
  using over_threads_update [of i rs f "rs ! i" ts pc] by simp

text \<open>A program counter that moves without an item.\<close>

lemma waits_same: "carried pc' = carried pc \<Longrightarrow> takes pc' = takes pc \<Longrightarrow> waits r pc' = waits r pc"
  by (cases r) auto

lemma over_waits_same:
  assumes "i < length ts" and "length rs = length ts" and "carried pc = carried (ts ! i)" and "takes pc = takes (ts ! i)"
  shows "over_threads waits rs (ts[i := pc]) = over_threads waits rs ts"
  using over_threads_pcs [of i rs ts waits pc] waits_same [OF assms(3,4), of "rs ! i"] assms(1,2) by simp

lemma data_elems:
  assumes "data_inv m"
  shows "at m i (Push_test d) \<Longrightarrow> q_count (queue m) \<noteq> capacity (queue m) \<Longrightarrow> push_data (queue m) d = Some q' \<Longrightarrow>
      elems q' = elems (queue m) @ [d]"
    and "q_count (queue m) \<noteq> 0 \<Longrightarrow> pop_data (queue m) = Some (d, q') \<Longrightarrow> elems (queue m) = elems q' @ [d]"
proof -
  have q: "queue_ok (queue m)" using assms by (simp add: data_inv_def)
  show "elems q' = elems (queue m) @ [d]"
    if "at m i (Push_test d)" "q_count (queue m) \<noteq> capacity (queue m)" "push_data (queue m) d = Some q'"
  proof -
    have "q_count (queue m) < capacity (queue m)" using q that by (auto simp: queue_ok_def)
    moreover have "length d = unat (element_size (queue m))"
      using data_inv_at [OF assms that(1)] by (simp add: thread_ok_def)
    ultimately show ?thesis using push_data_ok [OF q, of d] that by auto
  qed
  show "elems (queue m) = elems q' @ [d]" if "q_count (queue m) \<noteq> 0" "pop_data (queue m) = Some (d, q')"
    using pop_data_ok [OF q] that by (auto simp: word_neq_0_conv)
qed

lemma queue_flow:
  assumes "step l m m'" and "l \<in> smooth" and data: "data_inv m" and len: "length rs = length (threads m)"
    and agree: "\<And>i. i < length rs \<Longrightarrow> agree P (queue m) (rs ! i) (threads m ! i)"
  shows "over_threads waits rs (threads m') + mset (elems (queue m')) =
    over_threads waits rs (threads m) + mset (elems (queue m))"
  using assms(1)
proof (cases rule: step.cases)
  case (push_signal i j)
  let ?ts = "(threads m)[j := Pop_wake]"
  have "i \<noteq> j" using push_signal by auto
  then have "over_threads waits rs (?ts[i := Leave 0 No_data]) = over_threads waits rs ?ts"
    using push_signal len by (intro over_waits_same) auto
  also have "\<dots> = over_threads waits rs (threads m)"
    using push_signal len by (intro over_waits_same) auto
  finally show ?thesis using push_signal by simp
next
  case (pop_signal i d j d')
  let ?ts = "(threads m)[j := Push_wake d']"
  have "i \<noteq> j" using pop_signal by auto
  then have "over_threads waits rs (?ts[i := Leave 0 (Data d)]) = over_threads waits rs ?ts"
    using pop_signal len by (intro over_waits_same) auto
  also have "\<dots> = over_threads waits rs (threads m)"
    using pop_signal len by (intro over_waits_same) auto
  finally show ?thesis using pop_signal by simp
next
  case (close_bcast i)
  let ?ts = "map (\<lambda>p. if p = Pop_wait then Pop_wake else p) (threads m)"
  have "over_threads waits rs (?ts[i := Leave 0 No_data]) = over_threads waits rs ?ts"
    using close_bcast len by (intro over_waits_same) auto
  also have "\<dots> = over_threads waits rs (threads m)"
    unfolding over_threads_def using len
    by (intro sum.cong refl waits_same) auto
  finally show ?thesis using close_bcast by simp
next
  case (push_store i d q')
  then have i: "i < length rs" using len by simp
  from agree_places(1) [OF agree [OF i]] push_store obtain ds where "rs ! i = Feeding ds" by fastforce
  then show ?thesis
    using over_threads_pcs [of i rs "threads m" waits Push_signal] push_store len data_elems(1) [OF data push_store(3-5)]
    by simp
next
  case (pop_take i d q')
  then have i: "i < length rs" using len by simp
  from agree_places(3) [OF agree [OF i]] pop_take have "rs ! i = Popping" by simp
  then show ?thesis
    using over_threads_pcs [of i rs "threads m" waits "Pop_signal d"] pop_take len data_elems(2) [OF data pop_take(4,5)]
    by simp
next
  case (leave i r x)
  then show ?thesis using len by (cases x) (auto simp: over_waits_same)
next
  case (push_undefined i d)
  then show ?thesis using no_undefined(1) [OF data push_undefined(3,4)] by simp
qed (use assms(2) len in \<open>auto simp: over_waits_same queue_ok_closed\<close>)

text \<open>The items a message is still to be emitted for or has been.\<close>

definition started :: "'m pool \<Rightarrow> byte list multiset" where
  "started p = over_threads (\<lambda>r _. in_hand r) (roles p) (threads (mon p)) + mset (finished p)"

definition waiting :: "'m pool \<Rightarrow> byte list multiset" where
  "waiting p = over_threads waits (roles p) (threads (mon p)) + mset (elems (queue (mon p)))"

definition flow_inv :: "'m program \<Rightarrow> byte list list \<Rightarrow> 'm pool \<Rightarrow> bool" where
  "flow_inv P items p \<longleftrightarrow>
     mset items = waiting p + started p \<and>
     mset (sent p) + over_threads (\<lambda>r _. mset (rest r)) (roles p) (threads (mon p)) =
       (\<Sum>d \<in># started p. mset (msgs (job P d)))"

text \<open>A thread that changes its role, with the items and messages it hands on.\<close>

lemma flow_change:
  assumes inv: "flow_inv P items p" and i: "i < length (roles p)"
    and p': "roles p' = (roles p)[i := r]" "threads (mon p') = (threads (mon p))[i := pc]"
      "queue (mon p') = queue (mon p)" "finished p' = finished p @ fs" "sent p' = sent p @ ms"
    and len: "length (roles p) = length (threads (mon p))"
    and w: "waits r pc + in_hand r + mset fs =
      waits (roles p ! i) (threads (mon p) ! i) + in_hand (roles p ! i)"
    and m: "(\<Sum>d \<in># in_hand r + mset fs. mset (msgs (job P d))) + mset (rest (roles p ! i)) =
      (\<Sum>d \<in># in_hand (roles p ! i). mset (msgs (job P d))) + mset (rest r) + mset ms"
  shows "flow_inv P items p'"
proof -
  let ?f = "\<lambda>M. \<Sum>d \<in># M. mset (msgs (job P d))" and ?ts = "threads (mon p)"
  let ?S = "\<lambda>f. over_threads f (roles p) ?ts" and ?S' = "\<lambda>f. over_threads f (roles p') (threads (mon p'))"
  have pc: "?ts[i := pc] ! i = pc" using i len by simp
  have W: "?S' waits + waits (roles p ! i) (?ts ! i) = ?S waits + waits r pc"
    and H: "?S' (\<lambda>r _. in_hand r) + in_hand (roles p ! i) = ?S (\<lambda>r _. in_hand r) + in_hand r"
    and R: "?S' (\<lambda>r _. mset (rest r)) + mset (rest (roles p ! i)) = ?S (\<lambda>r _. mset (rest r)) + mset (rest r)"
    using over_threads_update [OF i, of waits r ?ts pc] over_threads_update [OF i, of "\<lambda>r _. in_hand r" r ?ts pc]
      over_threads_update [OF i, of "\<lambda>r _. mset (rest r)" r ?ts pc] by (simp_all only: p' pc)
  have f: "?f (A + B) = ?f A + ?f B" for A B by simp
  have "?f (?S' (\<lambda>r _. in_hand r)) + ?f (in_hand (roles p ! i)) = ?f (?S (\<lambda>r _. in_hand r)) + ?f (in_hand r)"
    using arg_cong [OF H, of ?f] by (simp only: f)
  note F = this
  have 1: "mset items = ?S waits + mset (elems (queue (mon p))) + (?S (\<lambda>r _. in_hand r) + mset (finished p))"
    and 2: "mset (sent p) + ?S (\<lambda>r _. mset (rest r)) = ?f (?S (\<lambda>r _. in_hand r)) + ?f (mset (finished p))"
    using inv by (simp_all add: flow_inv_def waiting_def started_def)
  have "mset items = ?S' waits + mset (elems (queue (mon p))) + (?S' (\<lambda>r _. in_hand r) + mset (finished p) + mset fs)"
  proof (rule multiset_eqI)
    fix x
    show "count (mset items) x =
      count (?S' waits + mset (elems (queue (mon p))) + (?S' (\<lambda>r _. in_hand r) + mset (finished p) + mset fs)) x"
      using arg_cong [OF 1, of "\<lambda>M. count M x"] arg_cong [OF W, of "\<lambda>M. count M x"]
        arg_cong [OF H, of "\<lambda>M. count M x"] arg_cong [OF w, of "\<lambda>M. count M x"]
      unfolding count_union by linarith
  qed
  moreover have "mset (sent p) + mset ms + ?S' (\<lambda>r _. mset (rest r)) =
      ?f (?S' (\<lambda>r _. in_hand r)) + ?f (mset (finished p)) + ?f (mset fs)"
  proof (rule multiset_eqI)
    fix x
    show "count (mset (sent p) + mset ms + ?S' (\<lambda>r _. mset (rest r))) x =
      count (?f (?S' (\<lambda>r _. in_hand r)) + ?f (mset (finished p)) + ?f (mset fs)) x"
      using arg_cong [OF 2, of "\<lambda>M. count M x"] arg_cong [OF F, of "\<lambda>M. count M x"]
        arg_cong [OF R, of "\<lambda>M. count M x"] arg_cong [OF m [unfolded f], of "\<lambda>M. count M x"]
      unfolding count_union by linarith
  qed
  ultimately show ?thesis by (simp add: flow_inv_def waiting_def started_def p' ac_simps)
qed

lemma thread_step_flow:
  assumes "thread_step P n r pc r' pc' fs ms"
  shows "waits r' pc' + in_hand r' + mset fs = waits r pc + in_hand r"
    and "(\<Sum>d \<in># in_hand r' + mset fs. mset (msgs (job P d))) + mset (rest r) =
      (\<Sum>d \<in># in_hand r. mset (msgs (job P d))) + mset (rest r') + mset ms"
  using assms by (cases rule: thread_step.cases; simp)+

lemma queue_waiting:
  assumes "step l (mon p) m'" and "l \<in> smooth" and roles: "roles_inv P p"
  shows "waiting (p\<lparr>mon := m'\<rparr>) = waiting p"
  using queue_flow [OF assms(1,2), of "roles p" P] roles roles_inv_role [OF roles]
  by (auto simp: waiting_def roles_inv_def live_inv_def role_ok_def)

lemma step_flow_inv:
  assumes "pool_step P l p p'" and "l \<in> smooth" and roles: "roles_inv P p" and inv: "flow_inv P items p"
  shows "flow_inv P items p'"
proof -
  have len: "length (roles p) = length (threads (mon p))" using roles by (simp add: roles_inv_def)
  show ?thesis
    using assms(1,2) roles
  proof (cases rule: pool_step_thread)
    case (queue m')
    show ?thesis using queue_waiting [OF queue(1) assms(2) roles] inv queue(3) by (simp add: flow_inv_def started_def over_threads_def)
  next
    case (thread i r pc c x fs ms)
    note flow = thread_step_flow [OF thread(4)]
    have w: "waits r pc + in_hand r + mset fs = waits (roles p ! i) (threads (mon p) ! i) + in_hand (roles p ! i)"
      by (simp only: thread(3) flow(1))
    show ?thesis
      by (rule flow_change [OF inv thread(2,5) _ _ thread(7,8) len w flow(2)]) (simp_all add: thread(6))
  qed
qed

end
