(* ===== verification/Mr_Pool_Run.thy ===== *)
theory Mr_Pool_Run
  imports Mr_Pool
begin

text \<open>
  The runs of the worker pool: the invariants of \<open>Mr_Pool\<close> hold in every reachable state, at the
  end every item has been processed and every message is on the output, no state is a deadlock,
  and every run ends.
\<close>

section \<open>Reachable states\<close>

definition pool_inv :: "'m program \<Rightarrow> byte list list \<Rightarrow> 'm pool \<Rightarrow> bool" where
  "pool_inv P items p \<longleftrightarrow> steady P \<and> roles_inv P p \<and> out_inv P p \<and> flow_inv P items p"

definition pool_started :: "'m program \<Rightarrow> byte list list \<Rightarrow> 'm pool \<Rightarrow> bool" where
  "pool_started P items p \<longleftrightarrow> steady P \<and>
     (\<exists>q n. fresh q \<and> (\<forall>d \<in> set items. length d = unat (element_size q)) \<and> p = pool_start q n items)"

lemma pool_start_inv:
  fixes P :: "'m program"
  assumes "fresh q" and "\<forall>d \<in> set items. length d = unat (element_size q)" and "steady P"
  shows "pool_inv P items (pool_start q n items)"
proof -
  let ?p = "pool_start q n items :: 'm pool"
  have nth: "(Feed items # replicate n Start) ! i = (if i = 0 then Feed items else Start)" if "i < Suc n" for i
    using that by (cases i) auto
  have pcs: "replicate (Suc n) (Returned 0 No_data) ! i = Returned 0 No_data" if "i < Suc n" for i
    using that by (rule nth_replicate)
  have zero: "(\<Sum>i<Suc n. f ((Feed items # replicate n Start) ! i) (replicate (Suc n) (Returned 0 No_data) ! i)) =
      f (Feed items) (Returned 0 No_data)" if "f Start (Returned 0 No_data) = 0" for f :: "'m role \<Rightarrow> pc \<Rightarrow> 'c :: comm_monoid_add"
  proof -
    have "(\<Sum>i<Suc n. f ((Feed items # replicate n Start) ! i) (replicate (Suc n) (Returned 0 No_data) ! i)) =
        (\<Sum>i<Suc n. if i = 0 then f (Feed items) (Returned 0 No_data) else 0)"
      by (rule sum.cong) (use that nth pcs in \<open>auto simp del: replicate_Suc\<close>)
    then show ?thesis by (simp add: sum.delta)
  qed
  have "roles_inv P ?p"
    unfolding roles_inv_def
  proof (intro conjI allI impI)
    show "live_inv (mon ?p)" using start_inv(3) [OF assms(1)] by (simp add: pool_start_def)
    show "role_ok P ?p i (roles ?p ! i) (threads (mon ?p) ! i)" if "i < length (roles ?p)" for i
      using that assms nth [of i] pcs [of i]
      by (cases "i = 0") (auto simp: role_ok_def pool_start_def start_def fresh_def simp del: replicate_Suc)
  qed (simp_all add: pool_start_def start_def)
  moreover have "out_inv P ?p"
    unfolding out_inv_def
  proof (intro conjI allI impI)
    show "out_ok P ?p i (roles ?p ! i)" if "i < length (roles ?p)" for i
      using that nth [of i] by (cases "i = 0") (auto simp: pool_start_def)
  qed (simp_all add: pool_start_def)
  moreover have "flow_inv P items ?p"
    unfolding flow_inv_def waiting_def started_def over_threads_def
    using zero [of waits] zero [of "\<lambda>r _. in_hand r"] zero [of "\<lambda>r _. mset (rest r)"] assms(1)
    by (simp add: pool_start_def start_def fresh_def elems_def del: replicate_Suc)
  ultimately show ?thesis using assms(3) by (simp add: pool_inv_def)
qed

interpretation pool: machine_invariant "pool_step P" smooth "pool_started P items" "pool_inv P items" for P items
proof unfold_locales
  show "pool_started P items p \<Longrightarrow> pool_inv P items p" for p
    by (auto simp: pool_started_def pool_start_inv)
  show "pool_inv P items p'" if "l \<in> smooth" "pool_inv P items p" "pool_step P l p p'" for l p p'
    using that step_roles_inv [OF that(3,1)] step_out_inv [OF that(3,1)] step_flow_inv [OF that(3,1)]
    by (auto simp: pool_inv_def)
qed

lemma pool_startedI:
  "fresh q \<Longrightarrow> \<forall>d \<in> set items. length d = unat (element_size q) \<Longrightarrow> steady P \<Longrightarrow>
   pool_started P items (pool_start q n items)"
  by (auto simp: pool_started_def)

lemmas reachable_pool_inv = pool.always [OF pool_startedI]

section \<open>The end\<close>

lemma over_threads_zero:
  "(\<And>i. i < length rs \<Longrightarrow> f (rs ! i) (ts ! i) = 0) \<Longrightarrow> over_threads f rs ts = 0"
  by (simp add: over_threads_def)

lemma pool_inv_end:
  assumes inv: "pool_inv P items p" and exit: "roles p ! 0 = Exit c" and workers: "1 < length (roles p)"
  shows "c = exit_code P" and "out p = sent_bytes P p" and "emitted p = word_of_nat (length (sent p))"
    and "mset (sent p) = (\<Sum>d \<in># mset items. mset (msgs (job P d)))" and "mset (finished p) = mset items"
    and "\<And>i. 0 < i \<Longrightarrow> i < length (roles p) \<Longrightarrow> \<exists>z. roles p ! i = Done z"
proof -
  have roles: "roles_inv P p" and out: "out_inv P p" and flow: "flow_inv P items p"
    using inv by (auto simp: pool_inv_def)
  have r0: "role_ok P p 0 (Exit c) (threads (mon p) ! 0)"
    using roles_inv_role [OF roles, of 0] exit roles by (simp add: roles_inv_def)
  then show "c = exit_code P" by (simp add: role_ok_def)
  show don: "\<exists>z. roles p ! i = Done z" if "0 < i" "i < length (roles p)" for i
    using r0 that by (simp add: role_ok_def)
  have all: "roles p ! i = Exit c \<or> (\<exists>z. roles p ! i = Done z)" if "i < length (roles p)" for i
    using exit don [of i] that by (cases i) auto
  from don [of 1] workers obtain z where "roles p ! 1 = Done z" by auto
  then have "over (queue (mon p))" using roles_inv_role [OF roles, of 1] workers by (simp add: role_ok_def)
  then have empty: "elems (queue (mon p)) = []" by (simp add: over_def elems_def)
  have "over_threads waits (roles p) (threads (mon p)) = {#}" "over_threads (\<lambda>r _. in_hand r) (roles p) (threads (mon p)) = {#}"
    "over_threads (\<lambda>r _. mset (rest r)) (roles p) (threads (mon p)) = {#}"
    by (rule over_threads_zero; use all in fastforce)+
  then show "mset (finished p) = mset items" and "mset (sent p) = (\<Sum>d \<in># mset items. mset (msgs (job P d)))"
    using flow empty by (simp_all add: flow_inv_def waiting_def started_def)
  have silent: "silent (roles p ! i)" if "i < length (roles p)" for i
    using all [OF that] by (elim disjE exE) simp_all
  have "out_mutex p \<noteq> Some i" for i
    using out out_ok_silent [OF silent [of i]] unfolding out_inv_def by blast
  then show "out p = sent_bytes P p" using out by (cases "out_mutex p") (auto simp: out_inv_def)
  show "emitted p = word_of_nat (length (sent p))" using out by (simp add: out_inv_def)
qed

section \<open>No deadlock\<close>

text \<open>A thread outside the queue can go on, unless it has ended or waits for another one.\<close>

fun stays :: "'m pool \<Rightarrow> 'm role \<Rightarrow> bool" where
  "stays p (Join chk c k) = True" | "stays p (Exit c) = True" | "stays p (Done c) = True"
| "stays p (Lock d m k) = (out_mutex p \<noteq> None)" | "stays p r = False"

lemma returned_runs:
  assumes roles: "roles_inv P p" and i: "i < length (roles p)" and ret: "returned (threads (mon p) ! i)"
    and go: "\<not> stays p (roles p ! i)"
  shows "\<exists>p'. pool_step P Run p p'"
proof -
  obtain c x where cx: "threads (mon p) ! i = Returned c x" using ret by (rule returnedE)
  have at: "at (mon p) i (Returned c x)" using cx i roles by (auto simp: roles_inv_def)
  then have acts: "acts p i r" if "roles p ! i = r" for r using i that by auto
  have ok: "agree P (queue (mon p)) (roles p ! i) (Returned c x)"
    using roles_inv_role [OF roles i] cx by (simp add: role_ok_def)
  show ?thesis
  proof (cases "roles p ! i")
    case (Feed ds)
    show ?thesis using acts [OF Feed] pool_step.feed [where p = p and i = i] pool_step.feed_end [where p = p and i = i] by (cases ds) blast+
  next
    case (Feeding ds)
    then have "at (mon p) i (Returned 0 x)" using ok at by auto
    then show ?thesis using acts [OF Feeding] pool_step.fed [where p = p and i = i] by blast
  next
    case Popping
    then have "(\<exists>d. at (mon p) i (Returned 0 (Data d))) \<or> at (mon p) i (Returned 1 No_data)"
      using ok at by auto
    moreover have "(1 :: int) \<noteq> 0" by simp
    ultimately show ?thesis
      using acts [OF Popping] pool_step.popped [where p = p and i = i] pool_step.pop_end [where p = p and i = i]
      by blast
  next
    case (User d s)
    show ?thesis using acts [OF User] pool_step.user_end [where p = p and i = i] pool_step.emit [where p = p and i = i] by (cases s) blast+
  next
    case (Lock d m k)
    then have "out_mutex p = None" using go by simp
    then show ?thesis using acts [OF Lock] pool_step.lock_out [where p = p and i = i] by blast
  next
    case (Write d bs m k)
    show ?thesis
    proof (cases bs)
      case Nil
      then show ?thesis using acts [OF Write] pool_step.written [where p = p and i = i] by blast
    next
      case (Cons b bs')
      then show ?thesis using pool_step.write_some [OF acts [OF Write], of 1] by auto
    qed
  next
    case (Close chk c)
    show ?thesis using acts [OF Close] pool_step.close [where p = p and i = i] by blast
  next
    case (Closing chk c')
    show ?thesis using acts [OF Closing] at pool_step.close_done [where p = p and i = i] by blast
  next
    case Start
    show ?thesis using acts [OF Start] pool_step.start [where p = p and i = i] by blast
  next
    case Loop
    show ?thesis using acts [OF Loop] pool_step.pop [where p = p and i = i] by blast
  next
    case Ending
    show ?thesis using acts [OF Ending] pool_step.ending [where p = p and i = i] by blast
  next
    case (Unlock d r m k)
    show ?thesis using acts [OF Unlock] pool_step.unlock_out [where p = p and i = i] by blast
  qed (use go in auto)
qed

text \<open>
  Nothing can be done outside the queue: then nobody holds the mutex of the output, every worker
  waits for an item or has ended, and the controller joins or waits for room.
\<close>

definition stuck :: "'m pool \<Rightarrow> bool" where
  "stuck p \<longleftrightarrow> (\<forall>pc \<in> set (threads (mon p)). resting pc) \<and>
     (\<forall>i < length (roles p). returned (threads (mon p) ! i) \<longrightarrow> stays p (roles p ! i))"

lemma stuck_role:
  assumes "roles_inv P p" and "stuck p" and "i < length (roles p)"
  shows "role_ok P p i (roles p ! i) (threads (mon p) ! i)" and "resting (threads (mon p) ! i)"
    and "returned (threads (mon p) ! i) \<Longrightarrow> stays p (roles p ! i)"
  using assms roles_inv_role [OF assms(1,3)] by (auto simp: stuck_def roles_inv_def)

lemma stuck_unlocked:
  assumes roles: "roles_inv P p" and out: "out_inv P p" and "stuck p"
  shows "out_mutex p = None"
proof (rule ccontr)
  assume "out_mutex p \<noteq> None"
  then obtain h where h: "out_mutex p = Some h" "h < length (roles p)" using out by (auto simp: out_inv_def)
  then have "\<not> silent (roles p ! h)"
    using out out_ok_silent [of "roles p ! h" P p h] by (auto simp: out_inv_def)
  then show False
    using stuck_role [OF roles assms(3) h(2)] by (cases "roles p ! h") (auto simp: role_ok_def)
qed

lemma stuck_worker:
  assumes "roles_inv P p" and "out_inv P p" and "stuck p" and "0 < i" and "i < length (roles p)"
  shows "roles p ! i = Popping \<and> threads (mon p) ! i = Pop_wait \<or> (\<exists>z. roles p ! i = Done z)"
  using stuck_role [OF assms(1,3,5)] stuck_unlocked [OF assms(1-3)] assms(4)
  by (cases "roles p ! i"; cases "threads (mon p) ! i") (auto simp: role_ok_def)

lemma stuck_controller:
  assumes "roles_inv P p" and "stuck p" and "0 < length (roles p)" and "\<nexists>c. roles p ! 0 = Exit c"
  shows "(\<exists>chk c k. roles p ! 0 = Join chk c k) \<or> (\<exists>ds d. roles p ! 0 = Feeding ds \<and> threads (mon p) ! 0 = Push_wait d)"
  using stuck_role [OF assms(1-3)] assms(4)
  by (cases "roles p ! 0"; cases "threads (mon p) ! 0") (auto simp: role_ok_def)

lemma stuck_joins:
  assumes inv: "roles_inv P p" and out: "out_inv P p" and stuck: "stuck p"
    and pos: "0 < length (roles p)" and join: "roles p ! 0 = Join chk c k"
  shows "\<exists>p'. pool_step P Run p p'"
proof -
  have len: "length (roles p) = length (threads (mon p))" and live: "live_inv (mon p)"
    using inv by (auto simp: roles_inv_def)
  have rest: "\<forall>pc \<in> set (threads (mon p)). resting pc" using stuck by (simp add: stuck_def)
  obtain r x where pc: "threads (mon p) ! 0 = Returned r x" and cl: "closed (queue (mon p))" and k: "0 < k"
    using stuck_role(1) [OF inv stuck pos] join by (auto simp: role_ok_def elim: returnedE)
  then have acts: "acts p 0 (Join chk c k)" using join pos len by auto
  show ?thesis
  proof (cases "k < length (roles p)")
    case True
    then have "threads (mon p) ! k \<noteq> Pop_wait"
      using live_inv_rest(1) [OF live rest] cl len by (metis nth_mem)
    then obtain z where "roles p ! k = Done z" using stuck_worker [OF inv out stuck k True] by blast
    then show ?thesis using pool_step.join [OF acts True] by blast
  next
    case False
    then show ?thesis using pool_step.joined [OF acts] by auto
  qed
qed

text \<open>A controller that waits for room leaves the queue full and every worker waiting for an item.\<close>

lemma stuck_feeding:
  assumes inv: "roles_inv P p" and out: "out_inv P p" and stuck: "stuck p"
    and cap: "0 < capacity (queue (mon p))" and workers: "1 < length (roles p)"
    and feeding: "roles p ! 0 = Feeding ds" "threads (mon p) ! 0 = Push_wait d"
  shows False
proof -
  have pos: "0 < length (roles p)" using workers by linarith
  have len: "length (roles p) = length (threads (mon p))" and live: "live_inv (mon p)"
    using inv by (auto simp: roles_inv_def)
  have rest: "\<forall>pc \<in> set (threads (mon p)). resting pc" using stuck by (simp add: stuck_def)
  have "\<not> over (queue (mon p))" using stuck_role(1) [OF inv stuck pos] feeding by (auto simp: role_ok_def over_def)
  then have "roles p ! 1 \<noteq> Done z" for z using stuck_role(1) [OF inv stuck workers] by (auto simp: role_ok_def)
  then have "threads (mon p) ! 1 = Pop_wait" using stuck_worker [OF inv out stuck _ workers] by auto
  then have "Pop_wait \<in> set (threads (mon p))" using workers len by (metis nth_mem)
  then have "elems (queue (mon p)) = []" using live_inv_rest(1) [OF live rest] by blast
  then have empty: "unat (q_count (queue (mon p))) = 0" using length_elems [of "queue (mon p)"] by simp
  have "Push_wait d \<in> set (threads (mon p))" using feeding(2) pos len by (metis nth_mem)
  then have "q_count (queue (mon p)) = capacity (queue (mon p))"
    using live_inv_rest(2) [OF live rest] by blast
  then show False using empty cap by (simp add: unat_eq_zero)
qed

text \<open>Whatever has not been finished can go on.\<close>

lemma pool_progress:
  assumes inv: "pool_inv P items p" and cap: "0 < capacity (queue (mon p))" and workers: "1 < length (roles p)"
    and unfinished: "\<nexists>c. roles p ! 0 = Exit c"
  shows "\<exists>p'. pool_step P Run p p'"
proof -
  have roles: "roles_inv P p" and out: "out_inv P p" using inv by (auto simp: pool_inv_def)
  have pos: "0 < length (roles p)" using workers by linarith
  consider (runs) "\<exists>pc \<in> set (threads (mon p)). \<not> resting pc"
    | (acts) "\<exists>i < length (roles p). returned (threads (mon p) ! i) \<and> \<not> stays p (roles p ! i)" | (stuck) "stuck p"
    by (auto simp: stuck_def)
  then show ?thesis
  proof cases
    case runs
    then obtain i where "i < length (threads (mon p))" "\<not> resting (threads (mon p) ! i)"
      by (auto simp: in_set_conv_nth)
    moreover have "owner_inv (mon p)" using roles by (simp add: roles_inv_def live_inv_def)
    ultimately obtain m' where "step Run (mon p) m'" using not_resting_runs by blast
    then show ?thesis using pool_step.in_queue by blast
  next
    case acts
    then show ?thesis using returned_runs [OF roles] by blast
  next
    case stuck
    from stuck_controller [OF roles stuck pos unfinished] show ?thesis
      using stuck_joins [OF roles out stuck pos] stuck_feeding [OF roles out stuck cap workers] by blast
  qed
qed

section \<open>Termination\<close>

text \<open>
  A bound on the steps a pool still makes: the steps inside the queue (\<open>work\<close>), what each thread has
  ahead of it, and the user's function on every item that still waits.
\<close>

primrec script_work :: "('m \<Rightarrow> byte list) \<Rightarrow> 'm script \<Rightarrow> nat" where
  "script_work f (Return r) = 16"
| "script_work f (Emit m k) = length (f m) + script_work f (k 0) + 4"

fun role_work :: "'m program \<Rightarrow> nat \<Rightarrow> 'm role \<Rightarrow> nat" where
  "role_work P n (Feed ds) = 14 * length ds + (3 * n + 8)"
| "role_work P n (Feeding ds) = 14 * length ds + (3 * n + 9)"
| "role_work P n (Close chk c) = 3 * n + 7" | "role_work P n (Closing chk c) = n + 2"
| "role_work P n (Join chk c k) = Suc (n - k)" | "role_work P n (Exit c) = 0"
| "role_work P n Start = 16" | "role_work P n Loop = 15" | "role_work P n Popping = 2"
| "role_work P n Ending = 1" | "role_work P n (Done c) = 0"
| "role_work P n (User d s) = script_work (bytes P) s"
| "role_work P n (Lock d m k) = length (bytes P m) + script_work (bytes P) (k 0) + 3"
| "role_work P n (Write d bs m k) = length bs + script_work (bytes P) (k 0) + 2"
| "role_work P n (Unlock d r m k) = script_work (bytes P) (k 0) + 1"

abbreviation items_work :: "'m program \<Rightarrow> byte list multiset \<Rightarrow> nat" where
  "items_work P M \<equiv> \<Sum>d \<in># M. script_work (bytes P) (job P d)"

definition pool_work :: "'m program \<Rightarrow> 'm pool \<Rightarrow> nat" where
  "pool_work P p = work (mon p) + over_threads (\<lambda>r _. role_work P (length (roles p)) r) (roles p) (threads (mon p)) +
     items_work P (waiting p)"

lemma work_goto_returned:
  "at m i (Returned r x) \<Longrightarrow> work (m\<lparr>threads := (threads m)[i := pc]\<rparr>) = work m + weight (length (threads m)) pc"
  using sum_list_weight_update [of i "threads m" "weight (length (threads m))" pc] by (simp add: work_def)

lemma pool_work_change:
  assumes i: "i < length (roles p)" and len: "length (roles p) = length (threads (mon p))"
    and old: "threads (mon p) ! i = Returned c x"
    and p': "roles p' = (roles p)[i := r]" "mon p' = (mon p)\<lparr>threads := (threads (mon p))[i := pc]\<rparr>"
    and less: "weight (length (roles p)) pc + role_work P (length (roles p)) r + items_work P (waits r pc) <
      role_work P (length (roles p)) (roles p ! i) + items_work P (waits (roles p ! i) (Returned c x))"
  shows "pool_work P p' < pool_work P p"
proof -
  let ?n = "length (roles p)" and ?ts = "threads (mon p)"
  have pc: "?ts[i := pc] ! i = pc" using i len by simp
  have "over_threads waits (roles p') (threads (mon p')) + waits (roles p ! i) (Returned c x) =
      over_threads waits (roles p) ?ts + waits r pc"
    using over_threads_update [OF i, of waits r ?ts pc] by (simp add: p' pc old)
  from arg_cong [OF this, of "items_work P"]
  have W: "items_work P (over_threads waits (roles p') (threads (mon p'))) + items_work P (waits (roles p ! i) (Returned c x)) =
      items_work P (over_threads waits (roles p) ?ts) + items_work P (waits r pc)" by simp
  have R: "over_threads (\<lambda>r _. role_work P ?n r) (roles p') (threads (mon p')) + role_work P ?n (roles p ! i) =
      over_threads (\<lambda>r _. role_work P ?n r) (roles p) ?ts + role_work P ?n r"
    using over_threads_update [OF i, of "\<lambda>r _. role_work P ?n r" r ?ts pc] by (simp add: p')
  have "work (mon p') = work (mon p) + weight ?n pc"
    using work_goto_returned [where m = "mon p" and i = i and pc = pc] i len old p' by simp
  then show ?thesis
    using W R less p' by (simp add: pool_work_def waiting_def)
qed

lemma thread_step_work:
  assumes "thread_step P n r (Returned c x) r' pc fs ms"
  shows "weight n pc + role_work P n r' + items_work P (waits r' pc) < role_work P n r + items_work P (waits r (Returned c x))"
  using assms by (cases rule: thread_step.cases) simp_all

lemma run_pool_work:
  assumes "pool_step P Run p p'" and inv: "pool_inv P items p"
  shows "pool_work P p' < pool_work P p"
proof -
  have roles: "roles_inv P p" using inv by (simp add: pool_inv_def)
  then have len: "length (roles p) = length (threads (mon p))" by (simp add: roles_inv_def)
  have "Run \<in> smooth" by simp
  from assms(1) this roles show ?thesis
  proof (cases rule: pool_step_thread)
    case (queue m')
    show ?thesis using queue_waiting [OF queue(1) _ roles] run_work [OF queue(1)] queue(3) by (simp add: pool_work_def over_threads_def)
  next
    case (thread i r pc c x fs ms)
    show ?thesis by (rule pool_work_change [OF thread(2) len thread(3,5,6) thread_step_work [OF thread(4)]])
  qed
qed

lemma pool_runs_bounded:
  "(pool_step P Run ^^ k) p p' \<Longrightarrow> pool_inv P items p \<Longrightarrow> k + pool_work P p' \<le> pool_work P p \<and> pool_inv P items p'"
proof (induction k arbitrary: p')
  case (Suc k)
  then obtain p'' where p'': "(pool_step P Run ^^ k) p p''" "pool_step P Run p'' p'" by auto
  then have inv: "k + pool_work P p'' \<le> pool_work P p" "pool_inv P items p''" using Suc by auto
  have "pool_inv P items p'" by (rule pool.step_inv [OF _ inv(2) p''(2)]) simp
  then show ?case using run_pool_work [OF p''(2) inv(2)] inv(1) by simp
qed simp

text \<open>From every state satisfying the invariant the steps lead to the end.\<close>

lemma pool_inv_finishes:
  assumes "pool_inv P items p" and "0 < capacity (queue (mon p))" and "1 < length (roles p)"
  shows "\<exists>p' c. (pool_step P Run)\<^sup>*\<^sup>* p p' \<and> roles p' ! 0 = Exit c \<and> pool_inv P items p' \<and> length (roles p') = length (roles p)"
  using assms
proof (induction "pool_work P p" arbitrary: p rule: less_induct)
  case less
  show ?case
  proof (cases "\<exists>c. roles p ! 0 = Exit c")
    case True
    then show ?thesis using less.prems(1) by blast
  next
    case False
    then obtain p' where p': "pool_step P Run p p'" using pool_progress [OF less.prems] by blast
    have inv: "pool_inv P items p'" by (rule pool.step_inv [OF _ less.prems(1) p']) simp
    have same: "capacity (queue (mon p')) = capacity (queue (mon p))" "length (roles p') = length (roles p)"
      using p' by (cases rule: pool_step.cases; auto dest: step_capacity)+
    show ?thesis
      using less.hyps [OF run_pool_work [OF p' less.prems(1)] inv] less.prems same converse_rtranclp_into_rtranclp [of "pool_step P Run", OF p']
      by metis
  qed
qed

lemma runs_reachable: "(stp Run)\<^sup>*\<^sup>* p p' \<Longrightarrow> reachable stp smooth q p \<Longrightarrow> reachable stp smooth q p'"
  by (induction rule: rtranclp_induct) (auto intro: reachable_step)

lemma reachable_pool_fixed:
  "reachable (pool_step P) ls p p' \<Longrightarrow>
   capacity (queue (mon p')) = capacity (queue (mon p)) \<and> length (roles p') = length (roles p)"
proof (induction rule: reachable.induct)
  case (reachable_step m m' l m'')
  from this(3) have "capacity (queue (mon m'')) = capacity (queue (mon m')) \<and> length (roles m'') = length (roles m')"
    by (cases rule: pool_step.cases) (auto dest: step_capacity)
  then show ?case using reachable_step.IH by simp
qed simp

lemma pool_start_simps [simp]:
  "queue (mon (pool_start q n items)) = q" "length (roles (pool_start q n items)) = Suc n"
  by (simp_all add: pool_start_def start_def)

section \<open>Properties\<close>

text \<open>C34. However the threads of a pool are scheduled, without failed calls it ends: from every
  reachable state the exit is reachable, and no run is longer than a bound, so there is neither
  deadlock nor livelock. The workers' job must not make them give up.\<close>

theorem pool_finishes:
  assumes "fresh q" and "0 < capacity q" and "\<forall>d \<in> set items. length d = unat (element_size q)"
    and "steady P" and "0 < n" and "reachable (pool_step P) smooth (pool_start q n items) p"
  shows "(\<exists>p'. (pool_step P Run)\<^sup>*\<^sup>* p p' \<and> roles p' ! 0 = Exit (exit_code P)) \<and> (\<exists>N. \<nexists>p'. (pool_step P Run ^^ N) p p')"
proof -
  have inv: "pool_inv P items p" by (rule reachable_pool_inv [OF assms(1,3,4,6)])
  have fixed: "capacity (queue (mon p)) = capacity q" "1 < length (roles p)"
    using reachable_pool_fixed [OF assms(6)] assms(5) by auto
  obtain p' c where p': "(pool_step P Run)\<^sup>*\<^sup>* p p'" "roles p' ! 0 = Exit c" "pool_inv P items p'" "1 < length (roles p')"
    using pool_inv_finishes [OF inv] fixed assms(2) by auto
  moreover have "c = exit_code P" by (rule pool_inv_end(1) [OF p'(3,2,4)])
  moreover have "\<nexists>p'. (pool_step P Run ^^ Suc (pool_work P p)) p p'"
    using pool_runs_bounded [OF _ inv] by fastforce
  ultimately show ?thesis by blast
qed

lemma pool_exit:
  assumes "fresh q" and "\<forall>d \<in> set items. length d = unat (element_size q)" and "steady P" and "0 < n"
    and "reachable (pool_step P) smooth (pool_start q n items) p" and "roles p ! 0 = Exit c"
  shows "c = exit_code P \<and> out p = concat (map (bytes P) (sent p)) \<and> emitted p = word_of_nat (length (sent p)) \<and>
    mset (sent p) = (\<Sum>d \<in># mset items. mset (msgs (job P d))) \<and> mset (finished p) = mset items"
proof -
  have "1 < length (roles p)" using reachable_pool_fixed [OF assms(5)] assms(4) by simp
  from pool_inv_end [OF reachable_pool_inv [OF assms(1,2,3,5)] assms(6) this] show ?thesis by blast
qed


lemma out_inv_whole:
  assumes out: "out_inv P p"
  obtains w where "out p = sent_bytes P p @ w"
    and "w = [] \<or> (\<exists>i d bs m k. out_mutex p = Some i \<and> roles p ! i = Write d bs m k \<and> bytes P m = w @ bs)"
proof (cases "out_mutex p")
  case None
  then show ?thesis using out that [of "[]"] by (simp add: out_inv_def)
next
  case (Some i)
  then have ok: "out_ok P p i (roles p ! i)" using out by (simp add: out_inv_def)
  show ?thesis
  proof (cases "roles p ! i")
    case (Write d bs m k)
    then obtain w where "bytes P m = w @ bs" "out p = sent_bytes P p @ w" using ok by auto
    with Some Write show ?thesis using that by blast
  qed (use ok Some that [of "[]"] in auto)
qed


text \<open>A pool of one worker whose job emits one message for each of two items.\<close>

definition example_program :: "byte program" where
  "example_program = \<lparr>job = (\<lambda>d. Emit (hd d) Return), bytes = (\<lambda>b. [b, b]), after_user = (\<lambda>r. Loop),
     after_push_error = Feed, exit_code = 0\<rparr>"

lemma example_program_steady: "steady example_program"
  by (simp add: steady_def example_program_def)

theorem pool_finishes_witness:
  "\<exists>p. (pool_step example_program Run)\<^sup>*\<^sup>* (pool_start example_queue 1 [[5], [6]]) p \<and> roles p ! 0 = Exit 0"
  using pool_finishes [of example_queue "[[5], [6]]" example_program 1 "pool_start example_queue 1 [[5], [6]]"]
    example_queue_fresh example_program_steady
  by (auto simp: example_queue_def example_program_def intro: reachable_refl)

lemma example_run_ends:
  "\<exists>p. reachable (pool_step example_program) smooth (pool_start example_queue 1 [[5], [6]]) p \<and> roles p ! 0 = Exit 0"
proof -
  let ?p = "pool_start example_queue 1 [[5], [6]] :: byte pool"
  have sizes: "\<forall>d \<in> set [[5], [6]]. length d = unat (element_size example_queue)" by (simp add: example_queue_def)
  have inv: "pool_inv example_program [[5], [6]] ?p"
    by (rule pool_start_inv [OF example_queue_fresh sizes example_program_steady])
  obtain p c where p: "(pool_step example_program Run)\<^sup>*\<^sup>* ?p p" "roles p ! 0 = Exit c"
      "pool_inv example_program [[5], [6]] p" "1 < length (roles p)"
    using pool_inv_finishes [OF inv] by (auto simp: example_queue_def)
  have "c = 0" using pool_inv_end(1) [OF p(3,2,4)] by (simp add: example_program_def)
  moreover have "reachable (pool_step example_program) smooth ?p p"
    by (rule runs_reachable, rule p(1), rule reachable_refl)
  ultimately show ?thesis using p(2) by (intro exI [of _ p]) simp
qed



end
