(* ===== verification/Mr_Pool_Spec.thy ===== *)
theory Mr_Pool_Spec
  imports Mr_Pool_Run
begin

text \<open>
  The specification of the worker pool: idle workers take items, in any order, and say the messages
  of the user's function one by one into a common log. The threads of \<open>Mr_Pool\<close>, with the queue
  between them, their locks and their partial writes, refine it.
\<close>

section \<open>The farm\<close>

record 'm farm =
  pending :: "byte list multiset"
  busy :: "(byte list \<times> 'm script) option list"    \<comment> \<open>per thread: the item, what is left of its script\<close>
  log :: "'m list"
  completed :: "byte list list"

abbreviation farmer :: "'m farm \<Rightarrow> nat \<Rightarrow> (byte list \<times> 'm script) option \<Rightarrow> bool" where
  "farmer f i b \<equiv> i < length (busy f) \<and> busy f ! i = b"

inductive farm_step :: "(byte list \<Rightarrow> 'm script) \<Rightarrow> label \<Rightarrow> 'm farm \<Rightarrow> 'm farm \<Rightarrow> bool" for jb where
  take_item: "farmer f i None \<Longrightarrow> pending f = add_mset d ds \<Longrightarrow>
    farm_step jb Run f (f\<lparr>pending := ds, busy := (busy f)[i := Some (d, jb d)]\<rparr>)"
| say: "farmer f i (Some (d, Emit m k)) \<Longrightarrow>
    farm_step jb Run f (f\<lparr>busy := (busy f)[i := Some (d, k 0)], log := log f @ [m]\<rparr>)"
| complete: "farmer f i (Some (d, Return r)) \<Longrightarrow>
    farm_step jb Run f (f\<lparr>busy := (busy f)[i := None], completed := completed f @ [d]\<rparr>)"

definition farm_start :: "byte list list \<Rightarrow> nat \<Rightarrow> 'm farm" where
  "farm_start ds n = \<lparr>pending = mset ds, busy = replicate (Suc n) None, log = [], completed = []\<rparr>"

section \<open>The abstraction\<close>

fun busy_of :: "'m role \<Rightarrow> (byte list \<times> 'm script) option" where
  "busy_of (User d s) = Some (d, s)"
| "busy_of (Lock d m k) = Some (d, Emit m k)"
| "busy_of (Write d bs m k) = Some (d, Emit m k)"
| "busy_of (Unlock d r m k) = Some (d, k r)"
| "busy_of r = None"

definition farm_of :: "'m pool \<Rightarrow> 'm farm" where
  "farm_of p = \<lparr>pending = waiting p, busy = map busy_of (roles p), log = sent p, completed = finished p\<rparr>"

lemma farm_of_start: "fresh q \<Longrightarrow> farm_of (pool_start q n ds) = farm_start ds n"
proof -
  assume "fresh q"
  then have empty: "elems q = []" by (simp add: fresh_def elems_def)
  have "over_threads waits (Feed ds # replicate n Start) (replicate (Suc n) (Returned 0 No_data)) = mset ds"
    by (simp add: over_threads_def sum.lessThan_Suc_shift del: sum.lessThan_Suc)
  then show ?thesis
    by (simp add: farm_of_def farm_start_def pool_start_def start_def waiting_def empty)
qed

lemma farmer_of: "acts p i r \<Longrightarrow> farmer (farm_of p) i (busy_of r)"
  by (auto simp: farm_of_def)

text \<open>A thread that changes its role: the items that wait, before and after.\<close>

lemma waiting_change:
  assumes "i < length (roles p)" and "length (roles p) = length (threads (mon p))"
    and "roles p' = (roles p)[i := r]" and "threads (mon p') = (threads (mon p))[i := pc]" and "queue (mon p') = queue (mon p)"
  shows "waiting p' + waits (roles p ! i) (threads (mon p) ! i) = waiting p + waits r pc"
  using over_threads_update [OF assms(1), of waits r "threads (mon p)" pc] assms
  by (simp add: waiting_def ac_simps)

lemma farm_same:
  assumes "i < length (roles p)" and "length (roles p) = length (threads (mon p))"
    and "roles p' = (roles p)[i := r]" and "threads (mon p') = (threads (mon p))[i := pc]" and "queue (mon p') = queue (mon p)"
    and "sent p' = sent p" and "finished p' = finished p"
    and "waits r pc = waits (roles p ! i) (threads (mon p) ! i)" and "busy_of r = busy_of (roles p ! i)"
  shows "farm_of p' = farm_of p"
proof -
  have "waiting p' = waiting p" using waiting_change [OF assms(1-5)] assms(8) by simp
  moreover have "map busy_of (roles p') = map busy_of (roles p)"
    using assms(1,3,9) by (auto simp: map_update list_update_same_conv)
  ultimately show ?thesis using assms(6,7) by (simp add: farm_of_def)
qed

lemma step_farms:
  assumes "pool_step P l p p'" and "l \<in> smooth" and inv: "pool_inv P ds p"
  shows "farm_of p' = farm_of p \<or> farm_step (job P) l (farm_of p) (farm_of p')"
proof -
  have roles: "roles_inv P p" using inv by (simp add: pool_inv_def)
  have len: "length (roles p) = length (threads (mon p))" using roles by (simp add: roles_inv_def)
  show ?thesis
    using assms(1,2) roles
  proof (cases rule: pool_step_thread)
    case (queue m')
    show ?thesis using queue_waiting [OF queue(1) assms(2) roles] queue(3) by (simp add: farm_of_def)
  next
    case (thread i r pc c x fs ms)
    have wait: "waiting p' + waits (roles p ! i) (Returned c x) = waiting p + waits r pc"
      using waiting_change [OF thread(2) len thread(5), of pc] thread(3,6) by simp
    have farm: "farm_of p' = \<lparr>pending = waiting p', busy = (busy (farm_of p))[i := busy_of r],
        log = log (farm_of p) @ ms, completed = completed (farm_of p) @ fs\<rparr>"
      by (simp add: farm_of_def thread(5,7,8) map_update)
    have farmer: "farmer (farm_of p) i (busy_of (roles p ! i))" using thread(2) by (simp add: farm_of_def)
    have pending: "pending (farm_of p) = waiting p" by (simp add: farm_of_def)
    have same: "farm_of p' = farm_of p" if "waits r pc = waits (roles p ! i) (Returned c x)"
      "busy_of r = busy_of (roles p ! i)" "fs = []" "ms = []"
      by (rule farm_same [OF thread(2) len thread(5), of pc]) (use that thread(3,6,7,8) in simp_all)
    from thread(4) show ?thesis
    proof (cases rule: thread_step.cases)
      case (ts_popped d)
      then have "pending (farm_of p) = add_mset d (waiting p')" using wait pending by simp
      from take_item [OF _ this, of i "job P"] show ?thesis using farmer thread(1)
        by (simp add: farm ts_popped) (simp add: farm_of_def)
    next
      case (ts_written d m k)
      then show ?thesis using say [of i "farm_of p" d m k "job P"] farmer thread(1) wait pending
        by (simp add: farm) (simp add: farm_of_def)
    next
      case (ts_user_end d r)
      then show ?thesis using complete [of i "farm_of p" d r "job P"] farmer thread(1) wait pending
        by (simp add: farm) (simp add: farm_of_def)
    qed (use same in simp_all)
  qed
qed

section \<open>Refinement\<close>

interpretation pool_farm: machine_refinement "pool_step P" smooth "pool_started P ds" "pool_inv P ds" "farm_step (job P)" farm_of for P ds
  by unfold_locales (rule step_farms)

text \<open>C13. The worker pool refines the farm: as long as no call fails, whatever the interleaving of controller,
  workers, queue and output mutex, its steps are those of workers that take a pending item at once,
  append their messages to the log one at a time and complete the item, or are not visible there;
  the log of the farm is what the output holds, but for the part of one message.\<close>

theorem pool_refines_farm:
  assumes "fresh q" and "\<forall>d \<in> set ds. length d = unat (element_size q)" and "steady P"
    and "reachable (pool_step P) smooth (pool_start q n ds) p"
  shows "reachable (farm_step (job P)) smooth (farm_start ds n) (farm_of p) \<and>
    prefix (concat (map (bytes P) (log (farm_of p)))) (out p)"
proof
  have start: "pool_started P ds (pool_start q n ds)" by (rule pool_startedI [OF assms(1-3)])
  show "reachable (farm_step (job P)) smooth (farm_start ds n) (farm_of p)"
    using pool_farm.refines [OF start assms(4)] unfolding farm_of_start [OF assms(1)] .
  have "out_inv P p" using pool.always [OF start assms(4)] by (simp add: pool_inv_def)
  then show "prefix (concat (map (bytes P) (log (farm_of p)))) (out p)"
    by (rule out_inv_whole) (simp add: farm_of_def)
qed

theorem pool_refines_farm_witness:
  "\<exists>f :: byte farm. reachable (farm_step (job example_program)) smooth (farm_start [[5], [6]] 1) f \<and> mset (log f) = {#5, 6#}"
proof -
  from example_run_ends obtain p where
    p: "reachable (pool_step example_program) smooth (pool_start example_queue 1 [[5], [6]]) p" "roles p ! 0 = Exit 0"
    by blast
  have ds: "\<forall>d \<in> set [[5], [6]]. length d = unat (element_size example_queue)" by (simp add: example_queue_def)
  have "mset (log (farm_of p)) = {#5, 6#}"
    using pool_exit [OF example_queue_fresh ds example_program_steady _ p] by (simp add: farm_of_def example_program_def)
  with pool_refines_farm [OF example_queue_fresh ds example_program_steady p(1)] show ?thesis by blast
qed

end
