(* ===== verification/Mr_Pool_Example.thy ===== *)
theory Mr_Pool_Example
  imports Mr_Pool_Run
begin

text \<open>
  Step by step runs of a pool with one worker, for the properties that need a concrete schedule: the
  controller pushes the item \<open>[1]\<close> and the worker takes it.
\<close>

text \<open>
  The controller is at \<open>c\<close> in its role \<open>r\<close>, the worker at \<open>v\<close> in \<open>w\<close>; \<open>nh\<close> is the number of
  elements in the queue and what happened to it.
\<close>

definition tiny_pool ::
    "'m role \<Rightarrow> pc \<Rightarrow> 'm role \<Rightarrow> pc \<Rightarrow> nat option \<Rightarrow> size_t \<times> byte list event list \<Rightarrow> byte list list \<Rightarrow> 'm pool" where
  "tiny_pool r c w v mx nh fin =
     \<lparr>mon = \<lparr>queue = example_queue\<lparr>q_count := fst nh, buffer := (if snd nh = [] then [0, 0] else [1, 0])\<rparr>,
        mutex = mx, threads = [c, v], history = snd nh\<rparr>,
      roles = [r, w], out_mutex = None, out = [], emitted = 0, sent = [], finished = fin\<rparr>"

abbreviation idle :: pc where "idle \<equiv> Returned 0 No_data"
abbreviation pushed1 :: "size_t \<times> byte list event list" where "pushed1 \<equiv> (1, [Pushed [1]])"
abbreviation popped1 :: "size_t \<times> byte list event list" where "popped1 \<equiv> (0, [Pushed [1], Popped [1]])"

lemmas tiny_defs = tiny_pool_def example_queue_def store_def push_data_def pop_data_def Let_def

lemma tiny_start: "pool_start example_queue 1 items = tiny_pool (Feed items) idle Start idle None (0, []) []"
  by (simp add: pool_start_def start_def tiny_pool_def example_queue_def)

text \<open>The steps inside the queue: the push, whose signal may fail, and the pop.\<close>

lemma tiny_push:
  fixes r w :: "'m role"
  shows "step Run (mon (tiny_pool r (Push_enter [1]) w v None (0, []) fin)) (mon (tiny_pool r (Push_test [1]) w v (Some 0) (0, []) fin))"
    and "step Run (mon (tiny_pool r (Push_test [1]) w v (Some 0) (0, []) fin)) (mon (tiny_pool r Push_signal w v (Some 0) pushed1 fin))"
    and "step Run (mon (tiny_pool r Push_signal w idle (Some 0) pushed1 fin)) (mon (tiny_pool r (Leave 0 No_data) w idle (Some 0) pushed1 fin))"
    and "step Fail (mon (tiny_pool r Push_signal w v (Some 0) pushed1 fin)) (mon (tiny_pool r (Leave (-1) No_data) w v (Some 0) pushed1 fin))"
    and "step Run (mon (tiny_pool r (Leave res No_data) w v (Some 0) pushed1 fin)) (mon (tiny_pool r (Returned res No_data) w v None pushed1 fin))"
  using step.push_lock [of 0 "mon (tiny_pool r (Push_enter [1]) w v None (0, []) fin)" "[1]"]
    step.push_store [of 0 "mon (tiny_pool r (Push_test [1]) w v (Some 0) (0, []) fin)" "[1]"]
    step.push_signal_none [of 0 "mon (tiny_pool r Push_signal w idle (Some 0) pushed1 fin)"]
    step.push_signal_fail [of 0 "mon (tiny_pool r Push_signal w v (Some 0) pushed1 fin)"]
    step.leave [of 0 "mon (tiny_pool r (Leave res No_data) w v (Some 0) pushed1 fin)" res No_data]
  by (simp_all add: tiny_defs)

lemma tiny_pop:
  fixes r w :: "'m role"
  shows "step Run (mon (tiny_pool r (Returned z No_data) w Pop_enter None pushed1 fin)) (mon (tiny_pool r (Returned z No_data) w Pop_test (Some 1) pushed1 fin))"
    and "step Run (mon (tiny_pool r (Returned z No_data) w Pop_test (Some 1) pushed1 fin)) (mon (tiny_pool r (Returned z No_data) w (Pop_signal [1]) (Some 1) popped1 fin))"
    and "step Run (mon (tiny_pool r (Returned z No_data) w (Pop_signal [1]) (Some 1) popped1 fin)) (mon (tiny_pool r (Returned z No_data) w (Leave 0 (Data [1])) (Some 1) popped1 fin))"
    and "step Run (mon (tiny_pool r (Returned z No_data) w (Leave 0 (Data [1])) (Some 1) popped1 fin)) (mon (tiny_pool r (Returned z No_data) w (Returned 0 (Data [1])) None popped1 fin))"
  using step.pop_lock [of 1 "mon (tiny_pool r (Returned z No_data) w Pop_enter None pushed1 fin)"]
    step.pop_take [of 1 "mon (tiny_pool r (Returned z No_data) w Pop_test (Some 1) pushed1 fin)" "[1]"]
    step.pop_signal_none [of 1 "mon (tiny_pool r (Returned z No_data) w (Pop_signal [1]) (Some 1) popped1 fin)" "[1]"]
    step.leave [of 1 "mon (tiny_pool r (Returned z No_data) w (Leave 0 (Data [1])) (Some 1) popped1 fin)" 0 "Data [1]"]
  by (simp_all add: tiny_defs)

text \<open>The steps outside the queue.\<close>

lemma tiny_roles:
  shows "pool_step P Run (tiny_pool (Feed ([1] # ds)) idle w v mx nh fin) (tiny_pool (Feeding ds) (Push_enter [1]) w v mx nh fin)"
    and "pool_step P Run (tiny_pool (Feeding ds) (Returned (-1) No_data) w v mx nh fin) (tiny_pool (after_push_error P ds) (Returned (-1) No_data) w v mx nh fin)"
    and "pool_step P Run (tiny_pool r c Start idle mx nh fin) (tiny_pool r c Loop idle mx nh fin)"
    and "pool_step P Run (tiny_pool r c Loop idle mx nh fin) (tiny_pool r c Popping Pop_enter mx nh fin)"
    and "pool_step P Run (tiny_pool r c Popping (Returned 0 (Data [1])) mx nh fin) (tiny_pool r c (User [1] (job P [1])) (Returned 0 (Data [1])) mx nh fin)"
    and "job P [1] = Return z \<Longrightarrow> pool_step P Run (tiny_pool r c (User [1] (job P [1])) (Returned 0 (Data [1])) mx nh fin)
      (tiny_pool r c (after_user P z) (Returned 0 (Data [1])) mx nh (fin @ [[1]]))"
  using pool_step.feed [of 0 "tiny_pool (Feed ([1] # ds)) idle w v mx nh fin" "[1]" ds P]
    pool_step.fed_error [of 0 "tiny_pool (Feeding ds) (Returned (-1) No_data) w v mx nh fin" ds No_data P]
    pool_step.start [of 1 "tiny_pool r c Start idle mx nh fin" P]
    pool_step.pop [of 1 "tiny_pool r c Loop idle mx nh fin" P]
    pool_step.popped [of 1 "tiny_pool r c Popping (Returned 0 (Data [1])) mx nh fin" "[1]" P]
    pool_step.user_end [of 1 "tiny_pool r c (User [1] (job P [1])) (Returned 0 (Data [1])) mx nh fin" "[1]" z P]
  by (simp_all add: tiny_pool_def)

lemma tiny_in_queue:
  assumes "step l (mon (tiny_pool r c w v mx nh fin)) (mon (tiny_pool r c' w v' mx' nh' fin))" and "l \<in> ls" and "l \<noteq> Call"
    and "reachable (pool_step P) ls q (tiny_pool r c w v mx nh fin)"
  shows "reachable (pool_step P) ls q (tiny_pool r c' w v' mx' nh' fin)"
proof -
  have "tiny_pool r c' w v' mx' nh' fin = tiny_pool r c w v mx nh fin\<lparr>mon := mon (tiny_pool r c' w v' mx' nh' fin)\<rparr>"
    by (simp add: tiny_pool_def)
  then show ?thesis using pool_step.in_queue [OF assms(1,3), of P] reachable_step [OF assms(4,2)] by simp
qed

text \<open>Feeding the item, with the push's result \<open>res\<close>, and processing it.\<close>

lemma tiny_feeds:
  assumes "Run \<in> ls" and "res = 0 \<or> res = -1 \<and> Fail \<in> ls"
  shows "reachable (pool_step P) ls (pool_start example_queue 1 ([1] # ds))
    (tiny_pool (Feeding ds) (Returned res No_data) Start idle None pushed1 [])"
proof -
  let ?q = "pool_start example_queue 1 ([1] # ds)"
  note go = tiny_in_queue [where P = P and ls = ls and q = ?q]
  have run: "Run \<in> ls" "Run \<noteq> Call" "Fail \<noteq> Call" using assms(1) by simp_all
  have "reachable (pool_step P) ls ?q (tiny_pool (Feeding ds) (Push_enter [1]) Start idle None (0, []) [])"
    unfolding tiny_start by (rule reachable_step, rule reachable_refl, rule run(1), rule tiny_roles(1))
  from go [OF tiny_push(2) run(1,2) go [OF tiny_push(1) run(1,2) this]]
  have stored: "reachable (pool_step P) ls ?q (tiny_pool (Feeding ds) Push_signal Start idle (Some 0) pushed1 [])" .
  have "reachable (pool_step P) ls ?q (tiny_pool (Feeding ds) (Leave res No_data) Start idle (Some 0) pushed1 [])"
    using assms(2) go [OF tiny_push(3) run(1,2) stored] go [OF tiny_push(4) _ run(3) stored] by auto
  from go [OF tiny_push(5) run(1,2) this] show ?thesis .
qed

lemma tiny_processes:
  assumes "Run \<in> ls" and "job P [1] = Return z"
    and "reachable (pool_step P) ls q (tiny_pool r (Returned res No_data) Start idle None pushed1 [])"
  shows "reachable (pool_step P) ls q
    (tiny_pool r (Returned res No_data) (after_user P z) (Returned 0 (Data [1])) None popped1 [[1]])"
proof -
  note go = tiny_in_queue [where P = P and ls = ls and q = q] and run = reachable_step [OF _ assms(1), of "pool_step P" q]
  have n: "Run \<noteq> Call" by simp
  from run [OF run [OF assms(3) tiny_roles(3)] tiny_roles(4)]
  have "reachable (pool_step P) ls q (tiny_pool r (Returned res No_data) Popping Pop_enter None pushed1 [])" .
  from go [OF tiny_pop(4) assms(1) n go [OF tiny_pop(3) assms(1) n go [OF tiny_pop(2) assms(1) n go [OF tiny_pop(1) assms(1) n this]]]]
  have "reachable (pool_step P) ls q (tiny_pool r (Returned res No_data) Popping (Returned 0 (Data [1])) None popped1 [])" .
  from run [OF run [OF this tiny_roles(5)] tiny_roles(6) [OF assms(2)]] show ?thesis by simp
qed

end
