(* ===== verification/Mr_Wire.thy ===== *)
theory Mr_Wire
  imports Mr_Prelude
begin

text \<open>
  The fixed-size headers of \<open>src/protocol.h\<close> and their bytes on a pipe: the object
  representation of each struct on the LP64 little-endian platform. A \<open>bool\<close> takes one byte and
  the seven bytes of padding after it have no determined value, so they are a parameter of the
  encoding and are ignored by the decoding.
\<close>

section \<open>The interface of a header\<close>

text \<open>
  What reading a header relies on: the encoding has a fixed size and decoding undoes it. The
  headers are then self-delimiting, and a buffer that receives the bytes of one decodes to it.
\<close>

locale header_codec =
  fixes enc :: "'h \<Rightarrow> byte list" and dec :: "byte list \<Rightarrow> 'h" and sz :: nat
  assumes length_enc: "length (enc h) = sz"
    and dec_enc: "dec (enc h) = h"
begin

lemma take_enc: "take sz (enc h @ rest) = enc h"
  by (simp add: length_enc)

lemma drop_enc: "drop sz (enc h @ rest) = rest"
  by (simp add: length_enc)

lemma dec_buffer: "length buf = sz \<Longrightarrow> dec (take sz (enc h @ rest) @ drop sz buf) = h"
  by (simp add: length_enc dec_enc)

lemma self_delimiting: "enc h @ r = enc h' @ r' \<Longrightarrow> h = h' \<and> r = r'"
  by (metis append_eq_append_conv dec_enc length_enc)

lemma min_size: "min sz (length (enc h @ rest)) = sz"
  by (simp add: length_enc)

end

section \<open>The headers\<close>

record mr_file_name_header_t =
  file_name_length :: size_t

record mr_line_header_t =
  eof :: bool
  line_length :: size_t

record mr_pair_header_t =
  ph_token_length :: size_t
  ph_value_length :: size_t

record mr_result_header_t =
  rh_token_length :: size_t
  rh_result_size :: size_t

definition enc_file_name_header :: "mr_file_name_header_t \<Rightarrow> byte list" where
  "enc_file_name_header h = enc_size (file_name_length h)"

definition dec_file_name_header :: "byte list \<Rightarrow> mr_file_name_header_t" where
  "dec_file_name_header bs = \<lparr>file_name_length = dec_size (take 8 bs)\<rparr>"

text \<open>\<open>pad\<close>: the padding; only its first seven bytes count, and missing ones read as zero.\<close>

definition padding :: "byte list \<Rightarrow> byte list" where
  "padding pad = take 7 (pad @ replicate 7 0)"

lemma length_padding [simp]: "length (padding pad) = 7"
  by (simp add: padding_def)

definition enc_line_header :: "byte list \<Rightarrow> mr_line_header_t \<Rightarrow> byte list" where
  "enc_line_header pad h = (if eof h then 1 else 0) # padding pad @ enc_size (line_length h)"

definition dec_line_header :: "byte list \<Rightarrow> mr_line_header_t" where
  "dec_line_header bs = \<lparr>eof = (bs ! 0 \<noteq> 0), line_length = dec_size (take 8 (drop 8 bs))\<rparr>"

definition enc_pair_header :: "mr_pair_header_t \<Rightarrow> byte list" where
  "enc_pair_header h = enc_size (ph_token_length h) @ enc_size (ph_value_length h)"

definition dec_pair_header :: "byte list \<Rightarrow> mr_pair_header_t" where
  "dec_pair_header bs =
     \<lparr>ph_token_length = dec_size (take 8 bs), ph_value_length = dec_size (take 8 (drop 8 bs))\<rparr>"

definition enc_result_header :: "mr_result_header_t \<Rightarrow> byte list" where
  "enc_result_header h = enc_size (rh_token_length h) @ enc_size (rh_result_size h)"

definition dec_result_header :: "byte list \<Rightarrow> mr_result_header_t" where
  "dec_result_header bs =
     \<lparr>rh_token_length = dec_size (take 8 bs), rh_result_size = dec_size (take 8 (drop 8 bs))\<rparr>"

text \<open>The sizes \<open>sizeof\<close> gives.\<close>

abbreviation (input) sizeof_file_name_header :: nat where "sizeof_file_name_header \<equiv> 8"
abbreviation (input) sizeof_line_header :: nat where "sizeof_line_header \<equiv> 16"
abbreviation (input) sizeof_pair_header :: nat where "sizeof_pair_header \<equiv> 16"
abbreviation (input) sizeof_result_header :: nat where "sizeof_result_header \<equiv> 16"

interpretation file_name_header: header_codec enc_file_name_header dec_file_name_header 8
  by unfold_locales (simp_all add: enc_file_name_header_def dec_file_name_header_def)

interpretation line_header: header_codec "enc_line_header pad" dec_line_header 16 for pad
  by unfold_locales (simp_all add: enc_line_header_def dec_line_header_def)

interpretation pair_header: header_codec enc_pair_header dec_pair_header 16
  by unfold_locales (simp_all add: enc_pair_header_def dec_pair_header_def)

interpretation result_header: header_codec enc_result_header dec_result_header 16
  by unfold_locales (simp_all add: enc_result_header_def dec_result_header_def)

lemmas length_headers [simp, wire] =
  file_name_header.length_enc line_header.length_enc pair_header.length_enc result_header.length_enc

lemmas dec_headers [simp, wire] =
  file_name_header.dec_enc line_header.dec_enc pair_header.dec_enc result_header.dec_enc

text \<open>The padding the sender happens to send makes no difference to the receiver.\<close>

lemma dec_line_header_any_pad: "dec_line_header (enc_line_header pad h) = h"
  by (rule line_header.dec_enc)

end
