(* ===== verification/Mr_Pairs.thy ===== *)
theory Mr_Pairs
  imports Mr_Wire Mr_Posix
begin

text \<open>
  \<open>send_pair_to_reducer\<close>, \<open>receive_pair_from_mapper\<close> and \<open>send_result_to_main\<close> of
  \<open>src/protocol.c\<close>: the messages between mapper and reducer and from the reducer to the main
  process. A token is the memory its pointer points to, a C string; a value is a block of bytes
  (\<open>None\<close> for \<open>NULL\<close>) and its size.
\<close>

abbreviation (input) STDIN_FILENO :: int where "STDIN_FILENO \<equiv> 0"
abbreviation (input) STDOUT_FILENO :: int where "STDOUT_FILENO \<equiv> 1"

text \<open>\<open>strlen\<close>: undefined when the block has no NUL.\<close>

definition c_strlen :: "byte list \<Rightarrow> ('w, nat) io" where
  "c_strlen b = seq_io (defined_c (is_cstr b)) (return_io (length (cstr b)))"

lemma ok_strlen [ok_simps]: "ok (c_strlen b) e s Q \<longleftrightarrow> is_cstr b \<and> Q (length (cstr b)) e s"
  by (simp add: c_strlen_def ok_simps)

lemma take_cstr [simp]: "take (length (cstr b)) b = cstr b"
  by (simp add: cstr_def takeWhile_eq_take [symmetric])

lemma length_cstr: "length (cstr b) \<le> length b"
  by (simp add: cstr_def length_takeWhile_le)

text \<open>
  What the receiving functions return: a message (0), \<open>1\<close> at the end of the stream, \<open>-1\<close>.
\<close>

datatype 'a recv = Got 'a | Stream_end | Recv_error

fun recv_code :: "'a recv \<Rightarrow> int" where
  "recv_code (Got _) = 0"
| "recv_code Stream_end = 1"
| "recv_code Recv_error = -1"

section \<open>Sending\<close>

definition send_result_to_main_fd ::
    "mr_log_file_t \<Rightarrow> int \<Rightarrow> byte list \<Rightarrow> byte list option \<Rightarrow> size_t \<Rightarrow> ('s, int) proc" where
  "send_result_to_main_fd log_file write_fd token result result_size =
     seq_io (assert_c (0 \<le> write_fd)) (
     bind_io (c_strlen token) (\<lambda>token_len.
     let header = \<lparr>rh_token_length = word_of_nat token_len, rh_result_size = result_size\<rparr> in
     SYSCALL_RET_CHECK (-1)
       (write_n write_fd (enc_result_header header) sizeof_result_header)
       (mr_log_error log_file ''Reducer'' ''Controller''
          ''Failed to send result header to main process'') (
     let send_data =
       (if 0 < result_size then
          seq_io (assert_c (result \<noteq> None)) (
          seq_io (defined_c (result \<noteq> None)) (
          SYSCALL_RET_CHECK (-1) (write_n write_fd (the result) (unat result_size))
            (mr_log_error log_file ''Reducer'' ''Controller''
               ''Failed to send result data to main process'')
            (return_io 0)))
        else return_io 0) in
     if 0 < token_len then
       SYSCALL_RET_CHECK (-1) (write_n write_fd token token_len)
         (mr_log_error log_file ''Reducer'' ''Controller''
            ''Failed to send token to main process'')
         send_data
     else send_data)))"

definition send_pair_to_reducer_fd ::
    "mr_log_file_t \<Rightarrow> int \<Rightarrow> byte list \<Rightarrow> byte list option \<Rightarrow> size_t \<Rightarrow> ('s, int) proc" where
  "send_pair_to_reducer_fd log_file write_fd token value value_size =
     seq_io (assert_c (0 \<le> write_fd)) (
     bind_io (c_strlen token) (\<lambda>token_len.
     let header = \<lparr>ph_token_length = word_of_nat token_len, ph_value_length = value_size\<rparr> in
     SYSCALL_RET_CHECK (-1)
       (write_n write_fd (enc_pair_header header) sizeof_pair_header)
       (mr_log_error log_file ''Mapper'' ''Controller''
          ''Failed to send pair header to reducer process'') (
     let send_data =
       (if 0 < value_size then
          seq_io (assert_c (value \<noteq> None)) (
          seq_io (defined_c (value \<noteq> None)) (
          SYSCALL_RET_CHECK (-1) (write_n write_fd (the value) (unat value_size))
            (mr_log_error log_file ''Mapper'' ''Controller''
               ''Failed to send value data to reducer process'')
            (return_io 0)))
        else return_io 0) in
     if 0 < token_len then
       SYSCALL_RET_CHECK (-1) (write_n write_fd token token_len)
         (mr_log_error log_file ''Mapper'' ''Controller''
            ''Failed to send token to reducer process'')
         send_data
     else send_data)))"

definition send_pair_to_reducer ::
    "mr_log_file_t \<Rightarrow> byte list \<Rightarrow> byte list option \<Rightarrow> size_t \<Rightarrow> ('s, int) proc" where
  "send_pair_to_reducer log_file token value value_size =
     send_pair_to_reducer_fd log_file STDOUT_FILENO token value value_size"

definition send_result_to_main ::
    "mr_log_file_t \<Rightarrow> byte list \<Rightarrow> byte list option \<Rightarrow> size_t \<Rightarrow> ('s, int) proc" where
  "send_result_to_main log_file token result result_size =
     send_result_to_main_fd log_file STDOUT_FILENO token result result_size"

text \<open>The bytes of one message: lengths, the token without its NUL, the value.\<close>

definition pair_bytes :: "byte list \<Rightarrow> byte list \<Rightarrow> byte list" where
  "pair_bytes t v =
     enc_pair_header \<lparr>ph_token_length = word_of_nat (length t),
                      ph_value_length = word_of_nat (length v)\<rparr> @ t @ v"

definition result_bytes :: "byte list \<Rightarrow> byte list \<Rightarrow> byte list" where
  "result_bytes t v =
     enc_result_header \<lparr>rh_token_length = word_of_nat (length t),
                        rh_result_size = word_of_nat (length v)\<rparr> @ t @ v"

text \<open>The value a pointer and a size describe.\<close>

definition payload :: "byte list option \<Rightarrow> size_t \<Rightarrow> byte list" where
  "payload v n = (case v of None \<Rightarrow> [] | Some b \<Rightarrow> take (unat n) b)"

text \<open>
  What the documentation of the emit functions asks of their arguments: the token is a C string,
  the value has the stated size, and only a value of size 0 may be \<open>NULL\<close>.
\<close>

definition sendable :: "byte list \<Rightarrow> byte list option \<Rightarrow> size_t \<Rightarrow> bool" where
  "sendable t v n \<longleftrightarrow>
     is_cstr t \<and> length (cstr t) < SSIZE_LIMIT \<and> unat n < SSIZE_LIMIT \<and>
     (0 < n \<longrightarrow> (\<exists>b. v = Some b \<and> unat n \<le> length b))"

lemma sendable_cstr: "sendable t v n \<Longrightarrow> is_cstr t"
  by (simp add: sendable_def)

lemma length_payload: "sendable t v n \<Longrightarrow> length (payload v n) = unat n"
  by (cases "n = 0") (auto simp: sendable_def payload_def word_neq_0_conv split: option.splits)

lemma zero_lt_size: "0 < (n :: size_t) \<longleftrightarrow> n \<noteq> 0"
  by (simp add: word_neq_0_conv)

text \<open>
  A checked write of \<open>n\<close> bytes: the code after it runs with all of them written, or the error
  branch runs with fewer. The source guards the writes of a possibly empty part; a write of no
  byte would change nothing, so the guarded write has the same rule.
\<close>

lemma write_check_ok:
  assumes "evolve e0 e" and "0 \<le> fd" and "n \<le> length buf" and "n < SSIZE_LIMIT"
    and "\<And>e'. evolve e0 e' \<Longrightarrow> ok rest e' (add_wr fd (take n buf) s) Q"
    and "\<And>e' m. evolve e0 e' \<Longrightarrow> faulty e0 \<Longrightarrow> m < n \<Longrightarrow>
           ok command e' (add_wr fd (take m buf) s) (\<lambda>_. Q m1)"
  shows "ok (SYSCALL_RET_CHECK m1 (write_n fd buf n) command rest) e s Q"
  unfolding ok_SYSCALL_RET_CHECK
  by (rule write_n_ok [OF assms(1-4)]) (simp_all add: assms)

lemma write_check_if_ok:
  assumes "evolve e0 e" and "0 \<le> fd" and "n \<le> length buf" and "n < SSIZE_LIMIT"
    and "\<And>e'. evolve e0 e' \<Longrightarrow> ok rest e' (add_wr fd (take n buf) s) Q"
    and "\<And>e' m. evolve e0 e' \<Longrightarrow> faulty e0 \<Longrightarrow> m < n \<Longrightarrow>
           ok command e' (add_wr fd (take m buf) s) (\<lambda>_. Q m1)"
  shows "ok (if 0 < n then SYSCALL_RET_CHECK m1 (write_n fd buf n) command rest else rest) e s Q"
  using write_check_ok [OF assms] assms(5) [OF assms(1)] by (cases "n = 0") auto

lemma log_error_ok:
  assumes "evolve e0 e" and "log_ready log e0" and "\<And>e'. evolve e0 e' \<Longrightarrow> Q e' s"
  shows "ok (mr_log log level p t f) e s (\<lambda>_. Q)"
  using assms by (auto intro: mr_log_ok)

text \<open>
  The body the two senders share: header, token, value. It returns 0 with the whole message
  written, or, when a call has failed, -1 with a proper prefix of it written.
\<close>

lemma send_parts_ok:
  fixes s :: "'s state_scheme"
  assumes ev: "evolve e0 e" and log: "log_ready L e0" and fd: "0 \<le> fd"
    and h: "length h = hn" "hn < SSIZE_LIMIT" and snd: "sendable t v n"
    and good: "\<And>e'. evolve e0 e' \<Longrightarrow> Q 0 e' (add_wr fd (h @ cstr t @ payload v n) s)"
    and bad: "\<And>e' k. evolve e0 e' \<Longrightarrow> faulty e0 \<Longrightarrow> k < length (h @ cstr t @ payload v n) \<Longrightarrow>
      Q (-1) e' (add_wr fd (take k (h @ cstr t @ payload v n)) s)"
    and data: "send_data =
       (if 0 < n then
          seq_io (assert_c (v \<noteq> None)) (
          seq_io (defined_c (v \<noteq> None)) (
          SYSCALL_RET_CHECK (-1) (write_n fd (the v) (unat n)) (mr_log_error L p3 t3 f3) (return_io 0)))
        else return_io 0)"
  shows "ok (SYSCALL_RET_CHECK (-1) (write_n fd h hn) (mr_log_error L p1 t1 f1) (
     if 0 < length (cstr t) then
       SYSCALL_RET_CHECK (-1) (write_n fd t (length (cstr t))) (mr_log_error L p2 t2 f2) send_data
     else send_data)) e s Q"
proof (rule write_check_ok [OF ev fd])
  have lens: "length (cstr t) < SSIZE_LIMIT" "length (cstr t) \<le> length t" "unat n < SSIZE_LIMIT"
    using snd length_cstr [of t] by (auto simp: sendable_def)
  have v: "v \<noteq> None" "unat n \<le> length (the v)" "payload v n = take (unat n) (the v)" if "0 < n"
    using snd that by (auto simp: sendable_def payload_def)
  have pay: "payload v n = []" if "\<not> 0 < n"
    using that by (auto simp: payload_def zero_lt_size split: option.splits)
  show "hn \<le> length h" and "hn < SSIZE_LIMIT" by (simp_all add: h)
  show "ok (mr_log_error L p1 t1 f1) e' (add_wr fd (take m h) s) (\<lambda>_. Q (-1))"
    if "evolve e0 e'" and "faulty e0" and "m < hn" for e' m
    using bad [of _ m] that h by (intro log_error_ok [OF that(1) log]) simp
  fix e' assume e': "evolve e0 e'"
  let ?s1 = "add_wr fd (take hn h) s" and ?t = "length (cstr t)"
  show "ok (if 0 < ?t then SYSCALL_RET_CHECK (-1) (write_n fd t ?t) (mr_log_error L p2 t2 f2) send_data
            else send_data) e' ?s1 Q"
  proof (rule write_check_if_ok [OF e' fd lens(2,1)])
    show "ok (mr_log_error L p2 t2 f2) e'' (add_wr fd (take m t) ?s1) (\<lambda>_. Q (-1))"
      if "evolve e0 e''" and "faulty e0" and "m < ?t" for e'' m
      using bad [of _ "hn + m"] that h take_take [of m "?t" t]
      by (intro log_error_ok [OF that(1) log]) simp
    fix e'' assume e'': "evolve e0 e''"
    show "ok send_data e'' (add_wr fd (take ?t t) ?s1) Q"
    proof (cases "0 < n")
      case False
      then show ?thesis using good [OF e''] h by (simp add: data ok_simps pay)
    next
      case True
      have "ok (SYSCALL_RET_CHECK (-1) (write_n fd (the v) (unat n)) (mr_log_error L p3 t3 f3) (return_io 0))
              e'' (add_wr fd (take ?t t) ?s1) Q"
      proof (rule write_check_ok [OF e'' fd v(2) [OF True] lens(3)])
        show "ok (return_io 0) e3 (add_wr fd (take (unat n) (the v)) (add_wr fd (take ?t t) ?s1)) Q"
          if "evolve e0 e3" for e3
          using good [OF that] h v(3) [OF True] by (simp add: ok_simps)
        show "ok (mr_log_error L p3 t3 f3) e3 (add_wr fd (take m (the v)) (add_wr fd (take ?t t) ?s1))
                (\<lambda>_. Q (-1))" if "evolve e0 e3" and "faulty e0" and "m < unat n" for e3 m
          using bad [of _ "hn + ?t + m"] that h v [OF True] take_take [of m "unat n" "the v"]
          by (intro log_error_ok [OF that(1) log]) simp
      qed
      then show ?thesis using True v(1) by (simp add: data ok_simps)
    qed
  qed
qed

lemma send_pair_ok:
  assumes "evolve e0 e" and "log_ready log_file e0" and "0 \<le> fd" and "sendable t v n"
    and msg: "msg = pair_bytes (cstr t) (payload v n)"
    and "\<And>e'. evolve e0 e' \<Longrightarrow> Q 0 e' (add_wr fd msg s)"
    and "\<And>e' k. evolve e0 e' \<Longrightarrow> faulty e0 \<Longrightarrow> k < length msg \<Longrightarrow> Q (-1) e' (add_wr fd (take k msg) s)"
  shows "ok (send_pair_to_reducer_fd log_file fd t v n) e s Q"
  unfolding send_pair_to_reducer_fd_def Let_def
  by (simp only: ok_simps assms(3) sendable_cstr [OF assms(4)] simp_thms,
      rule send_parts_ok [OF assms(1-3) _ _ assms(4) _ _ refl])
     (use assms(5-7) length_payload [OF assms(4)] in \<open>simp_all add: pair_bytes_def\<close>)

lemma send_result_ok:
  assumes "evolve e0 e" and "log_ready log_file e0" and "0 \<le> fd" and "sendable t v n"
    and msg: "msg = result_bytes (cstr t) (payload v n)"
    and "\<And>e'. evolve e0 e' \<Longrightarrow> Q 0 e' (add_wr fd msg s)"
    and "\<And>e' k. evolve e0 e' \<Longrightarrow> faulty e0 \<Longrightarrow> k < length msg \<Longrightarrow> Q (-1) e' (add_wr fd (take k msg) s)"
  shows "ok (send_result_to_main_fd log_file fd t v n) e s Q"
  unfolding send_result_to_main_fd_def Let_def
  by (simp only: ok_simps assms(3) sendable_cstr [OF assms(4)] simp_thms,
      rule send_parts_ok [OF assms(1-3) _ _ assms(4) _ _ refl])
     (use assms(5-7) length_payload [OF assms(4)] in \<open>simp_all add: result_bytes_def\<close>)

section \<open>Receiving\<close>

text \<open>The out-parameters \<open>*out_token\<close>, \<open>*out_value\<close> and \<open>*out_value_size\<close>.\<close>

record received_pair =
  out_token :: "byte list option"
  out_value :: "byte list option"
  out_value_size :: size_t

text \<open>Storing one byte in a block: undefined outside it.\<close>

definition poke :: "nat \<Rightarrow> byte \<Rightarrow> byte list \<Rightarrow> ('w, byte list) io" where
  "poke i b blk = seq_io (defined_c (i < length blk)) (return_io (blk[i := b]))"

lemma ok_poke [ok_simps]: "ok (poke i b blk) e s Q \<longleftrightarrow> i < length blk \<and> Q (blk[i := b]) e s"
  by (simp add: poke_def ok_simps)

text \<open>
  The function in three parts: the header, the token with its terminator, the value. After each
  \<open>malloc\<close> the source lets a \<open>NULL\<close> pass when there is nothing to store.
\<close>

definition receive_pair_value ::
    "mr_log_file_t \<Rightarrow> int \<Rightarrow> byte list option \<Rightarrow> size_t \<Rightarrow> ('s, received_pair recv) proc" where
  "receive_pair_value log_file read_fd token value_length =
     bind_io (c_malloc (unat value_length)) (\<lambda>value.
     if value = None \<and> 0 < value_length then
       seq_io (mr_log_error log_file ''Reducer'' ''Controller'' ''Failed to allocate memory for value'')
         (seq_io (c_free token) (return_io Recv_error))
     else if 0 < value_length then
       SYSCALL_RET Recv_error fst (read_n read_fd (the value) (unat value_length))
         (seq_io (mr_log_error log_file ''Reducer'' ''Controller''
            ''Failed to read value data from mapper process'')
            (seq_io (c_free token) (c_free value)))
         (\<lambda>(_, value_mem). return_io (Got
            \<lparr>out_token = token, out_value = Some value_mem, out_value_size = value_length\<rparr>))
     else return_io (Got
            \<lparr>out_token = token, out_value = value, out_value_size = value_length\<rparr>))"

definition receive_pair_token ::
    "mr_log_file_t \<Rightarrow> int \<Rightarrow> size_t \<Rightarrow> size_t \<Rightarrow> ('s, received_pair recv) proc" where
  "receive_pair_token log_file read_fd token_length value_length =
     bind_io (c_malloc (unat (token_length + 1))) (\<lambda>token.
     if token = None \<and> 0 < token_length then
       seq_io (mr_log_error log_file ''Reducer'' ''Controller'' ''Failed to allocate memory for token'')
         (return_io Recv_error)
     else if 0 < token_length then
       SYSCALL_RET Recv_error fst (read_n read_fd (the token) (unat token_length))
         (seq_io (mr_log_error log_file ''Reducer'' ''Controller''
            ''Failed to read token from mapper process'') (c_free token))
         (\<lambda>(_, token_mem).
            bind_io (poke (unat token_length) 0 token_mem) (\<lambda>token_mem.
            receive_pair_value log_file read_fd (Some token_mem) value_length))
     else case token of
       None \<Rightarrow> receive_pair_value log_file read_fd None value_length
     | Some token_mem \<Rightarrow>
         bind_io (poke (unat token_length) 0 token_mem) (\<lambda>token_mem.
         receive_pair_value log_file read_fd (Some token_mem) value_length))"

definition receive_pair_from_mapper_fd ::
    "mr_log_file_t \<Rightarrow> int \<Rightarrow> ('s, received_pair recv) proc" where
  "receive_pair_from_mapper_fd log_file read_fd =
     seq_io (assert_c (0 \<le> read_fd)) (
     bind_io (get_env (\<lambda>e. fresh_block e 16)) (\<lambda>header_mem.
     SYSCALL_RET Recv_error fst (read_n read_fd header_mem sizeof_pair_header)
       (mr_log_error log_file ''Mapper'' ''Controller''
          ''Failed to read pair header from mapper process'') (\<lambda>(bytes_read, header_mem).
     if bytes_read = 0 then return_io Stream_end else
     let header = dec_pair_header header_mem in
     receive_pair_token log_file read_fd (ph_token_length header) (ph_value_length header))))"

definition receive_pair_from_mapper :: "mr_log_file_t \<Rightarrow> ('s, received_pair recv) proc" where
  "receive_pair_from_mapper log_file = receive_pair_from_mapper_fd log_file STDIN_FILENO"

text \<open>A checked read of \<open>n\<close> bytes, in general and when the stream begins with them.\<close>

lemma read_check_ok:
  assumes "evolve e0 e" and "0 \<le> fd" and "n \<le> length buf" and "n < SSIZE_LIMIT"
    and "\<And>e' m. evolve e0 e' \<Longrightarrow> m = min n (length (rds s fd)) \<Longrightarrow>
           ok (k (int m, take m (rds s fd) @ drop m buf)) e' (put_rd fd (drop m (rds s fd)) s) Q"
    and "\<And>e' m. evolve e0 e' \<Longrightarrow> faulty e0 \<Longrightarrow>
           ok command e' (put_rd fd (drop m (rds s fd)) s) (\<lambda>_. Q m1)"
  shows "ok (SYSCALL_RET m1 fst (read_n fd buf n) command k) e s Q"
  unfolding ok_SYSCALL_RET
  apply (rule read_n_ok [OF assms(1-4)])
   apply (drule (1) assms(5); simp)
  apply (simp add: assms(6))
  done

lemma read_exact_ok:
  assumes "evolve e0 e" and "0 \<le> fd" and "n \<le> length buf" and "n < SSIZE_LIMIT"
    and "rds s fd = xs @ rest" and "length xs = n"
    and "\<And>e'. evolve e0 e' \<Longrightarrow> ok (k (int n, xs @ drop n buf)) e' (put_rd fd rest s) Q"
    and "\<And>e' m. evolve e0 e' \<Longrightarrow> faulty e0 \<Longrightarrow>
           ok command e' (put_rd fd (drop m (rds s fd)) s) (\<lambda>_. Q m1)"
  shows "ok (SYSCALL_RET m1 fst (read_n fd buf n) command k) e s Q"
  by (rule read_check_ok [OF assms(1-4)]) (use assms(5-8) in auto)

text \<open>A buffer for \<open>xs\<close> and its NUL, after the bytes and the NUL have been stored.\<close>

lemma nul_terminated:
  "length b = Suc (length xs) \<Longrightarrow> (xs @ drop (length xs) b)[length xs := 0] = xs @ [0]"
  by (simp add: list_update_append Cons_nth_drop_Suc [symmetric])

lemma receive_pair_value_ok:
  assumes ev: "evolve e0 e" and log: "log_ready L e0" and fd: "0 \<le> fd"
    and stream: "rds s fd = v @ rest" and len: "length v < SSIZE_LIMIT"
    and good: "\<And>e' val. evolve e0 e' \<Longrightarrow>
       val = Some v \<or> val = None \<and> v = [] \<and> faulty e0 \<Longrightarrow>
       Q (Got \<lparr>out_token = tok, out_value = val, out_value_size = word_of_nat (length v)\<rparr>) e'
         ((put_rd fd rest s)\<lparr>live := live s + blocks val\<rparr>)"
    and bad: "\<And>e' k. evolve e0 e' \<Longrightarrow> faulty e0 \<Longrightarrow>
       Q Recv_error e' ((put_rd fd (drop k (rds s fd)) s)\<lparr>live := live s - blocks tok\<rparr>)"
  shows "ok (receive_pair_value L fd tok (word_of_nat (length v))) e s Q"
  unfolding receive_pair_value_def ok_bind
proof (rule c_malloc_ok [OF ev]; simp only: unat_of_nat_small [OF len] size_of_nat_pos [OF len])
  fix e' and b :: "byte list"
  assume e': "evolve e0 e'" and b: "length b = length v"
  show "ok (if Some b = None \<and> 0 < length v then fail
      else if 0 < length v then
        SYSCALL_RET Recv_error fst (read_n fd (the (Some b)) (length v))
          (seq_io (mr_log_error L p t f) (seq_io (c_free tok) (c_free (Some b))))
          (\<lambda>(_, value_mem). return_io (Got \<lparr>out_token = tok, out_value = Some value_mem,
             out_value_size = word_of_nat (length v)\<rparr>))
      else return_io (Got \<lparr>out_token = tok, out_value = Some b,
             out_value_size = word_of_nat (length v)\<rparr>)) e' (s\<lparr>live := live s + 1\<rparr>) Q" for fail p t f
  proof (cases "0 < length v")
    case False
    then show ?thesis using good [OF e', of "Some v"] b stream by (simp add: ok_simps)
  next
    case True
    have "ok (SYSCALL_RET Recv_error fst (read_n fd b (length v))
          (seq_io (mr_log_error L p t f) (seq_io (c_free tok) (c_free (Some b))))
          (\<lambda>(_, value_mem). return_io (Got \<lparr>out_token = tok, out_value = Some value_mem,
             out_value_size = word_of_nat (length v)\<rparr>))) e' (s\<lparr>live := live s + 1\<rparr>) Q"
    proof (rule read_exact_ok [OF e' fd _ len, where xs = v and rest = rest])
      fix e'' assume "evolve e0 e''"
      then show "ok (case (int (length v), v @ drop (length v) b) of (_, value_mem) \<Rightarrow>
           return_io (Got \<lparr>out_token = tok, out_value = Some value_mem,
             out_value_size = word_of_nat (length v)\<rparr>)) e'' (put_rd fd rest (s\<lparr>live := live s + 1\<rparr>)) Q"
        using good [of e'' "Some v"] b by (simp add: ok_simps)
    next
      fix e'' m assume "evolve e0 e''" "faulty e0"
      then show "ok (seq_io (mr_log_error L p t f) (seq_io (c_free tok) (c_free (Some b)))) e''
         (put_rd fd (drop m (rds (s\<lparr>live := live s + 1\<rparr>) fd)) (s\<lparr>live := live s + 1\<rparr>)) (\<lambda>_. Q Recv_error)"
        using bad [of _ m]
        by (auto simp: ok_simps intro!: log_error_ok [OF _ log] split: option.splits)
    qed (use b stream in simp_all)
    then show ?thesis using True by simp
  qed
next
  fix e' assume e': "evolve e0 e'" "faulty e0"
  show "ok (if None = None \<and> 0 < length v then
       seq_io (mr_log_error L p t f) (seq_io (c_free tok) (return_io Recv_error))
      else if 0 < length v then x
      else return_io (Got \<lparr>out_token = tok, out_value = None,
             out_value_size = word_of_nat (length v)\<rparr>)) e' s Q" for p t f x
    using e' good [OF e'(1), of None] bad [of _ 0] stream
    by (cases "v = []")
       (auto simp: ok_simps intro!: log_error_ok [OF _ log] split: option.splits)
qed

lemma receive_pair_token_ok:
  assumes ev: "evolve e0 e" and log: "log_ready L e0" and fd: "0 \<le> fd"
    and stream: "rds s fd = t @ v @ rest"
    and lens: "length t < SSIZE_LIMIT" "length v < SSIZE_LIMIT"
    and good: "\<And>e' tok val. evolve e0 e' \<Longrightarrow>
       tok = Some (t @ [0]) \<or> tok = None \<and> t = [] \<and> faulty e0 \<Longrightarrow>
       val = Some v \<or> val = None \<and> v = [] \<and> faulty e0 \<Longrightarrow>
       Q (Got \<lparr>out_token = tok, out_value = val, out_value_size = word_of_nat (length v)\<rparr>) e'
         ((put_rd fd rest s)\<lparr>live := live s + blocks tok + blocks val\<rparr>)"
    and bad: "\<And>e' k. evolve e0 e' \<Longrightarrow> faulty e0 \<Longrightarrow>
       Q Recv_error e' (put_rd fd (drop k (rds s fd)) s)"
  shows "ok (receive_pair_token L fd (word_of_nat (length t)) (word_of_nat (length v))) e s Q"
proof -
  let ?rest = "\<lambda>tok. receive_pair_value L fd tok (word_of_nat (length v))"
  let ?s1 = "s\<lparr>live := live s + 1\<rparr>"
  have value_ok: "ok (?rest tok) e' ((put_rd fd (v @ rest) s)\<lparr>live := live s + blocks tok\<rparr>) Q"
    if "evolve e0 e'" and tok: "tok = Some (t @ [0]) \<or> tok = None \<and> t = [] \<and> faulty e0" for e' tok
  proof (rule receive_pair_value_ok [OF that(1) log fd, where rest = rest])
    fix e'' k assume e'': "evolve e0 e''" "faulty e0"
    let ?s = "(put_rd fd (v @ rest) s)\<lparr>live := live s + blocks tok\<rparr>"
    show "Q Recv_error e'' ((put_rd fd (drop k (rds ?s fd)) ?s)\<lparr>live := live ?s - blocks tok\<rparr>)"
      using bad [OF e'', of "length t + k"] stream by simp
  qed (use good tok lens in simp_all)
  have "ok (receive_pair_token L fd (word_of_nat (length t)) (word_of_nat (length v))) e s Q"
    unfolding receive_pair_token_def ok_bind
  proof (rule c_malloc_ok [OF ev]; simp only: unat_size_succ [OF lens(1)] unat_of_nat_small [OF lens(1)]
      size_of_nat_pos [OF lens(1)])
    fix e' and b :: "byte list"
    assume e': "evolve e0 e'" and b: "length b = Suc (length t)"
    let ?cmd = "\<lambda>p1 t1 f1. seq_io (mr_log_error L p1 t1 f1) (c_free (Some b))"
    let ?go = "\<lambda>m. bind_io (poke (length t) 0 m) (\<lambda>m. ?rest (Some m))"
    have full: "ok (?go (t @ drop (length t) b)) e'' (put_rd fd (v @ rest) ?s1) Q"
      if "evolve e0 e''" for e''
      using value_ok [OF that, of "Some (t @ [0])"] b by (simp add: ok_simps nul_terminated)
    show "ok (if Some b = None \<and> 0 < length t then x
        else if 0 < length t then
          SYSCALL_RET Recv_error fst (read_n fd (the (Some b)) (length t)) (?cmd p1 t1 f1) (\<lambda>(_, m). ?go m)
        else case Some b of None \<Rightarrow> ?rest None | Some m \<Rightarrow> ?go m) e' ?s1 Q" for x p1 t1 f1
    proof (cases "0 < length t")
      case False
      then show ?thesis using full [OF e'] stream by simp
    next
      case True
      have "ok (SYSCALL_RET Recv_error fst (read_n fd b (length t)) (?cmd p1 t1 f1) (\<lambda>(_, m). ?go m))
              e' ?s1 Q"
        by (rule read_exact_ok [OF e' fd _ lens(1), where xs = t and rest = "v @ rest"])
           (use b stream full bad in \<open>auto simp: ok_simps intro!: log_error_ok [OF _ log]\<close>)
      then show ?thesis using True by simp
    qed
  next
    fix e' assume e': "evolve e0 e'" "faulty e0"
    show "ok (if None = None \<and> 0 < length t then
         seq_io (mr_log_error L p1 t1 f1) (return_io Recv_error)
        else if 0 < length t then x
        else case None of None \<Rightarrow> ?rest None | Some m \<Rightarrow> y m) e' s Q" for p1 t1 f1 x y
      using e' value_ok [OF e'(1), of None] bad [of _ 0] stream
      by (cases "t = []") (auto simp: ok_simps intro!: log_error_ok [OF _ log])
  qed
  then show ?thesis .
qed

lemma receive_pair_ok:
  assumes ev: "evolve e0 e" and log: "log_ready L e0" and fd: "0 \<le> fd"
    and stream: "rds s fd = pair_bytes t v @ rest"
    and lens: "length t < SSIZE_LIMIT" "length v < SSIZE_LIMIT"
    and good: "\<And>e' tok val. evolve e0 e' \<Longrightarrow>
       tok = Some (t @ [0]) \<or> tok = None \<and> t = [] \<and> faulty e0 \<Longrightarrow>
       val = Some v \<or> val = None \<and> v = [] \<and> faulty e0 \<Longrightarrow>
       Q (Got \<lparr>out_token = tok, out_value = val, out_value_size = word_of_nat (length v)\<rparr>) e'
         ((put_rd fd rest s)\<lparr>live := live s + blocks tok + blocks val\<rparr>)"
    and bad: "\<And>e' k. evolve e0 e' \<Longrightarrow> faulty e0 \<Longrightarrow>
       Q Recv_error e' (put_rd fd (drop k (rds s fd)) s)"
  shows "ok (receive_pair_from_mapper_fd L fd) e s Q"
proof -
  let ?h = "enc_pair_header \<lparr>ph_token_length = word_of_nat (length t),
                      ph_value_length = word_of_nat (length v)\<rparr>"
  let ?k = "\<lambda>(bytes_read :: int, m). if bytes_read = 0 then return_io Stream_end else
     let header = dec_pair_header m in
     receive_pair_token L fd (ph_token_length header) (ph_value_length header)"
  have stream': "rds s fd = ?h @ t @ v @ rest"
    by (simp add: stream pair_bytes_def)
  have "ok (SYSCALL_RET Recv_error fst (read_n fd (fresh_block e 16) 16) (mr_log_error L p1 t1 f1) ?k)
          e s Q" for p1 t1 f1
  proof (rule read_exact_ok [OF ev fd _ _ stream'])
    fix e' assume e': "evolve e0 e'"
    have "ok (receive_pair_token L fd (word_of_nat (length t)) (word_of_nat (length v))) e'
            (put_rd fd (t @ v @ rest) s) Q"
    proof (rule receive_pair_token_ok [OF e' log fd _ lens])
      fix e'' k assume e'': "evolve e0 e''" "faulty e0"
      show "Q Recv_error e'' (put_rd fd (drop k (rds (put_rd fd (t @ v @ rest) s) fd))
              (put_rd fd (t @ v @ rest) s))"
        using bad [OF e'', of "16 + k"] stream' by simp
    qed (use good in simp_all)
    then show "ok (?k (int 16, ?h @ drop 16 (fresh_block e 16))) e' (put_rd fd (t @ v @ rest) s) Q"
      by (simp add: Let_def)
  qed (use bad in \<open>auto intro!: log_error_ok [OF _ log]\<close>)
  then show ?thesis
    by (simp only: receive_pair_from_mapper_fd_def ok_simps fd simp_thms)
qed

lemma receive_pair_end_ok:
  assumes ev: "evolve e0 e" and log: "log_ready L e0" and fd: "0 \<le> fd" and stream: "rds s fd = []"
    and "\<And>e'. evolve e0 e' \<Longrightarrow> Q Stream_end e' s"
    and bad: "\<And>e'. evolve e0 e' \<Longrightarrow> faulty e0 \<Longrightarrow> Q Recv_error e' s"
  shows "ok (receive_pair_from_mapper_fd L fd) e s Q"
  unfolding receive_pair_from_mapper_fd_def
  apply (simp only: ok_simps fd simp_thms)
  apply (rule read_check_ok [OF ev fd])
  using stream by (auto simp: ok_simps assms(5) bad intro!: log_error_ok [OF _ log])

end
