(* ===== verification/Mr_Lines.thy ===== *)
theory Mr_Lines
  imports Mr_Pairs
begin

text \<open>
  The receiver of the mapper process (\<open>mr_main_receiver_t\<close>, \<open>receive_line_from_main_fd\<close> of
  \<open>src/protocol.c\<close>): it turns the stream of file names, lines and end-of-file marks the main
  process sends into one line after the other, each with the name of its file and its number.
\<close>

section \<open>State\<close>

record mr_main_receiver_t =
  current_file_name :: "byte list option"
  current_file_name_len :: size_t
  current_line_number :: ulong
  file_finished :: bool

record mr_file_line_t =
  file_name :: "byte list option"
  file_name_len :: size_t
  line_number :: ulong
  line :: "byte list option"
  line_len :: size_t

definition mr_main_receiver_init :: mr_main_receiver_t where
  "mr_main_receiver_init =
     \<lparr>current_file_name = None, current_file_name_len = 0, current_line_number = 0,
      file_finished = True\<rparr>"

definition mr_main_receiver_destroy :: "mr_main_receiver_t \<Rightarrow> ('s, mr_main_receiver_t) proc" where
  "mr_main_receiver_destroy receiver =
     seq_io (c_free (current_file_name receiver))
            (return_io (receiver\<lparr>current_file_name := None\<rparr>))"

section \<open>receive_line_from_main_fd\<close>

text \<open>The part of the loop body that returns a line, after a header that is no end-of-file mark.\<close>

definition receive_line_content ::
    "mr_log_file_t \<Rightarrow> int \<Rightarrow> mr_main_receiver_t \<Rightarrow> size_t
      \<Rightarrow> ('s, mr_main_receiver_t \<times> mr_file_line_t recv) proc" where
  "receive_line_content log_file read_fd receiver length_field =
     bind_io (c_malloc (unat (current_file_name_len receiver + 1))) (\<lambda>file_name_copy.
     if file_name_copy = None then
       seq_io (mr_log_error log_file ''Mapper'' ''Controller''
                 ''Failed to allocate memory for line file name'')
              (return_io (receiver, Recv_error))
     else
     seq_io (defined_c (\<exists>b. current_file_name receiver = Some b \<and>
               unat (current_file_name_len receiver + 1) \<le> length b)) (
     let name = take (unat (current_file_name_len receiver + 1)) (the (current_file_name receiver));
         receiver' = receiver\<lparr>current_line_number := current_line_number receiver + 1\<rparr>;
         result = (\<lambda>content. (receiver', Got
           \<lparr>file_name = Some name, file_name_len = current_file_name_len receiver,
            line_number = current_line_number receiver, line = Some content,
            line_len = length_field\<rparr>)) in
     bind_io (c_malloc (unat (length_field + 1))) (\<lambda>line_content.
     if line_content = None then
       seq_io (mr_log_error log_file ''Mapper'' ''Controller''
                 ''Failed to allocate memory for line content'')
              (return_io (receiver', Recv_error))
     else if 0 < length_field then
       SYSCALL_RET (receiver', Recv_error) fst (read_n read_fd (the line_content) (unat length_field))
         (seq_io (mr_log_error log_file ''Mapper'' ''Controller''
                    ''Failed to read line data from main process'')
                 (c_free line_content))
         (\<lambda>(_, content). bind_io (poke (unat length_field) 0 content) (\<lambda>content.
            return_io (result content)))
     else bind_io (poke (unat length_field) 0 (the line_content)) (\<lambda>content.
            return_io (result content)))))"

text \<open>The part that starts the next file: \<open>k\<close> is the code after it.\<close>

definition receive_file_name ::
    "mr_log_file_t \<Rightarrow> int \<Rightarrow> mr_main_receiver_t
      \<Rightarrow> (mr_main_receiver_t \<Rightarrow> ('s, mr_main_receiver_t \<times> mr_file_line_t recv) proc)
      \<Rightarrow> ('s, mr_main_receiver_t \<times> mr_file_line_t recv) proc" where
  "receive_file_name log_file read_fd receiver k =
     bind_io (get_env (\<lambda>e. fresh_block e 8)) (\<lambda>header_mem.
     SYSCALL_RET (receiver, Recv_error) fst (read_n read_fd header_mem sizeof_file_name_header)
       (mr_log_error log_file ''Mapper'' ''Controller''
          ''Failed to read file name header from main process'') (\<lambda>(bytes_read, header_mem).
     seq_io (c_free (current_file_name receiver)) (
     let receiver0 = receiver\<lparr>current_file_name := None\<rparr>;
         name_length = file_name_length (dec_file_name_header header_mem) in
     if bytes_read = 0 then return_io (receiver0, Stream_end) else
     bind_io (c_malloc (unat (name_length + 1))) (\<lambda>name.
     if name = None then
       seq_io (mr_log_error log_file ''Mapper'' ''Controller'' ''Failed to allocate memory for file name'')
              (return_io (receiver0, Recv_error))
     else
     SYSCALL_RET (receiver0, Recv_error) fst (read_n read_fd (the name) (unat name_length))
       (seq_io (mr_log_error log_file ''Mapper'' ''Controller''
                  ''Failed to read file name from main process'') (c_free name)) (\<lambda>(_, name).
     bind_io (poke (unat name_length) 0 name) (\<lambda>name.
     k \<lparr>current_file_name = Some name, current_file_name_len = name_length,
        current_line_number = 1, file_finished = False\<rparr>))))))"

text \<open>The part that reads a line header: \<open>again\<close> is the \<open>continue\<close> after an end-of-file mark.\<close>

definition receive_line_header ::
    "mr_log_file_t \<Rightarrow> int \<Rightarrow> mr_main_receiver_t
      \<Rightarrow> (mr_main_receiver_t \<Rightarrow> ('s, mr_main_receiver_t \<times> mr_file_line_t recv) proc)
      \<Rightarrow> ('s, mr_main_receiver_t \<times> mr_file_line_t recv) proc" where
  "receive_line_header log_file read_fd receiver again =
     bind_io (get_env (\<lambda>e. fresh_block e 16)) (\<lambda>header_mem.
     SYSCALL_RET (receiver, Recv_error) fst (read_n read_fd header_mem sizeof_line_header)
       (mr_log_error log_file ''Mapper'' ''Controller''
          ''Failed to read line header from main process'') (\<lambda>(bytes_read, header_mem).
     seq_io (assert_c (bytes_read \<noteq> 0)) (
     let l_header = dec_line_header header_mem in
     if eof l_header then again (receiver\<lparr>file_finished := True\<rparr>)
     else receive_line_content log_file read_fd receiver (line_length l_header))))"

text \<open>The loop \<open>while (true)\<close>; the bound is set below from the length of the stream.\<close>

primrec receive_line_loop ::
    "nat \<Rightarrow> mr_log_file_t \<Rightarrow> int \<Rightarrow> mr_main_receiver_t
      \<Rightarrow> ('s, mr_main_receiver_t \<times> mr_file_line_t recv) proc" where
  "receive_line_loop 0 log_file read_fd receiver = stop_io Out_Of_Fuel"
| "receive_line_loop (Suc fuel) log_file read_fd receiver =
     (let read_line = (\<lambda>receiver.
        receive_line_header log_file read_fd receiver (receive_line_loop fuel log_file read_fd)) in
      if file_finished receiver then receive_file_name log_file read_fd receiver read_line
      else read_line receiver)"

text \<open>
  A round that goes on has consumed a byte of the stream or (with asserts compiled out) found it
  empty, and the round after that ends at the file name, so two rounds more than the stream has
  bytes are enough.
\<close>

definition receive_line_from_main_fd ::
    "mr_log_file_t \<Rightarrow> int \<Rightarrow> mr_main_receiver_t
      \<Rightarrow> ('s, mr_main_receiver_t \<times> mr_file_line_t recv) proc" where
  "receive_line_from_main_fd log_file read_fd receiver =
     seq_io (assert_c (0 \<le> read_fd)) (
     bind_io (get_st (\<lambda>s. length (rds s read_fd))) (\<lambda>n.
     receive_line_loop (Suc (Suc n)) log_file read_fd receiver))"

definition receive_line_from_main ::
    "mr_log_file_t \<Rightarrow> mr_main_receiver_t
      \<Rightarrow> ('s, mr_main_receiver_t \<times> mr_file_line_t recv) proc" where
  "receive_line_from_main log_file receiver =
     receive_line_from_main_fd log_file STDIN_FILENO receiver"

section \<open>The stream of the main process\<close>

definition line_bytes :: "byte list \<Rightarrow> byte list \<Rightarrow> byte list" where
  "line_bytes pad l =
     enc_line_header pad \<lparr>eof = False, line_length = word_of_nat (length l)\<rparr> @ l"

definition eof_bytes :: "byte list \<Rightarrow> byte list" where
  "eof_bytes pad = enc_line_header pad \<lparr>eof = True, line_length = 0\<rparr>"

definition file_start :: "path \<Rightarrow> byte list" where
  "file_start name = enc_file_name_header \<lparr>file_name_length = word_of_nat (length name)\<rparr> @ name"

definition file_body :: "byte list \<Rightarrow> byte list list \<Rightarrow> byte list" where
  "file_body pad ls = concat (map (line_bytes pad) ls) @ eof_bytes pad"

definition file_bytes :: "byte list \<Rightarrow> path \<times> byte list list \<Rightarrow> byte list" where
  "file_bytes pad f = file_start (fst f) @ file_body pad (snd f)"

definition files_bytes :: "byte list \<Rightarrow> (path \<times> byte list list) list \<Rightarrow> byte list" where
  "files_bytes pad fs = concat (map (file_bytes pad) fs)"

text \<open>
  What is left of the input: the file being read (its name, the number of its next line, its
  lines) and the files after it. The next line skips files that have no line left.
\<close>

type_synonym reading = "(path \<times> nat \<times> byte list list) option"

fun remaining_bytes :: "byte list \<Rightarrow> reading \<Rightarrow> (path \<times> byte list list) list \<Rightarrow> byte list" where
  "remaining_bytes pad None fs = files_bytes pad fs"
| "remaining_bytes pad (Some (name, n, ls)) fs = file_body pad ls @ files_bytes pad fs"

function next_line ::
    "reading \<Rightarrow> (path \<times> byte list list) list
      \<Rightarrow> ((path \<times> nat \<times> byte list) \<times> reading \<times> (path \<times> byte list list) list) option" where
  "next_line (Some (name, n, l # ls)) fs = Some ((name, n, l), Some (name, Suc n, ls), fs)"
| "next_line (Some (name, n, [])) fs = next_line None fs"
| "next_line None [] = None"
| "next_line None ((name, ls) # fs) = next_line (Some (name, 1, ls)) fs"
  by pat_completeness auto
termination
  by (relation "measure (\<lambda>(cur, fs). 2 * length fs + (if cur = None then 0 else 1))") auto

text \<open>The receiver is in the middle of the file \<open>name\<close>, at line \<open>n\<close>.\<close>

definition at_line :: "mr_main_receiver_t \<Rightarrow> path \<Rightarrow> nat \<Rightarrow> bool" where
  "at_line r name n \<longleftrightarrow>
     current_file_name r = Some (name @ [0]) \<and>
     current_file_name_len r = word_of_nat (length name) \<and> length name < SSIZE_LIMIT \<and>
     current_line_number r = word_of_nat n \<and> \<not> file_finished r"

fun receiver_at :: "mr_main_receiver_t \<Rightarrow> reading \<Rightarrow> bool" where
  "receiver_at r None = file_finished r"
| "receiver_at r (Some (name, n, ls)) = at_line r name n"

text \<open>The line the receiver hands out.\<close>

definition line_struct :: "path \<Rightarrow> nat \<Rightarrow> byte list \<Rightarrow> mr_file_line_t" where
  "line_struct name n l =
     \<lparr>file_name = Some (name @ [0]), file_name_len = word_of_nat (length name),
      line_number = word_of_nat n, line = Some (l @ [0]), line_len = word_of_nat (length l)\<rparr>"

section \<open>Every round of the loop\<close>

lemma receive_line_content_ok:
  assumes ev: "evolve e0 e" and log: "log_ready L e0" and fd: "0 \<le> fd"
    and r: "at_line r name n" and stream: "rds s fd = l @ rest" and len: "length l < SSIZE_LIMIT"
    and good: "\<And>e'. evolve e0 e' \<Longrightarrow>
      Q (r\<lparr>current_line_number := word_of_nat (Suc n)\<rparr>, Got (line_struct name n l)) e'
        ((put_rd fd rest s)\<lparr>live := live s + 2\<rparr>)"
    and bad: "\<And>e' r' k leak. evolve e0 e' \<Longrightarrow> faulty e0 \<Longrightarrow> leak = 0 \<or> leak = 1 \<Longrightarrow>
      current_file_name r' = current_file_name r \<Longrightarrow>
      Q (r', Recv_error) e' ((put_rd fd (drop k (rds s fd)) s)\<lparr>live := live s + leak\<rparr>)"
  shows "ok (receive_line_content L fd r (word_of_nat (length l))) e s Q"
proof -
  have r': "current_file_name r = Some (name @ [0])"
    "current_file_name_len r = word_of_nat (length name)" "current_line_number r = word_of_nat n"
    "unat ((word_of_nat (length name) :: size_t) + 1) = Suc (length name)"
    using r by (auto simp: at_line_def unat_size_succ)
  have copy: "take (Suc (length name)) (the (Some (name @ [0]))) = name @ [0]" by simp
  have succ: "word_of_nat n + 1 = (word_of_nat (Suc n) :: ulong)" by simp
  let ?s1 = "s\<lparr>live := live s + 1\<rparr>" and ?s2 = "s\<lparr>live := 2 + live s\<rparr>"
  let ?r1 = "r\<lparr>current_line_number := word_of_nat (Suc n)\<rparr>"
  let ?fin = "\<lambda>m. bind_io (poke (length l) 0 m) (\<lambda>content. return_io (?r1, Got
      \<lparr>file_name = Some (name @ [0]), file_name_len = word_of_nat (length name),
       line_number = word_of_nat n, line = Some content, line_len = word_of_nat (length l)\<rparr>))"
  have fin: "ok (?fin (l @ drop (length l) b)) e' ((put_rd fd rest s)\<lparr>live := 2 + live s\<rparr>) Q"
    if "evolve e0 e'" and "length b = Suc (length l)" for e' b
    using good [OF that(1)] that(2)
    by (simp add: ok_simps nul_terminated line_struct_def add.commute)
  have body: "ok (if 0 < (word_of_nat (length l) :: size_t) then
       SYSCALL_RET (?r1, Recv_error) fst (read_n fd b (length l))
         (seq_io (mr_log_error L p t f) (c_free (Some b))) (\<lambda>(_, m). ?fin m)
      else ?fin b) e' ?s2 Q"
    if e': "evolve e0 e'" and b: "length b = Suc (length l)" for e' b p t f
  proof (cases "0 < length l")
    case False
    then show ?thesis using fin [OF e' b] stream len by simp
  next
    case True
    have "ok (SYSCALL_RET (?r1, Recv_error) fst (read_n fd b (length l))
         (seq_io (mr_log_error L p t f) (c_free (Some b))) (\<lambda>(_, m). ?fin m)) e' ?s2 Q"
    proof (rule read_exact_ok [OF e' fd _ len, where xs = l and rest = rest])
      fix e'' m assume "evolve e0 e''" "faulty e0"
      then show "ok (seq_io (mr_log_error L p t f) (c_free (Some b))) e''
           (put_rd fd (drop m (rds ?s2 fd)) ?s2) (\<lambda>_. Q (?r1, Recv_error))"
        using bad [of _ 1 ?r1 m] by (auto simp: ok_simps add.commute intro!: log_error_ok [OF _ log])
    next
      fix e'' assume "evolve e0 e''"
      from fin [OF this b]
      show "ok (case (int (length l), l @ drop (length l) b) of (_, m) \<Rightarrow> ?fin m) e''
              (put_rd fd rest ?s2) Q" by simp
    qed (use b stream in simp_all)
    then show ?thesis using True len by simp
  qed
  show ?thesis
    unfolding receive_line_content_def ok_bind Let_def r' copy unat_size_succ [OF len]
      unat_of_nat_small [OF len] succ
    apply (rule c_malloc_ok [OF ev])
     apply (simp add: ok_simps del: of_nat_Suc split del: if_split)
     apply (erule c_malloc_ok)
      apply (simp split del: if_split del: of_nat_Suc)
      apply (unfold option.sel)
      apply (erule (1) body)
     apply (use bad [of _ 1 ?r1 0] in \<open>auto simp: ok_simps intro!: log_error_ok [OF _ log]\<close>)[1]
    apply (use bad [of _ 0 r 0] in \<open>auto simp: ok_simps intro!: log_error_ok [OF _ log]\<close>)
    done
qed

text \<open>
  The state after an error: some of the stream consumed, and the block of the file name
  accounted for. At most one block is lost.
\<close>

abbreviation consumed :: "int \<Rightarrow> nat \<Rightarrow> int \<Rightarrow> 's state_scheme \<Rightarrow> 's state_scheme" where
  "consumed fd k d s \<equiv> (put_rd fd (drop k (rds s fd)) s)\<lparr>live := live s + d\<rparr>"

abbreviation name_blocks :: "mr_main_receiver_t \<Rightarrow> int" where
  "name_blocks r \<equiv> blocks (current_file_name r)"

text \<open>From \<open>r\<close> to \<open>r'\<close> the heap grew by \<open>d\<close> blocks, at most one of which nobody owns.\<close>

definition at_most_one_lost :: "mr_main_receiver_t \<Rightarrow> mr_main_receiver_t \<Rightarrow> int \<Rightarrow> bool" where
  "at_most_one_lost r r' d \<longleftrightarrow>
     d = name_blocks r' - name_blocks r \<or> d = name_blocks r' - name_blocks r + 1"

definition failing ::
    "env \<Rightarrow> int \<Rightarrow> mr_main_receiver_t \<Rightarrow> 's state_scheme
      \<Rightarrow> (mr_main_receiver_t \<times> mr_file_line_t recv \<Rightarrow> env \<Rightarrow> 's state_scheme \<Rightarrow> bool) \<Rightarrow> bool" where
  "failing e0 fd r s Q \<longleftrightarrow>
     (\<forall>e' r' k d. evolve e0 e' \<longrightarrow> faulty e0 \<longrightarrow> at_most_one_lost r r' d \<longrightarrow>
        Q (r', Recv_error) e' (consumed fd k d s))"

lemma failingD:
  "failing e0 fd r s Q \<Longrightarrow> evolve e0 e' \<Longrightarrow> faulty e0 \<Longrightarrow> at_most_one_lost r r' d \<Longrightarrow>
   s' = consumed fd k d s \<Longrightarrow> Q (r', Recv_error) e' s'"
  by (auto simp: failing_def)

lemma at_most_one_lost_same [simp]:
  "at_most_one_lost r r 0" "at_most_one_lost r r 1"
  "current_file_name r' = current_file_name r \<Longrightarrow> at_most_one_lost r r' d \<longleftrightarrow> d = 0 \<or> d = 1"
  by (auto simp: at_most_one_lost_def)

lemma failing_later:
  assumes "failing e0 fd r s Q" and "rds s fd = xs @ rest" and "d = name_blocks r' - name_blocks r"
  shows "failing e0 fd r' ((put_rd fd rest s)\<lparr>live := live s + d\<rparr>) Q"
  unfolding failing_def
proof (intro allI impI)
  fix e' r'' k c
  assume "evolve e0 e'" "faulty e0" "at_most_one_lost r' r'' c"
  moreover from this assms(3) have "at_most_one_lost r r'' (d + c)"
    by (auto simp: at_most_one_lost_def)
  ultimately show "Q (r'', Recv_error) e' (consumed fd k c ((put_rd fd rest s)\<lparr>live := live s + d\<rparr>))"
    by (intro failingD [OF assms(1), where k = "length xs + k" and d = "d + c"])
       (auto simp: assms(2) add.assoc)
qed

lemma receive_line_header_line:
  assumes ev: "evolve e0 e" and log: "log_ready L e0" and fd: "0 \<le> fd"
    and r: "at_line r name n" and stream: "rds s fd = line_bytes pad l @ rest"
    and len: "length l < SSIZE_LIMIT"
    and good: "\<And>e'. evolve e0 e' \<Longrightarrow>
      Q (r\<lparr>current_line_number := word_of_nat (Suc n)\<rparr>, Got (line_struct name n l)) e'
        ((put_rd fd rest s)\<lparr>live := live s + 2\<rparr>)"
    and bad: "failing e0 fd r s Q"
  shows "ok (receive_line_header L fd r again) e s Q"
proof -
  let ?h = "enc_line_header pad \<lparr>eof = False, line_length = word_of_nat (length l)\<rparr>"
  have stream': "rds s fd = ?h @ (l @ rest)" by (simp add: stream line_bytes_def)
  have later: "failing e0 fd r (put_rd fd (l @ rest) s) Q"
    using failing_later [OF bad stream', of 0 r] by simp
  have content: "ok (receive_line_content L fd r (word_of_nat (length l))) e'
      (put_rd fd (l @ rest) s) Q" if "evolve e0 e'" for e'
    by (rule receive_line_content_ok [OF that log fd r _ len])
       (use good failingD [OF later] in auto)
  show ?thesis
    unfolding receive_line_header_def
    apply (simp only: ok_simps)
    apply (rule read_exact_ok [OF ev fd _ _ stream']; (simp add: ok_simps content)?)
    apply (rule log_error_ok [OF _ log], assumption)
    apply (rule failingD [OF bad, of _ r 0]; simp)
    done
qed

lemma receive_line_header_eof:
  assumes ev: "evolve e0 e" and log: "log_ready L e0" and fd: "0 \<le> fd"
    and stream: "rds s fd = eof_bytes pad @ rest"
    and next_round: "\<And>e'. evolve e0 e' \<Longrightarrow>
      ok (again (r\<lparr>file_finished := True\<rparr>)) e' (put_rd fd rest s) Q"
    and bad: "failing e0 fd r s Q"
  shows "ok (receive_line_header L fd r again) e s Q"
  unfolding receive_line_header_def
  apply (simp only: ok_simps)
  apply (rule read_exact_ok [OF ev fd _ _ stream [unfolded eof_bytes_def]]; (simp add: ok_simps next_round)?)
  apply (rule log_error_ok [OF _ log], assumption)
  apply (rule failingD [OF bad, of _ r 0]; simp)
  done

lemma receive_file_name_end:
  assumes ev: "evolve e0 e" and log: "log_ready L e0" and fd: "0 \<le> fd" and stream: "rds s fd = []"
    and good: "\<And>e'. evolve e0 e' \<Longrightarrow>
      Q (r\<lparr>current_file_name := None\<rparr>, Stream_end) e' (s\<lparr>live := live s - name_blocks r\<rparr>)"
    and bad: "failing e0 fd r s Q"
  shows "ok (receive_file_name L fd r k) e s Q"
  unfolding receive_file_name_def
  apply (simp only: ok_simps)
  apply (rule read_check_ok [OF ev fd]; (simp add: stream ok_simps)?)
   apply (use good in \<open>auto split: option.splits\<close>)[1]
  apply (rule log_error_ok [OF _ log], assumption)
  apply (rule failingD [OF bad, of _ r 0 _ 0]; simp add: stream)
  done

definition start_of :: "path \<Rightarrow> mr_main_receiver_t" where
  "start_of name =
     \<lparr>current_file_name = Some (name @ [0]), current_file_name_len = word_of_nat (length name),
      current_line_number = 1, file_finished = False\<rparr>"

lemma start_of_at_line: "length name < SSIZE_LIMIT \<Longrightarrow> at_line (start_of name) name 1"
  by (simp add: start_of_def at_line_def)

lemma receive_file_name_start:
  assumes ev: "evolve e0 e" and log: "log_ready L e0" and fd: "0 \<le> fd"
    and stream: "rds s fd = file_start name @ rest" and len: "length name < SSIZE_LIMIT"
    and next_part: "\<And>e'. evolve e0 e' \<Longrightarrow>
      ok (k (start_of name)) e' ((put_rd fd rest s)\<lparr>live := live s + (1 - name_blocks r)\<rparr>) Q"
    and bad: "failing e0 fd r s Q"
  shows "ok (receive_file_name L fd r k) e s Q"
proof -
  let ?h = "enc_file_name_header \<lparr>file_name_length = word_of_nat (length name)\<rparr>"
  let ?r0 = "r\<lparr>current_file_name := None\<rparr>"
  have stream': "rds s fd = ?h @ name @ rest" by (simp add: stream file_start_def)
  let ?s1 = "(put_rd fd (name @ rest) s)\<lparr>live := live s - name_blocks r\<rparr>"
  have later: "failing e0 fd ?r0 ?s1 Q"
    using failing_later [OF bad stream', of "- name_blocks r" ?r0] by simp
  let ?s2 = "(put_rd fd (name @ rest) s)\<lparr>live := live s - name_blocks r + 1\<rparr>"
  let ?fin = "\<lambda>(_, m). bind_io (poke (length name) 0 m) (\<lambda>m. k \<lparr>current_file_name = Some m,
     current_file_name_len = word_of_nat (length name), current_line_number = 1, file_finished = False\<rparr>)"
  have body: "ok (SYSCALL_RET (?r0, Recv_error) fst (read_n fd b (length name))
       (seq_io (mr_log_error L p t f) (c_free (Some b))) ?fin) e' ?s2 Q"
    if e': "evolve e0 e'" and b: "length b = Suc (length name)" for e' b p t f
  proof (rule read_exact_ok [OF e' fd _ len, where xs = name and rest = rest])
    fix e'' assume "evolve e0 e''"
    from next_part [OF this]
    show "ok (?fin (int (length name), name @ drop (length name) b)) e'' (put_rd fd rest ?s2) Q"
      using b by (simp add: ok_simps nul_terminated start_of_def algebra_simps)
  next
    fix e'' m assume "evolve e0 e''" and "faulty e0"
    then show "ok (seq_io (mr_log_error L p t f) (c_free (Some b))) e''
        (put_rd fd (drop m (rds ?s2 fd)) ?s2) (\<lambda>_. Q (?r0, Recv_error))"
      by (auto simp: ok_simps intro!: log_error_ok [OF _ log]
               intro: failingD [OF later, where k = m and d = 0])
  qed (use b in simp_all)
  show ?thesis
    unfolding receive_file_name_def
    apply (simp only: ok_simps)
    apply (rule read_exact_ok [OF ev fd _ _ stream'];
        (simp add: ok_simps Let_def unat_size_succ [OF len] unat_of_nat_small [OF len]
           split del: if_split)?)
     apply (rule c_malloc_ok, assumption)
      apply (simp add: unat_of_nat_small [OF len])
      apply (erule (1) body)
     apply (auto simp: ok_simps intro!: log_error_ok [OF _ log]
               intro: failingD [OF later, where k = 0 and d = 0])[1]
    apply (rule log_error_ok [OF _ log], assumption)
    apply (rule failingD [OF bad, of _ r 0]; simp)
    done
qed

section \<open>One call on a stream of files\<close>

definition small_file :: "path \<times> byte list list \<Rightarrow> bool" where
  "small_file f \<longleftrightarrow> length (fst f) < SSIZE_LIMIT \<and> (\<forall>l \<in> set (snd f). length l < SSIZE_LIMIT)"

fun small_reading :: "reading \<Rightarrow> bool" where
  "small_reading None = True"
| "small_reading (Some (name, n, ls)) = small_file (name, ls)"

text \<open>
  What \<open>Q\<close> has to accept: the next line with the receiver behind it, or the end of the stream,
  or an error. \<open>q\<close> is the result of \<open>next_line\<close>.
\<close>

fun accepts ::
    "env \<Rightarrow> int \<Rightarrow> byte list \<Rightarrow> mr_main_receiver_t \<Rightarrow> 's state_scheme
      \<Rightarrow> ((path \<times> nat \<times> byte list) \<times> reading \<times> (path \<times> byte list list) list) option
      \<Rightarrow> (mr_main_receiver_t \<times> mr_file_line_t recv \<Rightarrow> env \<Rightarrow> 's state_scheme \<Rightarrow> bool) \<Rightarrow> bool" where
  "accepts e0 fd pad r s (Some ((name, n, l), cur, fs)) Q \<longleftrightarrow>
     (\<forall>e' r'. evolve e0 e' \<longrightarrow> receiver_at r' cur \<longrightarrow>
        Q (r', Got (line_struct name n l)) e'
          ((put_rd fd (remaining_bytes pad cur fs) s)
             \<lparr>live := live s + (name_blocks r' - name_blocks r + 2)\<rparr>))"
| "accepts e0 fd pad r s None Q \<longleftrightarrow>
     (\<forall>e' r'. evolve e0 e' \<longrightarrow> current_file_name r' = None \<longrightarrow> receiver_at r' None \<longrightarrow>
        Q (r', Stream_end) e' ((put_rd fd [] s)\<lparr>live := live s - name_blocks r\<rparr>))"

lemma accepts_later:
  assumes "accepts e0 fd pad r s q Q" and "d = name_blocks r' - name_blocks r"
  shows "accepts e0 fd pad r' ((put_rd fd rest s)\<lparr>live := live s + d\<rparr>) q Q"
proof -
  have "name_blocks r' = name_blocks r + d" using assms(2) by simp
  then show ?thesis
    using assms(1)
    by (cases "(e0, fd, pad, r, s, q, Q)" rule: accepts.cases)
       (auto simp: algebra_simps simp del: diff_diff_eq)
qed

lemma line_bytes_pos: "0 < length (eof_bytes pad)"
  by (simp add: eof_bytes_def)

text \<open>In the middle of a file; \<open>again\<close> has to do for the files after it.\<close>

lemma read_line_ok:
  assumes ev: "evolve e0 e" and log: "log_ready L e0" and fd: "0 \<le> fd"
    and r: "at_line r name n" and stream: "rds s fd = file_body pad ls @ files_bytes pad fs"
    and small: "\<forall>l \<in> set ls. length l < SSIZE_LIMIT"
    and good: "accepts e0 fd pad r s (next_line (Some (name, n, ls)) fs) Q"
    and bad: "failing e0 fd r s Q"
    and again: "\<And>e' r'. ls = [] \<Longrightarrow> evolve e0 e' \<Longrightarrow> file_finished r' \<Longrightarrow>
      current_file_name r' = current_file_name r \<Longrightarrow>
      ok (again r') e' (put_rd fd (files_bytes pad fs) s) Q"
  shows "ok (receive_line_header L fd r again) e s Q"
proof (cases ls)
  case Nil
  with stream have "rds s fd = eof_bytes pad @ files_bytes pad fs" by (simp add: file_body_def)
  from receive_line_header_eof [OF ev log fd this] again [OF Nil] bad show ?thesis by simp
next
  case (Cons l ls')
  let ?rest = "file_body pad ls' @ files_bytes pad fs"
  from Cons stream have "rds s fd = line_bytes pad l @ ?rest" by (simp add: file_body_def)
  then show ?thesis
  proof (rule receive_line_header_line [OF ev log fd r])
    fix e' assume "evolve e0 e'"
    moreover have "at_line (r\<lparr>current_line_number := word_of_nat (Suc n)\<rparr>) name (Suc n)"
      using r by (simp add: at_line_def)
    ultimately show "Q (r\<lparr>current_line_number := word_of_nat (Suc n)\<rparr>, Got (line_struct name n l)) e'
        ((put_rd fd ?rest s)\<lparr>live := live s + 2\<rparr>)"
      using good Cons by (auto dest!: spec)
  qed (use small Cons bad in auto)
qed

lemma receive_line_loop_between:
  assumes "evolve e0 e" and log: "log_ready L e0" and fd: "0 \<le> fd"
    and "file_finished r" and "rds s fd = files_bytes pad fs" and "\<forall>f \<in> set fs. small_file f"
    and "accepts e0 fd pad r s (next_line None fs) Q" and "failing e0 fd r s Q"
    and "length fs < fuel"
  shows "ok (receive_line_loop fuel L fd r) e s Q"
  using assms
proof (induction fs arbitrary: e r s fuel)
  case Nil
  note prems = Nil.prems
  obtain n where n: "fuel = Suc n" using prems(9) by (cases fuel) auto
  have empty: "rds s fd = []" using prems(5) by (simp add: files_bytes_def)
  then have "ok (receive_file_name L fd r k) e s Q" for k
    using prems(7,8)
    by (intro receive_file_name_end [OF prems(1) log fd]) (auto simp: prems(4))
  then show ?case using prems(4) by (simp add: n)
next
  case (Cons f fs)
  note prems = Cons.prems
  obtain n where n: "fuel = Suc n" "length fs < n" using prems(9) by (cases fuel) auto
  obtain name ls where f: "f = (name, ls)" by (cases f)
  have small: "length name < SSIZE_LIMIT" "\<forall>l \<in> set ls. length l < SSIZE_LIMIT"
    using prems(6) by (auto simp: f small_file_def)
  let ?rest = "file_body pad ls @ files_bytes pad fs" and ?d = "1 - name_blocks r"
  let ?s = "(put_rd fd ?rest s)\<lparr>live := live s + ?d\<rparr>"
  have stream: "rds s fd = file_start name @ ?rest"
    using prems(5) by (simp add: f files_bytes_def file_bytes_def)
  have d: "?d = name_blocks (start_of name) - name_blocks r" by (simp add: start_of_def)
  note good' = accepts_later [OF prems(7) d, where rest = ?rest]
  note bad' = failing_later [OF prems(8) stream d]
  have "ok (receive_line_header L fd (start_of name) (receive_line_loop n L fd)) e' ?s Q"
    if "evolve e0 e'" for e'
  proof (rule read_line_ok [OF that log fd start_of_at_line [OF small(1)] _ small(2)])
    fix e'' and r' :: mr_main_receiver_t assume "ls = []" "evolve e0 e''" "file_finished r'"
      and same: "current_file_name r' = current_file_name (start_of name)"
    let ?s' = "put_rd fd (files_bytes pad fs) ?s"
    have stream': "rds ?s fd = eof_bytes pad @ files_bytes pad fs"
      using \<open>ls = []\<close> by (simp add: file_body_def)
    have "accepts e0 fd pad r' ?s' (next_line None fs) Q"
      using accepts_later [OF good', of 0 r' "files_bytes pad fs"] same \<open>ls = []\<close> by (simp add: f)
    moreover have "failing e0 fd r' ?s' Q"
      using failing_later [OF bad' stream', of 0 r'] same by simp
    ultimately show "ok (receive_line_loop n L fd r') e'' ?s' Q"
      using \<open>file_finished r'\<close> prems(6) n(2) by (intro Cons.IH [OF \<open>evolve e0 e''\<close> log fd]) auto
  qed (use good' bad' f in auto)
  then have "ok (receive_file_name L fd r
      (\<lambda>r. receive_line_header L fd r (receive_line_loop n L fd))) e s Q"
    by (intro receive_file_name_start [OF prems(1) log fd stream small(1) _ prems(8)])
  then show ?case using prems(4) by (simp add: n)
qed

lemma receive_line_loop_ok:
  assumes ev: "evolve e0 e" and log: "log_ready L e0" and fd: "0 \<le> fd"
    and r: "receiver_at r cur" and stream: "rds s fd = remaining_bytes pad cur fs"
    and small: "small_reading cur" "\<forall>f \<in> set fs. small_file f"
    and good: "accepts e0 fd pad r s (next_line cur fs) Q" and bad: "failing e0 fd r s Q"
    and fuel: "Suc (length fs) < fuel"
  shows "ok (receive_line_loop fuel L fd r) e s Q"
proof (cases cur)
  case None
  then show ?thesis using assms by (intro receive_line_loop_between [OF ev log fd]) auto
next
  case (Some c)
  obtain name m ls where c: "c = (name, m, ls)" by (cases c)
  obtain n where n: "fuel = Suc n" "length fs < n" using fuel by (cases fuel) auto
  have at: "at_line r name m" using r Some c by simp
  have "ok (receive_line_header L fd r (receive_line_loop n L fd)) e s Q"
  proof (rule read_line_ok [OF ev log fd at])
    fix e' and r' :: mr_main_receiver_t assume "ls = []" "evolve e0 e'" "file_finished r'"
      and same: "current_file_name r' = current_file_name r"
    let ?s = "put_rd fd (files_bytes pad fs) s"
    have stream': "rds s fd = eof_bytes pad @ files_bytes pad fs"
      using \<open>ls = []\<close> stream Some c by (simp add: file_body_def)
    have "accepts e0 fd pad r' ?s (next_line None fs) Q"
      using accepts_later [OF good, of 0 r' "files_bytes pad fs"] same \<open>ls = []\<close> Some c by simp
    moreover have "failing e0 fd r' ?s Q"
      using failing_later [OF bad stream', of 0 r'] same by simp
    ultimately show "ok (receive_line_loop n L fd r') e' ?s Q"
      using \<open>file_finished r'\<close> small n(2)
      by (intro receive_line_loop_between [OF \<open>evolve e0 e'\<close> log fd]) auto
  qed (use good bad small stream Some c in \<open>auto simp: small_file_def\<close>)
  then show ?thesis using at by (simp add: n at_line_def)
qed

lemma files_bytes_long: "length fs \<le> length (files_bytes pad fs)"
  by (induction fs) (auto simp: files_bytes_def file_bytes_def file_body_def eof_bytes_def)

lemma remaining_bytes_long: "length fs \<le> length (remaining_bytes pad cur fs)"
  using files_bytes_long [of fs pad]
  by (cases cur) (auto simp: trans_le_add2)

text \<open>
  One call: it returns the next line of the stream with the right file name, number and bytes
  and leaves the receiver and the stream right behind it; or the end of the stream, with the file
  name freed; or, when a call has failed, -1, with at most one heap block lost.
\<close>

lemma receive_line_ok:
  assumes "evolve e0 e" and "log_ready L e0" and fd: "0 \<le> fd"
    and "receiver_at r cur" and stream: "rds s fd = remaining_bytes pad cur fs"
    and "small_reading cur" "\<forall>f \<in> set fs. small_file f"
    and "accepts e0 fd pad r s (next_line cur fs) Q" and "failing e0 fd r s Q"
  shows "ok (receive_line_from_main_fd L fd r) e s Q"
  using receive_line_loop_ok [OF assms(1-9), of "Suc (Suc (length (rds s fd)))"]
    remaining_bytes_long [of fs pad cur] fd
  by (simp add: receive_line_from_main_fd_def ok_simps stream del: receive_line_loop.simps)

section \<open>Every call on every stream ends\<close>

lemma poke_halts: "halts (poke i v b) e s Q \<longleftrightarrow> (i < length b \<longrightarrow> Q (b[i := v]) e s)"
  by (simp add: poke_def halts_simps)

lemma receive_line_content_halts:
  assumes "\<And>r e' s'. length (rds s' fd) \<le> length (rds s fd) \<Longrightarrow> Q r e' s'"
  shows "halts (receive_line_content L fd r n) e s Q"
  unfolding receive_line_content_def Let_def
  using assms
  by (auto simp: halts_simps poke_halts
           intro!: c_malloc_halts mr_log_halts read_n_halts)

lemma receive_line_header_halts:
  assumes good: "\<And>x e' s'. Q x e' s'"
    and again: "\<And>r e' s'. file_finished r \<Longrightarrow> length (rds s' fd) \<le> length (rds s fd) \<Longrightarrow>
      halts (again r) e' s' Q"
  shows "halts (receive_line_header L fd r again) e s Q"
  unfolding receive_line_header_def Let_def
  by (auto simp: halts_simps good
           intro!: mr_log_halts read_n_halts receive_line_content_halts again)

lemma receive_file_name_halts:
  assumes good: "\<And>x e' s'. Q x e' s'"
    and k: "\<And>r e' s'. length (rds s' fd) < length (rds s fd) \<Longrightarrow> halts (k r) e' s' Q"
  shows "halts (receive_file_name L fd r k) e s Q"
  unfolding receive_file_name_def Let_def
  apply (simp only: halts_simps)
  apply (rule read_n_halts)
  apply (auto simp: halts_simps good intro!: mr_log_halts)
  apply (rule c_malloc_halts)
  apply (auto simp: halts_simps good intro!: mr_log_halts)
  apply (rule read_n_halts)
  apply (auto simp: halts_simps poke_halts good intro!: mr_log_halts k)
  done

text \<open>A round that goes on from a finished file has taken a byte off the stream.\<close>

lemma receive_line_loop_halts:
  fixes s :: "'s state_scheme"
  assumes "length (rds s fd) + (if file_finished r then 1 else 2) \<le> fuel"
  shows "halts (receive_line_loop fuel L fd r) e s (\<lambda>_ _ _. True)"
  using assms
proof (induction fuel arbitrary: r e s)
  case 0
  then show ?case by (simp split: if_splits)
next
  case (Suc fuel)
  have "halts (receive_line_header L fd r' (receive_line_loop fuel L fd)) e' s' (\<lambda>_ _ _. True)"
    if "length (rds s' fd) + 1 \<le> fuel" for r' e' and s' :: "'s state_scheme"
    by (rule receive_line_header_halts) (use that in \<open>auto intro!: Suc.IH\<close>)
  then show ?case
    using Suc.prems by (auto simp: Let_def intro!: receive_file_name_halts)
qed

lemma receive_line_halts: "halts (receive_line_from_main_fd L fd r) e s (\<lambda>_ _ _. True)"
  unfolding receive_line_from_main_fd_def
  by (auto simp: halts_simps simp del: receive_line_loop.simps intro!: receive_line_loop_halts)

section \<open>The lines of a stream\<close>

text \<open>Every line of every file, with the name of its file and its number from 1.\<close>

definition numbered :: "path \<Rightarrow> nat \<Rightarrow> byte list list \<Rightarrow> (path \<times> nat \<times> byte list) list" where
  "numbered name n ls = map (\<lambda>(i, l). (name, i, l)) (enumerate n ls)"

fun all_lines ::
    "reading \<Rightarrow> (path \<times> byte list list) list \<Rightarrow> (path \<times> nat \<times> byte list) list" where
  "all_lines None fs = concat (map (\<lambda>(name, ls). numbered name 1 ls) fs)"
| "all_lines (Some (name, n, ls)) fs =
     numbered name n ls @ concat (map (\<lambda>(name, ls). numbered name 1 ls) fs)"

lemma numbered_simps [simp]:
  "numbered name n [] = []" "numbered name n (l # ls) = (name, n, l) # numbered name (Suc n) ls"
  by (simp_all add: numbered_def)

lemma all_lines_None: "next_line cur fs = None \<Longrightarrow> all_lines cur fs = []"
  by (induction cur fs rule: next_line.induct) simp_all

lemma all_lines_Some:
  "next_line cur fs = Some (x, cur', fs') \<Longrightarrow> all_lines cur fs = x # all_lines cur' fs'"
proof (induction cur fs rule: next_line.induct)
  case (1 name n l ls fs)
  then show ?case by auto
next
  case (2 name n fs)
  then have "all_lines None fs = x # all_lines cur' fs'" by simp
  then show ?case by simp
next
  case (4 name ls fs)
  then have "all_lines (Some (name, 1, ls)) fs = x # all_lines cur' fs'" by simp
  then show ?case by simp
qed simp

lemma next_line_Some:
  assumes "all_lines cur fs = x # xs"
  shows "\<exists>cur' fs'. next_line cur fs = Some (x, cur', fs') \<and> xs = all_lines cur' fs'"
proof (cases "next_line cur fs")
  case None
  then show ?thesis using all_lines_None assms by fastforce
next
  case (Some r)
  obtain y cur' fs' where "r = (y, cur', fs')" by (cases r)
  with Some have "next_line cur fs = Some (y, cur', fs')" by simp
  from this all_lines_Some [OF this] assms show ?thesis by simp
qed

lemma next_line_None: "all_lines cur fs = [] \<Longrightarrow> next_line cur fs = None"
  by (cases "next_line cur fs") (use all_lines_Some in fastforce)+

lemma next_line_small:
  "next_line cur fs = Some (x, cur', fs') \<Longrightarrow> small_reading cur \<Longrightarrow> \<forall>f \<in> set fs. small_file f \<Longrightarrow>
   small_reading cur' \<and> (\<forall>f \<in> set fs'. small_file f)"
proof (induction cur fs rule: next_line.induct)
  case (1 name n l ls fs)
  then show ?case by (auto simp: small_file_def)
next
  case (4 name ls fs)
  then have "small_reading (Some (name, 1, ls))" and "\<forall>f \<in> set fs. small_file f" by simp_all
  with 4 show ?case by simp
qed simp_all

section \<open>Properties\<close>

text \<open>On a stream of files a call of \<open>receive_line_from_main_fd\<close> gives the next line: with the
  bytes of the line, the name of its file and its number in the file, in fresh memory (two blocks
  more), the receiver and the stream right behind it, whatever the sizes of the reads. The only
  other outcome is -1 after a failed call, and then at most one block is lost.\<close>

theorem receive_line_next:
  assumes "log_ready L e" and "0 \<le> fd" and "receiver_at r cur"
    and "rds s fd = remaining_bytes pad cur fs" and "small_reading cur" and "\<forall>f \<in> set fs. small_file f"
    and next_line: "next_line cur fs = Some ((name, n, l), cur', fs')"
  shows "ok (receive_line_from_main_fd L fd r) e s (\<lambda>(r', res) e' s'.
    res = Got (line_struct name n l) \<and> receiver_at r' cur' \<and>
    s' = (put_rd fd (remaining_bytes pad cur' fs') s)
           \<lparr>live := live s + (name_blocks r' - name_blocks r + 2)\<rparr> \<or>
    res = Recv_error \<and> faulty e \<and> at_most_one_lost r r' (live s' - live s))"
  by (rule receive_line_ok [OF evolve_refl assms(1-6)]) (auto simp: next_line failing_def)

text \<open>When no line is left the call returns 1, the stream is used up and the receiver has freed
  the name of the last file: it holds no memory.\<close>

theorem receive_line_end:
  assumes "log_ready L e" and "0 \<le> fd" and "receiver_at r cur"
    and "rds s fd = remaining_bytes pad cur fs" and "small_reading cur" and "\<forall>f \<in> set fs. small_file f"
    and no_line: "next_line cur fs = None"
  shows "ok (receive_line_from_main_fd L fd r) e s (\<lambda>(r', res) e' s'.
    res = Stream_end \<and> name_blocks r' = 0 \<and> s' = (put_rd fd [] s)\<lparr>live := live s - name_blocks r\<rparr> \<or>
    res = Recv_error \<and> faulty e \<and> at_most_one_lost r r' (live s' - live s))"
  by (rule receive_line_ok [OF evolve_refl assms(1-6)]) (auto simp: no_line failing_def)

definition example_files :: "(path \<times> byte list list) list" where
  "example_files = [([97], []), ([98], [[120, 121], []])]"

lemma example_files_small: "\<forall>f \<in> set example_files. small_file f"
  by (simp add: example_files_def small_file_def)

theorem receive_line_next_witness:
  "ok (receive_line_from_main_fd example_log 0 mr_main_receiver_init) (example_env [Part 2, Full])
     (example_state (files_bytes [] example_files)) (\<lambda>(r', res) e' s'.
       res = Got (line_struct [98] 1 [120, 121]) \<and> live s' = 3)"
  by (rule ok_mono [OF receive_line_next [where cur = None and fs = example_files and pad = "[]"
          and name = "[98]" and n = 1 and l = "[120, 121]" and cur' = "Some ([98], 2, [[]])" and fs' = "[]"]])
     (auto simp: example_files_small mr_main_receiver_init_def at_line_def numeral_2_eq_2,
      simp_all add: example_files_def)

theorem receive_line_end_witness:
  "ok (receive_line_from_main_fd example_log 0 mr_main_receiver_init) (example_env [Part 2])
     (example_state (files_bytes [] [([97], [])])) (\<lambda>(r', res) e' s'.
       res = Stream_end \<and> live s' = 0 \<and> rds s' 0 = [])"
  by (rule ok_mono [OF receive_line_end [where cur = None and fs = "[([97], [])]" and pad = "[]"]])
     (auto simp: mr_main_receiver_init_def small_file_def)

text \<open>C10. The loop of \<open>receive_line_from_main_fd\<close> ends on every stream of bytes, well-formed or
  not, for every receiver state and every pattern of failed calls and short reads, in both builds:
  the number of its rounds is bounded by the length of the stream.\<close>

theorem receive_line_terminates: "fst (receive_line_from_main_fd L fd r w) \<noteq> Inl Out_Of_Fuel"
  by (cases w) (simp add: halts_no_fuel [OF receive_line_halts])

end
