(* ===== verification/Mr_Channel.thy ===== *)
theory Mr_Channel
  imports Mr_Lines
begin

text \<open>
  The contract between the two ends of a pipe: a source of messages hands out exactly the
  messages still pending on its stream, in order, then the end of the stream. It is stated as a
  locale, with the loop of the receiving process (\<open>src/mapper.c\<close> lines 157-186 and
  \<open>src/reducer.c\<close> lines 299-322) proved once, and interpreted for the line receiver of the mapper
  and the pair receiver of the reducer.
\<close>

section \<open>The interface\<close>

text \<open>Receive until the source reports its end or an error, at most \<open>n\<close> times.\<close>

primrec drain ::
    "nat \<Rightarrow> ('c \<Rightarrow> ('w, 'c \<times> 'm recv) io) \<Rightarrow> 'c \<Rightarrow> ('w, 'm list \<times> int) io" where
  "drain 0 recv c = stop_io Out_Of_Fuel"
| "drain (Suc n) recv c =
     bind_io (recv c) (\<lambda>(c', res).
       case res of
         Got m \<Rightarrow> bind_io (drain n recv c') (\<lambda>(ms, code). return_io (m # ms, code))
       | _ \<Rightarrow> return_io ([], recv_code res))"

locale message_source =
  fixes recv :: "'c \<Rightarrow> (env \<times> 's state_scheme, 'c \<times> 'm recv) io"
    and pending :: "env \<Rightarrow> 'c \<Rightarrow> 's state_scheme \<Rightarrow> 'x list \<Rightarrow> bool"
    and carries :: "'x \<Rightarrow> 'm \<Rightarrow> bool"
  assumes recv_next: "pending e c s (x # xs) \<Longrightarrow>
      ok (recv c) e s (\<lambda>(c', res) e' s'. evolve e e' \<and>
        ((\<exists>m. res = Got m \<and> carries x m \<and> pending e' c' s' xs) \<or> res = Recv_error \<and> faulty e))"
    and recv_end: "pending e c s [] \<Longrightarrow>
      ok (recv c) e s (\<lambda>(c', res) e' s'. evolve e e' \<and>
        (res = Stream_end \<or> res = Recv_error \<and> faulty e))"
begin

text \<open>The loop ends and collects every message, or stops at an error after the first few.\<close>

lemma drain_all:
  "pending e c s xs \<Longrightarrow> length xs < n \<Longrightarrow>
   ok (drain n recv c) e s (\<lambda>(ms, code) e' s'. evolve e e' \<and>
     (code = 1 \<and> list_all2 carries xs ms \<or>
      code = -1 \<and> faulty e \<and> (\<exists>k. list_all2 carries (take k xs) ms)))"
proof (induction xs arbitrary: n e c s)
  case Nil
  then obtain k where n: "n = Suc k" by (cases n) auto
  show ?case
    by (simp add: n ok_simps) (rule ok_mono [OF recv_end [OF Nil.prems(1)]]; auto simp: ok_simps)
next
  case (Cons x xs)
  then obtain k where n: "n = Suc k" "length xs < k" by (cases n) auto
  show ?case
    apply (simp add: n ok_simps)
    apply (rule ok_mono [OF recv_next [OF Cons.prems(1)]])
    apply (auto simp: ok_simps)
     apply (rule ok_mono [OF Cons.IH [OF _ n(2)]], assumption)
     apply (clarsimp simp: ok_simps)
     apply (intro conjI; (erule (1) evolve_trans)?)
     apply (elim disjE conjE exE; simp)
     apply (intro conjI; (erule (1) evolve_faulty)?)
     apply (rule_tac x = "Suc k" in exI, simp)
    done
qed

end

section \<open>The lines of the input\<close>

definition lines_pending ::
    "mr_log_file_t \<Rightarrow> int \<Rightarrow> env \<Rightarrow> mr_main_receiver_t \<Rightarrow> 's state_scheme
      \<Rightarrow> (path \<times> nat \<times> byte list) list \<Rightarrow> bool" where
  "lines_pending L fd e r s xs \<longleftrightarrow>
     log_ready L e \<and> 0 \<le> fd \<and>
     (\<exists>pad cur fs. receiver_at r cur \<and> rds s fd = remaining_bytes pad cur fs \<and> small_reading cur \<and>
        (\<forall>f \<in> set fs. small_file f) \<and> xs = all_lines cur fs)"

definition carries_line :: "path \<times> nat \<times> byte list \<Rightarrow> mr_file_line_t \<Rightarrow> bool" where
  "carries_line x m \<longleftrightarrow> (case x of (name, n, l) \<Rightarrow> m = line_struct name n l)"

lemma log_ready_evolve: "log_ready L e \<Longrightarrow> evolve e e' \<Longrightarrow> log_ready L e'"
  by (auto simp: log_ready_def evolve_def)

interpretation line_source: message_source "receive_line_from_main_fd L fd"
    "lines_pending L fd" carries_line for L fd
proof unfold_locales
  fix e c and s :: "'a state_scheme" and x and xs :: "(path \<times> nat \<times> byte list) list"
  assume "lines_pending L fd e c s (x # xs)"
  then obtain pad cur fs where p: "log_ready L e" "0 \<le> fd" "receiver_at c cur"
    "rds s fd = remaining_bytes pad cur fs" "small_reading cur" "\<forall>f \<in> set fs. small_file f"
    and xs: "all_lines cur fs = x # xs"
    by (auto simp: lines_pending_def)
  from next_line_Some [OF xs] obtain cur' fs' where nl: "next_line cur fs = Some (x, cur', fs')"
    and xs': "xs = all_lines cur' fs'" by auto
  obtain name n l where x: "x = (name, n, l)" by (cases x)
  show "ok (receive_line_from_main_fd L fd c) e s (\<lambda>(c', res) e' s'. evolve e e' \<and>
        ((\<exists>m. res = Got m \<and> carries_line x m \<and> lines_pending L fd e' c' s' xs) \<or>
         res = Recv_error \<and> faulty e))"
    apply (rule receive_line_ok [OF evolve_refl p])
     apply (auto simp: nl x carries_line_def)
    apply (auto simp: lines_pending_def xs' p(2) intro: log_ready_evolve [OF p(1)])
     apply (use next_line_small [OF nl p(5,6)] in blast)
    apply (auto simp: failing_def)
    done
next
  fix e c and s :: "'a state_scheme"
  assume "lines_pending L fd e c s []"
  then obtain pad cur fs where p: "log_ready L e" "0 \<le> fd" "receiver_at c cur"
    "rds s fd = remaining_bytes pad cur fs" "small_reading cur" "\<forall>f \<in> set fs. small_file f"
    and xs: "all_lines cur fs = []"
    by (auto simp: lines_pending_def)
  show "ok (receive_line_from_main_fd L fd c) e s (\<lambda>(c', res) e' s'. evolve e e' \<and>
        (res = Stream_end \<or> res = Recv_error \<and> faulty e))"
    by (rule receive_line_ok [OF evolve_refl p]) (auto simp: next_line_None [OF xs] failing_def)
qed

section \<open>The pairs of the mapper\<close>

text \<open>
  A received pair carries a token and a value: the C string and the bytes. Where the allocation
  of an empty block has failed the pointer is \<open>NULL\<close>.
\<close>

definition carries_pair :: "byte list \<times> byte list \<Rightarrow> received_pair \<Rightarrow> bool" where
  "carries_pair x m \<longleftrightarrow> (case x of (t, v) \<Rightarrow>
     (out_token m = Some (t @ [0]) \<or> out_token m = None \<and> t = []) \<and>
     (out_value m = Some v \<or> out_value m = None \<and> v = []) \<and>
     out_value_size m = word_of_nat (length v))"

definition small_pair :: "byte list \<times> byte list \<Rightarrow> bool" where
  "small_pair x \<longleftrightarrow> length (fst x) < SSIZE_LIMIT \<and> length (snd x) < SSIZE_LIMIT"

definition pairs_bytes :: "(byte list \<times> byte list) list \<Rightarrow> byte list" where
  "pairs_bytes xs = concat (map (\<lambda>(t, v). pair_bytes t v) xs)"

definition pairs_pending ::
    "mr_log_file_t \<Rightarrow> int \<Rightarrow> env \<Rightarrow> unit \<Rightarrow> 's state_scheme \<Rightarrow> (byte list \<times> byte list) list \<Rightarrow> bool" where
  "pairs_pending L fd e u s xs \<longleftrightarrow>
     log_ready L e \<and> 0 \<le> fd \<and> rds s fd = pairs_bytes xs \<and> (\<forall>x \<in> set xs. small_pair x)"

definition recv_pair ::
    "mr_log_file_t \<Rightarrow> int \<Rightarrow> unit \<Rightarrow> ('s, unit \<times> received_pair recv) proc" where
  "recv_pair L fd u = bind_io (receive_pair_from_mapper_fd L fd) (\<lambda>r. return_io ((), r))"

interpretation pair_source: message_source "recv_pair L fd" "pairs_pending L fd" carries_pair for L fd
proof unfold_locales
  fix e c and s :: "'a state_scheme" and x and xs :: "(byte list \<times> byte list) list"
  assume p: "pairs_pending L fd e c s (x # xs)"
  obtain t v where x: "x = (t, v)" by (cases x)
  have "ok (receive_pair_from_mapper_fd L fd) e s (\<lambda>res e' s'. evolve e e' \<and>
        ((\<exists>m. res = Got m \<and> carries_pair x m \<and> pairs_pending L fd e' c s' xs) \<or>
         res = Recv_error \<and> faulty e))"
    by (rule receive_pair_ok [where rest = "pairs_bytes xs"])
       (use p in \<open>auto simp: pairs_pending_def x pairs_bytes_def small_pair_def carries_pair_def
          intro: log_ready_evolve\<close>)
  then show "ok (recv_pair L fd c) e s (\<lambda>(c', res) e' s'. evolve e e' \<and>
        ((\<exists>m. res = Got m \<and> carries_pair x m \<and> pairs_pending L fd e' c' s' xs) \<or>
         res = Recv_error \<and> faulty e))"
    by (simp add: recv_pair_def ok_simps)
next
  fix e c and s :: "'a state_scheme"
  assume p: "pairs_pending L fd e c s []"
  have "ok (receive_pair_from_mapper_fd L fd) e s (\<lambda>res e' s'. evolve e e' \<and>
        (res = Stream_end \<or> res = Recv_error \<and> faulty e))"
    by (rule receive_pair_end_ok) (use p in \<open>auto simp: pairs_pending_def pairs_bytes_def\<close>)
  then show "ok (recv_pair L fd c) e s (\<lambda>(c', res) e' s'. evolve e e' \<and>
        (res = Stream_end \<or> res = Recv_error \<and> faulty e))"
    by (simp add: recv_pair_def ok_simps)
qed

section \<open>Properties\<close>

text \<open>C5. The loop of the mapper that receives lines until the end of the stream gets every line of
  every file, in order, with the name of its file and numbered from 1, and nothing else; if a call
  fails it stops with -1 after the first lines of that list.\<close>

theorem receive_all_lines:
  assumes "log_ready L e" and "0 \<le> fd" and "rds s fd = files_bytes pad fs"
    and "\<forall>f \<in> set fs. small_file f" and "length (all_lines None fs) < n"
  shows "ok (drain n (receive_line_from_main_fd L fd) mr_main_receiver_init) e s (\<lambda>(ms, code) e' s'.
    code = 1 \<and> ms = map (\<lambda>(name, i, l). line_struct name i l) (all_lines None fs) \<or>
    code = -1 \<and> faulty e \<and>
      (\<exists>k. ms = map (\<lambda>(name, i, l). line_struct name i l) (take k (all_lines None fs))))"
proof -
  have eq: "list_all2 carries_line xs ms \<Longrightarrow> ms = map (\<lambda>(name, i, l). line_struct name i l) xs" for xs ms
    by (induction rule: list_all2_induct) (auto simp: carries_line_def)
  have "lines_pending L fd e mr_main_receiver_init s (all_lines None fs)"
    unfolding lines_pending_def
    using assms(1-4)
    by (auto simp: mr_main_receiver_init_def intro!: exI [of _ pad] exI [of _ "None :: reading"] exI [of _ fs])
  from line_source.drain_all [OF this assms(5)] show ?thesis
    by (rule ok_mono) (auto dest: eq)
qed

theorem receive_all_lines_witness:
  "ok (drain 3 (receive_line_from_main_fd example_log 0) mr_main_receiver_init) (example_env [])
     (example_state (files_bytes [] example_files)) (\<lambda>(ms, code) e' s'.
       code = 1 \<and> ms = [line_struct [98] 1 [120, 121], line_struct [98] 2 []])"
  by (rule ok_mono [OF receive_all_lines [where pad = "[]" and fs = example_files]])
     (auto simp: example_files_small, auto simp: example_files_def numeral_2_eq_2)

text \<open>C7. A pair survives the way from a mapper to the reducer: if \<open>send_pair_to_reducer_fd\<close>
  returns 0, a receiver that finds the written bytes on its stream returns the same token and
  value and leaves what follows them on the stream (or reports a failed call).\<close>

theorem pair_roundtrip:
  assumes "log_ready L e" and "0 \<le> wfd" and "sendable t v n"
  shows "ok (send_pair_to_reducer_fd L wfd t v n) e s (\<lambda>r e1 s1.
    (r = 0 \<or> r = -1 \<and> faulty e) \<and>
    (r = 0 \<longrightarrow> (\<forall>L' rfd e2 s2 rest. log_ready L' e2 \<longrightarrow> 0 \<le> rfd \<longrightarrow>
       rds (s2 :: state) rfd = drop (length (wrs s wfd)) (wrs s1 wfd) @ rest \<longrightarrow>
       ok (receive_pair_from_mapper_fd L' rfd) e2 s2 (\<lambda>res e3 s3.
         (\<exists>m. res = Got m \<and> carries_pair (cstr t, payload v n) m) \<and> rds s3 rfd = rest \<or>
         res = Recv_error \<and> faulty e2))))"
proof -
  have len: "length (cstr t) < SSIZE_LIMIT" "length (payload v n) < SSIZE_LIMIT"
    using assms(3) length_payload [OF assms(3)] by (auto simp: sendable_def)
  have "ok (receive_pair_from_mapper_fd L' rfd) e2 s2 (\<lambda>res e3 s3.
         (\<exists>m. res = Got m \<and> carries_pair (cstr t, payload v n) m) \<and> rds s3 rfd = rest \<or>
         res = Recv_error \<and> faulty e2)"
    if "log_ready L' e2" "0 \<le> rfd" "rds s2 rfd = pair_bytes (cstr t) (payload v n) @ rest"
    for L' rfd e2 rest and s2 :: state
    by (rule receive_pair_ok [OF evolve_refl that len]) (auto simp: carries_pair_def)
  then show ?thesis
    by (intro send_pair_ok [OF evolve_refl assms refl]) auto
qed

theorem pair_roundtrip_witness:
  "sendable [104, 105, 0] (Some [1, 2, 3]) 2 \<and>
   ok (send_pair_to_reducer_fd example_log 1 [104, 105, 0] (Some [1, 2, 3]) 2) (example_env [])
     (example_state []) (\<lambda>r e1 s1. r = 0)"
proof
  show snd: "sendable [104, 105, 0] (Some [1, 2, 3]) 2"
    by (simp add: sendable_def is_cstr_def cstr_def)
  show "ok (send_pair_to_reducer_fd example_log 1 [104, 105, 0] (Some [1, 2, 3]) 2) (example_env [])
     (example_state []) (\<lambda>r e1 s1. r = 0)"
    by (rule ok_mono [OF pair_roundtrip [OF example_ready _ snd]]) auto
qed

end
