(* ===== verification/Mr_Worker.thy ===== *)
theory Mr_Worker
  imports Mr_Pool_Example Mr_Channel
begin

text \<open>
  What the two processes with workers have in common besides the pool: emitting a message under the
  mutex of the standard output, a user's function that emits, and the calls around the pool. The
  locale \<open>emitter\<close> is the contract between an emit function and a user's function.
\<close>

section \<open>Emitting\<close>

text \<open>The shape of both emit functions; \<open>send\<close> writes the message, the counter is handed through.\<close>

definition locked_emit ::
    "mr_log_file_t \<Rightarrow> string \<Rightarrow> ('m \<Rightarrow> ('s, int) proc) \<Rightarrow> 'm \<Rightarrow> size_t \<Rightarrow> ('s, int \<times> size_t) proc" where
  "locked_emit log_file process send m done_count =
     bind_io (call True False) (\<lambda>locked.
     if \<not> locked then
       seq_io (mr_log_error log_file process ''Worker'' ''Failed to lock stdout mutex'') (return_io (-1, done_count))
     else
       bind_io (send m) (\<lambda>res.
       let done_count = (if res = 0 then done_count + 1 else done_count) in
       bind_io (call True False) (\<lambda>unlocked.
       if \<not> unlocked then
         seq_io (mr_log_error log_file process ''Worker'' ''Failed to unlock stdout mutex'') (return_io (-1, done_count))
       else return_io (res, done_count))))"

text \<open>The user's function run with an emit function.\<close>

primrec run_script ::
    "('m \<Rightarrow> size_t \<Rightarrow> ('s, int \<times> size_t) proc) \<Rightarrow> 'm script \<Rightarrow> size_t \<Rightarrow> ('s, int \<times> size_t) proc" where
  "run_script emit_fn (Return r) c = return_io (r, c)"
| "run_script emit_fn (Emit m k) c = bind_io (emit_fn m c) (\<lambda>(r, c'). run_script emit_fn (k r) c')"

text \<open>What the header asks of a user's function: whatever the emit function returns, it passes it proper arguments.\<close>

primrec emits_only :: "('m \<Rightarrow> bool) \<Rightarrow> 'm script \<Rightarrow> bool" where
  "emits_only good (Return r) = True"
| "emits_only good (Emit m k) = (good m \<and> (\<forall>r. emits_only good (k r)))"

text \<open>
  The contract of an emit function: 0 after it wrote the bytes of its message and counted it, or -1
  with any part of them written after a failed call.
\<close>

definition emits :: "env \<Rightarrow> ('s, int \<times> size_t) proc \<Rightarrow> byte list \<Rightarrow> size_t \<Rightarrow> bool" where
  "emits e0 m bs c \<longleftrightarrow> (\<forall>e s Q. evolve e0 e \<longrightarrow>
     (\<forall>e'. evolve e0 e' \<longrightarrow> Q (0, c + 1) e' (add_wr STDOUT_FILENO bs s)) \<longrightarrow>
     (\<forall>e' w c'. evolve e0 e' \<longrightarrow> faulty e0 \<longrightarrow> Q (-1, c') e' (add_wr STDOUT_FILENO w s)) \<longrightarrow> ok m e s Q)"

locale emitter =
  fixes emit_fn :: "mr_log_file_t \<Rightarrow> 'm \<Rightarrow> size_t \<Rightarrow> ('s, int \<times> size_t) proc"
    and msg_bytes :: "'m \<Rightarrow> byte list" and proper :: "'m \<Rightarrow> bool"
  assumes emit_law: "log_ready L e0 \<Longrightarrow> proper m \<Longrightarrow> emits e0 (emit_fn L m c) (msg_bytes m) c"
begin

lemma emit_ok:
  assumes "evolve e0 e" and "log_ready L e0" and "proper m"
    and "\<And>e'. evolve e0 e' \<Longrightarrow> Q (0, c + 1) e' (add_wr STDOUT_FILENO (msg_bytes m) s)"
    and "\<And>e' bs c'. evolve e0 e' \<Longrightarrow> faulty e0 \<Longrightarrow> Q (-1, c') e' (add_wr STDOUT_FILENO bs s)"
  shows "ok (emit_fn L m c) e s Q"
  using emit_law [OF assms(2,3)] assms(1,4,5) unfolding emits_def by blast

text \<open>A user's function that keeps to the contract writes its messages in order, each whole.\<close>

lemma run_script_ok:
  assumes "evolve e0 e" and "log_ready L e0" and "emits_only proper scr"
    and "\<And>e'. evolve e0 e' \<Longrightarrow> Q (result scr, c + word_of_nat (length (msgs scr))) e'
       (add_wr STDOUT_FILENO (concat (map msg_bytes (msgs scr))) s)"
    and "\<And>e' r bs c'. evolve e0 e' \<Longrightarrow> faulty e0 \<Longrightarrow> Q (r, c') e' (add_wr STDOUT_FILENO bs s)"
  shows "ok (run_script (emit_fn L) scr c) e s Q"
  using assms
proof (induction scr arbitrary: e c s)
  case (Return r)
  then show ?case using Return.prems(4) [of e] by (simp add: ok_simps)
next
  case (Emit m k)
  note ev = Emit.prems(1) and log = Emit.prems(2) and good = Emit.prems(4) and bad = Emit.prems(5)
  have only: "emits_only proper (k r)" for r using Emit.prems(3) by simp
  have rest: "ok (run_script (emit_fn L) (k r) c') e' (add_wr 1 bs s) Q"
    if "evolve e0 e'" "r = 0 \<and> c' = c + 1 \<and> bs = msg_bytes m \<or> faulty e0" for r c' e' bs
  proof (rule Emit.IH [OF _ that(1) log only])
    show "k r \<in> range k" by simp
  next
    fix e'' assume "evolve e0 e''"
    then show "Q (result (k r), c' + word_of_nat (length (msgs (k r)))) e''
        (add_wr 1 (concat (map msg_bytes (msgs (k r)))) (add_wr 1 bs s))"
      using that(2) good [of e''] bad [of e''] by (auto simp: algebra_simps fun_upd_def cong: if_cong)
  next
    fix e'' r' bs' c'' assume "evolve e0 e''" "faulty e0"
    then show "Q (r', c'') e'' (add_wr 1 bs' (add_wr 1 bs s))" using bad [of e''] by (simp add: fun_upd_def cong: if_cong)
  qed
  show ?case
    unfolding run_script.simps ok_bind
    by (rule emit_ok [OF ev log]) (use Emit.prems(3) rest in auto)
qed

end

text \<open>An emit function of this shape keeps the contract if its sender does.\<close>

lemma locked_emits:
  fixes send :: "'m \<Rightarrow> ('s, int) proc"
  assumes log: "log_ready L e0"
    and send: "\<And>e (s :: 's state_scheme) R. evolve e0 e \<Longrightarrow> (\<And>e'. evolve e0 e' \<Longrightarrow> R 0 e' (add_wr STDOUT_FILENO bs s)) \<Longrightarrow>
      (\<And>e' w. evolve e0 e' \<Longrightarrow> faulty e0 \<Longrightarrow> R (-1) e' (add_wr STDOUT_FILENO w s)) \<Longrightarrow> ok (send m) e s R"
  shows "emits e0 (locked_emit L process send m c) bs c"
  unfolding emits_def
proof (intro allI impI)
  fix e and Q :: "int \<times> size_t \<Rightarrow> env \<Rightarrow> 's state_scheme \<Rightarrow> bool" and s
  assume ev: "evolve e0 e" and good: "\<forall>e'. evolve e0 e' \<longrightarrow> Q (0, c + 1) e' (add_wr STDOUT_FILENO bs s)"
    and bad: "\<forall>e' w c'. evolve e0 e' \<longrightarrow> faulty e0 \<longrightarrow> Q (-1, c') e' (add_wr STDOUT_FILENO w s)"
  note logged = log_error_ok [OF _ log]
  let ?K = "\<lambda>res :: int. let c = (if res = 0 then c + 1 else c) in
      bind_io (call True False) (\<lambda>unlocked.
       if \<not> unlocked then
         seq_io (mr_log_error L process ''Worker'' ''Failed to unlock stdout mutex'') (return_io (-1, c))
       else return_io (res, c))"
  have unlock: "ok (?K res) e' (add_wr 1 w s) Q"
    if "evolve e0 e'" "res = 0 \<and> w = bs \<or> res = -1 \<and> faulty e0" for res w e'
    unfolding Let_def ok_bind
    by (rule call_ok [OF that(1)]) (use that(2) good bad in \<open>auto simp: ok_simps intro!: logged\<close>)
  have "ok (send m) e' s (\<lambda>res e' s'. ok (?K res) e' s' Q)" if "evolve e0 e'" for e'
    by (rule send [OF that]; rule unlock) simp_all
  moreover have "Q (-1, c) e' s" if "evolve e0 e'" "faulty e0" for e'
    using bad [rule_format, OF that, of c "[]"] by simp
  ultimately show "ok (locked_emit L process send m c) e s Q"
    unfolding locked_emit_def ok_bind
    by (intro call_ok [OF ev]) (auto simp: ok_simps intro!: logged)
qed

section \<open>Around the pool\<close>

text \<open>The loop of \<open>thrd_create\<close>; it stops at the first failure.\<close>

primrec create_threads :: "nat \<Rightarrow> ('s, bool) proc" where
  "create_threads 0 = return_io True"
| "create_threads (Suc n) = bind_io (call True False) (\<lambda>created. if \<not> created then return_io False else create_threads n)"

lemma create_threads_ok:
  assumes "evolve e0 e" and "\<And>e'. evolve e0 e' \<Longrightarrow> Q True e' s" and "\<And>e'. evolve e0 e' \<Longrightarrow> faulty e0 \<Longrightarrow> Q False e' s"
  shows "ok (create_threads n) e s Q"
  using assms(1)
proof (induction n arbitrary: e)
  case (Suc n)
  show ?case
    unfolding create_threads.simps ok_bind
    by (rule call_ok [OF Suc.prems]) (auto simp: ok_simps assms intro!: Suc.IH)
qed (simp add: ok_simps assms)

lemma log_info_check_ok:
  assumes "evolve e0 e" and "log_ready L e0" and "\<And>e'. evolve e0 e' \<Longrightarrow> ok k e' s Q"
    and "\<And>e'. evolve e0 e' \<Longrightarrow> faulty e0 \<Longrightarrow> Q EXIT_FAILURE e' s"
  shows "ok (SYSCALL_EXIT_CHECK (mr_log L lv p t f) skip k) e s Q"
  unfolding ok_SYSCALL_EXIT_CHECK
  by (rule mr_log_ok [OF assms(1,2)]) (simp_all add: assms ok_simps)

end
