(* ===== verification/Mr_Mapper.thy ===== *)
theory Mr_Mapper
  imports Mr_Worker
begin

text \<open>
  The mapper process (\<open>src/mapper.c\<close>): the emit function and the body of a worker as one thread
  runs them, the pool of workers as an instance of \<open>Mr_Pool\<close>, and \<open>mapper_process_main\<close> around it (its
  theorems, with the pool put in, are in \<open>Mr_Children\<close>).
\<close>

section \<open>Emitting\<close>

text \<open>The arguments of the emit function: the memory behind the token, the value and its size.\<close>

type_synonym pair_msg = "byte list \<times> byte list option \<times> size_t"

definition pair_msg_bytes :: "pair_msg \<Rightarrow> byte list" where
  "pair_msg_bytes = (\<lambda>(t, v, n). pair_bytes (cstr t) (payload v n))"

text \<open>\<open>mapper_emit\<close>, with the counter \<open>*pairs_count\<close> handed through.\<close>

definition mapper_emit :: "mr_log_file_t \<Rightarrow> pair_msg \<Rightarrow> size_t \<Rightarrow> ('s, int \<times> size_t) proc" where
  "mapper_emit log_file = (\<lambda>(token, val, value_size) pairs_count.
     bind_io (call True False) (\<lambda>locked.
     if \<not> locked then
       seq_io (mr_log_error log_file ''Mapper'' ''Worker'' ''Failed to lock stdout mutex'')
         (return_io (-1, pairs_count))
     else
       bind_io (send_pair_to_reducer log_file token val value_size) (\<lambda>res.
       let pairs_count = (if res = 0 then pairs_count + 1 else pairs_count) in
       bind_io (call True False) (\<lambda>unlocked.
       if \<not> unlocked then
         seq_io (mr_log_error log_file ''Mapper'' ''Worker'' ''Failed to unlock stdout mutex'')
           (return_io (-1, pairs_count))
       else return_io (res, pairs_count)))))"

text \<open>
  The body of the loop of \<open>mapper_worker\<close>, for a popped line: \<open>Some\<close> is the \<open>return\<close> of the thread.
\<close>

definition mapper_worker_body ::
    "mr_log_file_t \<Rightarrow> (mr_file_line_t \<Rightarrow> pair_msg script) \<Rightarrow> mr_file_line_t \<Rightarrow> size_t
      \<Rightarrow> ('s, int option \<times> size_t) proc" where
  "mapper_worker_body log_file mapper ln pairs_count =
     bind_io (run_script (mapper_emit log_file) (mapper ln) pairs_count) (\<lambda>(r, pairs_count).
     if r = -1 then
       seq_io (mr_log_error log_file ''Mapper'' ''Worker'' ''User mapper function failed for file, line'') (
       seq_io (c_free (line ln)) (seq_io (c_free (file_name ln)) (return_io (Some EXIT_FAILURE, pairs_count))))
     else
       seq_io (c_free (line ln)) (seq_io (c_free (file_name ln)) (return_io (None, pairs_count))))"

abbreviation sendable_msg :: "pair_msg \<Rightarrow> bool" where
  "sendable_msg \<equiv> \<lambda>(t, v, n). sendable t v n"

lemma mapper_emit_locked:
  "mapper_emit L = locked_emit L ''Mapper'' (\<lambda>(t, v, n). send_pair_to_reducer L t v n)"
  by (intro ext, clarify) (simp only: mapper_emit_def locked_emit_def prod.case)

interpretation pairs: emitter mapper_emit pair_msg_bytes sendable_msg
proof unfold_locales
  fix L e0 and m :: pair_msg and c
  assume log: "log_ready L e0" and "sendable_msg m"
  then obtain t v n where m: "m = (t, v, n)" and snd: "sendable t v n" by (cases m) auto
  show "emits e0 (mapper_emit L m c :: ('a, int \<times> size_t) proc) (pair_msg_bytes m) c"
    unfolding mapper_emit_locked m send_pair_to_reducer_def prod.case
    by (rule locked_emits [OF log], unfold prod.case, rule send_pair_ok [OF _ log _ snd refl])
       (simp_all add: pair_msg_bytes_def)
qed

lemma mapper_worker_body_ok:
  assumes ev: "evolve e0 e" and log: "log_ready L e0" and scr: "emits_only sendable_msg (mapper ln)"
    and good: "\<And>e' s'. evolve e0 e' \<Longrightarrow>
      s' = (add_wr STDOUT_FILENO (concat (map pair_msg_bytes (msgs (mapper ln)))) s)
        \<lparr>live := live s - blocks (line ln) - blocks (file_name ln)\<rparr> \<Longrightarrow>
      Q (if result (mapper ln) = -1 then Some EXIT_FAILURE else None, c + word_of_nat (length (msgs (mapper ln)))) e' s'"
    and bad: "\<And>e' r bs c' s'. evolve e0 e' \<Longrightarrow> faulty e0 \<Longrightarrow>
      s' = (add_wr STDOUT_FILENO bs s)\<lparr>live := live s - blocks (line ln) - blocks (file_name ln)\<rparr> \<Longrightarrow> Q (r, c') e' s'"
  shows "ok (mapper_worker_body L mapper ln c) e s Q"
proof -
  let ?free = "\<lambda>x. seq_io (c_free (line ln)) (seq_io (c_free (file_name ln)) (return_io x))"
  have body: "ok (if r = -1 then
       seq_io (mr_log_error L ''Mapper'' ''Worker'' ''User mapper function failed for file, line'')
         (?free (Some EXIT_FAILURE, c'))
     else ?free (None, c')) e' s' Q"
    if e': "evolve e0 e'" and q: "\<And>e''. evolve e0 e'' \<Longrightarrow> Q (if r = -1 then Some EXIT_FAILURE else None, c') e''
        (s'\<lparr>live := live s' - blocks (line ln) - blocks (file_name ln)\<rparr>)" for r c' e' s'
    using q q [OF e'] by (cases "r = -1") (auto simp: ok_simps intro!: log_error_ok [OF e' log] q [OF e'])
  show ?thesis
    unfolding mapper_worker_body_def ok_bind
    by (rule pairs.run_script_ok [OF ev log scr]; simp only: prod.case; rule body) (use good bad in auto)
qed

section \<open>The pool\<close>

text \<open>
  The mapper's instance of the pool: an item is a popped \<open>mr_file_line_t\<close>; \<open>load\<close> gives the line its
  pointers stand for. A worker whose user function returns -1 ends; a failed push is logged, the
  line freed and the loop goes on, as the \<open>break\<close> leaves only the \<open>do ... while\<close> of the macro;
  \<open>code\<close> is the exit code after the join, from the result of the last receive.
\<close>

definition mapper_after_user :: "int \<Rightarrow> 'm role" where
  "mapper_after_user r = (if r = -1 then Done EXIT_FAILURE else Loop)"

definition mapper_after_push_error :: "byte list list \<Rightarrow> 'm role" where
  "mapper_after_push_error lines_left = Feed lines_left"

definition mapper_program ::
    "(mr_file_line_t \<Rightarrow> pair_msg script) \<Rightarrow> (byte list \<Rightarrow> mr_file_line_t) \<Rightarrow> int \<Rightarrow> pair_msg program" where
  "mapper_program mapper load code =
     \<lparr>job = (\<lambda>d. mapper (load d)), bytes = pair_msg_bytes, after_user = mapper_after_user,
      after_push_error = mapper_after_push_error, exit_code = code\<rparr>"

text \<open>
  When all workers have ended and more items are left than the queue has room for, the controller
  never gets out of \<open>mr_queue_push\<close>.
\<close>

fun pushing :: "pc \<Rightarrow> bool" where
  "pushing Push_signal = True" | "pushing (Leave r x) = (r = 0 \<and> x = No_data)"
| "pushing (Returned r x) = (r = 0 \<and> x = No_data)" | "pushing pc = (carried pc \<noteq> None)"

definition starved :: "'m pool \<Rightarrow> bool" where
  "starved p \<longleftrightarrow>
     data_inv (mon p) \<and> length (roles p) = length (threads (mon p)) \<and> 0 < length (roles p) \<and>
     \<not> closed (queue (mon p)) \<and>
     (\<forall>i < length (roles p). 0 < i \<longrightarrow> (\<exists>z. roles p ! i = Done z) \<and> returned (threads (mon p) ! i)) \<and>
     (\<forall>d \<in> set (todo (roles p ! 0)). length d = esize p) \<and>
     unat (capacity (queue (mon p))) < length (todo (roles p ! 0)) + unat (q_count (queue (mon p))) +
       (if carried (threads (mon p) ! 0) = None then 0 else 1) \<and>
     ((\<exists>ds. roles p ! 0 = Feed ds) \<and> returned (threads (mon p) ! 0) \<or>
      (\<exists>ds. roles p ! 0 = Feeding ds) \<and> pushing (threads (mon p) ! 0))"

text \<open>
  While every other thread is idle, the queue only moves with thread 0: what it holds, together
  with the element thread 0 is about to store, stays.
\<close>

abbreviation held :: "monitor \<Rightarrow> nat" where
  "held m \<equiv> unat (q_count (queue m)) + (if carried (threads m ! 0) = None then 0 else 1)"

lemma lone_push:
  assumes "step l m m'" and "l \<in> smooth" and "data_inv m"
    and "\<And>i. i < length (threads m) \<Longrightarrow> i = 0 \<or> returned (threads m ! i)"
    and "returned (threads m ! 0) \<or> pushing (threads m ! 0)" and "threads m \<noteq> []"
  shows "closed (queue m') = closed (queue m) \<and> held m' = held m \<and> (pushing (threads m ! 0) \<longrightarrow> pushing (threads m' ! 0))"
  using assms
proof (induction rule: step.induct)
  case (push_store m i d q')
  have q: "queue_ok (queue m)" "length d = unat (element_size (queue m))" and i: "i = 0"
    using push_store data_inv_at [of m i "Push_test d"] by (force simp: data_inv_def thread_ok_def)+
  have "q_count (queue m) < capacity (queue m)" using push_store q by (auto simp: queue_ok_def)
  then show ?case
    using push_store i push_data_ok [OF q(1) _ q(2)] unat_succ_lt [of "q_count (queue m)" "capacity (queue m)"] by auto
next
  case (push_undefined m i d)
  then show ?case using no_undefined(1) [of m i d] by auto
qed (force split: if_splits)+

lemma starved_queue:
  assumes "step l (mon p) m'" and l: "l \<in> smooth" and st: "starved p"
  shows "starved (p\<lparr>mon := m'\<rparr>)"
proof -
  let ?m = "mon p" and ?pc = "threads (mon p) ! 0"
  have data: "data_inv ?m" and len: "length (roles p) = length (threads ?m)" and pos: "0 < length (roles p)"
    and others: "\<And>i. 0 < i \<Longrightarrow> i < length (roles p) \<Longrightarrow> returned (threads ?m ! i)"
    using st by (auto simp: starved_def)
  have data': "data_inv m'" by (rule step_data_inv [OF assms(1) data])
  have moved: "threads m' ! i = threads ?m ! i" if "returned (threads ?m ! i)" "i < length (roles p)" for i
    using moves_returned [OF step_moves [OF assms(1) l data, of i]] that len by simp
  have main: "closed (queue m') = closed (queue ?m) \<and> held m' = held ?m \<and> (pushing ?pc \<longrightarrow> pushing (threads m' ! 0))"
    by (rule lone_push [OF assms(1) l data]) (use others len pos st in \<open>auto simp: starved_def\<close>)
  have "(\<exists>ds. roles p ! 0 = Feed ds) \<and> returned (threads m' ! 0) \<or>
      (\<exists>ds. roles p ! 0 = Feeding ds) \<and> pushing (threads m' ! 0)"
    using st main moved [OF _ pos] by (auto simp: starved_def)
  then show ?thesis
    using st data' moved main step_capacity [OF assms(1)] step_length [OF assms(1)]
    by (auto simp: starved_def)
qed

lemma starved_acts:
  assumes "starved p" and "acts p i r"
  shows "i = 0 \<and> (\<exists>ds. r = Feed ds \<or> r = Feeding ds) \<or> (\<exists>z. r = Done z)"
  using assms by (cases "i = 0") (auto simp: starved_def)

lemma step_starved:
  assumes "pool_step P l p p'" and "l \<in> smooth" and st: "starved p"
  shows "starved p'"
  using assms(1)
proof (cases rule: pool_step.cases)
  case (in_queue m')
  then show ?thesis using starved_queue [OF in_queue(2) assms(2) st] by simp
next
  case (feed i d ds)
  then have i: "i = 0" using starved_acts [OF st feed(3)] by auto
  have d: "length d = esize p" using st feed(3) i by (auto simp: starved_def)
  have "data_inv (goto 0 (Push_enter d) (mon p))"
    using st d by (intro data_inv_goto) (auto simp: starved_def thread_ok_def)
  then show ?thesis using feed st i by (auto simp: starved_def elim: returnedE)
next
  case (fed i ds x)
  then have i: "i = 0" using starved_acts [OF st fed(3)] by auto
  then show ?thesis using fed st by (auto simp: starved_def)
next
  case (fed_error i ds x)
  then have i: "i = 0" using starved_acts [OF st fed_error(3)] by auto
  then show ?thesis using fed_error st by (auto simp: starved_def)
next
  case (feed_end i)
  then have i: "i = 0" using starved_acts [OF st feed_end(3)] by auto
  have "queue_ok (queue (mon p))" using st by (simp add: starved_def data_inv_def)
  then have "unat (q_count (queue (mon p))) \<le> unat (capacity (queue (mon p)))"
    by (simp add: queue_ok_def word_le_nat_alt)
  then show ?thesis using feed_end st i by (auto simp: starved_def)
qed (use assms(2) starved_acts [OF st] in fastforce)+

interpretation starving: machine_invariant "pool_step P" smooth starved starved for P :: "'m program"
  by unfold_locales (auto intro: step_starved)

section \<open>mapper_process_main\<close>

abbreviation sizeof_mr_file_line_t :: size_t where "sizeof_mr_file_line_t \<equiv> 40"

text \<open>
  The process around its concurrent phase. \<open>phase\<close> stands for the loop over the received lines, the
  close of the queue and the joins while the workers run (the pool): \<open>Some\<close> is an early \<open>return\<close>
  of it, and it hands over the receiver and the result of the last receive. When a thread cannot be
  created, the threads before it find the queue closed and empty and end; they own no memory.
\<close>

definition mapper_process_main ::
    "mr_log_file_t \<Rightarrow> size_t \<Rightarrow> size_t
      \<Rightarrow> (mr_queue_t \<Rightarrow> ('s, int option \<times> mr_main_receiver_t \<times> int) proc) \<Rightarrow> ('s, int) proc" where
  "mapper_process_main log_file mapper_threads queue_size phase =
     SYSCALL_EXIT_CHECK (mr_log_info log_file ''Mapper'' ''Controller'' ''Mapper process started'') skip (
     SYSCALL_RET EXIT_FAILURE fst (mr_queue_init queue_size sizeof_mr_file_line_t)
       (mr_log_error log_file ''Mapper'' ''Controller'' ''Failed to initialize mapper queue'') (\<lambda>(_, queue_out).
     let queue = the queue_out in
     bind_io (call True False) (\<lambda>mtx.
     if \<not> mtx then
       seq_io (mr_log_error log_file ''Mapper'' ''Controller'' ''Failed to initialize stdout mutex'') (
       seq_io (mr_queue_destroy queue) (return_io EXIT_FAILURE))
     else
     bind_io (c_malloc (unat (8 * mapper_threads))) (\<lambda>threads_mem.
     bind_io (c_malloc (unat (80 * mapper_threads))) (\<lambda>t_args.
     if threads_mem = None \<or> t_args = None then
       seq_io (mr_log_error log_file ''Mapper'' ''Controller'' ''Failed to allocate memory for mapper threads'') (
       seq_io (c_free threads_mem) (seq_io (c_free t_args) (
       seq_io (mr_queue_destroy queue) (return_io EXIT_FAILURE))))
     else
     bind_io (create_threads (unat mapper_threads)) (\<lambda>created.
     if \<not> created then
       seq_io (mr_log_error log_file ''Mapper'' ''Controller'' ''Failed to create mapper worker thread'') (
       seq_io (c_free threads_mem) (seq_io (c_free t_args) (
       seq_io (mr_queue_destroy queue) (return_io EXIT_FAILURE))))
     else
     bind_io (phase queue) (\<lambda>(early, receiver, res).
     case early of
       Some code \<Rightarrow> return_io code
     | None \<Rightarrow>
         seq_io (mr_main_receiver_destroy receiver) (
         seq_io (mr_queue_destroy queue) (
         seq_io (c_free threads_mem) (
         seq_io (c_free t_args) (
         SYSCALL_EXIT_CHECK (return_io res)
           (mr_log_error log_file ''Mapper'' ''Controller'' ''Error receiving lines from main process'') (
         SYSCALL_EXIT_CHECK (mr_log_info log_file ''Mapper'' ''Controller'' ''Mapper process finished'') skip
           (return_io EXIT_SUCCESS)))))))))))))"

section \<open>Properties\<close>

text \<open>The emit function of the mapper returns 0 exactly when it wrote the whole pair message to the
  standard output and counted it; otherwise it returns -1 after a failed call.\<close>

theorem mapper_emit_writes:
  assumes "log_ready L e" and "sendable t v n"
  shows "ok (mapper_emit L (t, v, n) c) e s (\<lambda>(r, c') e' s'.
    r = 0 \<and> c' = c + 1 \<and> s' = add_wr STDOUT_FILENO (pair_bytes (cstr t) (payload v n)) s \<or>
    r = -1 \<and> faulty e \<and> (\<exists>bs. s' = add_wr STDOUT_FILENO bs s))"
  by (rule pairs.emit_ok [OF evolve_refl assms(1)]) (use assms(2) in \<open>auto simp: pair_msg_bytes_def\<close>)

text \<open>C37. The body of a mapper worker writes the pairs of its line in the order the user's function
  emits them, counts them, and frees the line and its file name on every path; if the function
  returns -1 the thread ends.\<close>

theorem mapper_worker_body_processes:
  assumes "log_ready L e" and "emits_only sendable_msg (mapper ln)"
  shows "ok (mapper_worker_body L mapper ln c) e s (\<lambda>(ret, c') e' s'.
    live s' = live s - blocks (line ln) - blocks (file_name ln) \<and>
    (faulty e \<or>
     ret = (if result (mapper ln) = -1 then Some EXIT_FAILURE else None) \<and>
     c' = c + word_of_nat (length (msgs (mapper ln))) \<and>
     wrs s' = (wrs s)(STDOUT_FILENO := wrs s STDOUT_FILENO @ concat (map pair_msg_bytes (msgs (mapper ln))))))"
  by (rule mapper_worker_body_ok [OF evolve_refl assms(1), of mapper ln, OF assms(2)]) auto

text \<open>C39. A mapper thread whose user function returns -1 ends. Once all workers have ended and more lines
  come than the queue has room for, the controller never gets past \<open>mr_queue_push\<close>: in no state
  reached from there does the process exit.\<close>

theorem mapper_dead_workers_block:
  assumes "starved p" and "reachable (pool_step P) smooth p p'"
  shows "roles p' ! 0 \<noteq> Exit c"
  using starving.kept [OF assms(2,1)] by (auto simp: starved_def)

text \<open>Witnesses: a mapper that emits the pair (hi, 1), and one that gives up on its first line.\<close>

definition example_line :: mr_file_line_t where
  "example_line = \<lparr>file_name = Some [102, 0], file_name_len = 1, line_number = 1, line = Some [120, 0], line_len = 1\<rparr>"

definition example_mapper :: "mr_file_line_t \<Rightarrow> pair_msg script" where
  "example_mapper ln = Emit ([104, 105, 0], Some [1], 1) Return"

lemma example_pair_sendable: "sendable [104, 105, 0] (Some [1]) 1"
  by (simp add: sendable_def is_cstr_def cstr_def)

theorem mapper_emit_writes_witness:
  "ok (mapper_emit example_log ([104, 105, 0], Some [1], 1) 4) (example_env []) (example_state []) (\<lambda>(r, c') e' s'.
     r = 0 \<and> c' = 5 \<and> wrs s' STDOUT_FILENO = pair_bytes [104, 105] [1])"
  by (rule ok_mono [OF mapper_emit_writes [OF example_ready example_pair_sendable]]) (auto simp: payload_def cstr_def)

theorem mapper_worker_body_processes_witness:
  "ok (mapper_worker_body example_log example_mapper example_line 0) (example_env [])
     (example_state []\<lparr>live := 2\<rparr>) (\<lambda>(ret, c') e' s'. ret = None \<and> c' = 1 \<and> live s' = 0)"
  by (rule ok_mono [OF mapper_worker_body_processes [OF example_ready, of example_mapper example_line]])
     (auto simp: example_mapper_def example_line_def example_pair_sendable)

text \<open>A mapper that gives up on its first line, with one worker and four lines.\<close>

definition example_failing :: "pair_msg program" where
  "example_failing = mapper_program (\<lambda>_. Return (-1)) (\<lambda>_. example_line) 0"

theorem mapper_dead_workers_block_witness:
  "\<exists>p. reachable (pool_step example_failing) smooth (pool_start example_queue 1 [[1], [2], [3], [4]]) p \<and>
     {p' \<in> Collect (reachable (pool_step example_failing) smooth p). \<exists>c. roles p' ! 0 = Exit c} = {}"
proof -
  let ?p = "tiny_pool (Feeding [[2], [3], [4]]) idle (Done 1) (Returned 0 (Data [1])) None popped1 [[1]]"
  have "starved ?p"
    by (auto simp: starved_def data_inv_def thread_ok_def queue_ok_def elems_def tiny_pool_def example_queue_def less_Suc_eq)
  then have "{p' \<in> Collect (reachable (pool_step example_failing) smooth ?p). \<exists>c. roles p' ! 0 = Exit c} = {}"
    using mapper_dead_workers_block by blast
  moreover have "reachable (pool_step example_failing) smooth (pool_start example_queue 1 [[1], [2], [3], [4]]) ?p"
    using tiny_processes [of smooth example_failing "-1", OF _ _ tiny_feeds]
    by (simp add: example_failing_def mapper_program_def mapper_after_user_def)
  ultimately show ?thesis by blast
qed

end
