(* ===== verification/Mr_Hash.thy ===== *)
theory Mr_Hash
  imports Mr_Channel
begin

text \<open>
  The hash table of the reducer (\<open>src/reducer.c\<close>): tokens and the values received for each of them,
  in buckets of linked nodes. A bucket is the list of its nodes, first node first; a pointer to a
  node is its bucket and its place in it.
\<close>

section \<open>State\<close>

text \<open>\<open>mr_value_t\<close> of \<open>src/include/mr.h\<close>; \<open>None\<close> is a null pointer.\<close>

record mr_value_t =
  val_data :: "byte list option"
  val_size :: size_t

text \<open>
  \<open>token_node_t\<close>: \<open>node_values\<close> holds the values stored so far, \<open>node_slots\<close> the number of values
  the block behind \<open>values\<close> has room for.
\<close>

record token_node_t =
  node_token :: "byte list"
  node_values :: "mr_value_t list"
  node_count :: size_t
  node_capacity :: size_t
  node_slots :: nat

type_synonym hash_table = "token_node_t list list"

abbreviation MR_REDUCER_HASH_TABLE_SIZE :: nat where "MR_REDUCER_HASH_TABLE_SIZE \<equiv> 1024"

definition empty_table :: hash_table where
  "empty_table = replicate MR_REDUCER_HASH_TABLE_SIZE []"

section \<open>Operations\<close>

text \<open>
  \<open>char\<close> is signed on this platform: a byte of 128 or more is added as a negative \<open>int\<close>
  converted to \<open>unsigned long\<close>.
\<close>

definition hash_step :: "ulong \<Rightarrow> byte \<Rightarrow> ulong" where
  "hash_step hash c = (push_bit 5 hash + hash) + word_of_int (sint c)"

definition hash_function :: "byte list \<Rightarrow> ulong" where
  "hash_function str = foldl hash_step 5381 (cstr str) mod word_of_nat MR_REDUCER_HASH_TABLE_SIZE"

text \<open>The loop over the nodes of a bucket.\<close>

fun find_token :: "token_node_t list \<Rightarrow> byte list \<Rightarrow> nat option" where
  "find_token [] token = None"
| "find_token (node # nodes) token =
     (if cstr (node_token node) = cstr token then Some 0
      else map_option Suc (find_token nodes token))"

text \<open>A call that allocates one block or fails: \<open>malloc\<close> of a struct, \<open>strdup\<close>, a first \<open>realloc\<close>.\<close>

definition alloc_block :: "('s, bool) proc" where
  "alloc_block =
     bind_io ask (\<lambda>a. if a = Fault then return_io False else
     seq_io (put_st (\<lambda>s. s\<lparr>live := live s + 1\<rparr>)) (return_io True))"

definition find_or_create_token ::
    "hash_table \<Rightarrow> byte list \<Rightarrow> ('s, (nat \<times> nat) option \<times> hash_table) proc" where
  "find_or_create_token hash_table token =
     seq_io (defined_c (is_cstr token)) (
     let h = unat (hash_function token) in
     case find_token (hash_table ! h) token of
       Some i \<Rightarrow> return_io (Some (h, i), hash_table)
     | None \<Rightarrow>
         bind_io alloc_block (\<lambda>node.
         if \<not> node then return_io (None, hash_table) else
         bind_io alloc_block (\<lambda>dup.
         if \<not> dup then seq_io (c_free (Some ())) (return_io (None, hash_table)) else
         let new = \<lparr>node_token = cstr token @ [0], node_values = [], node_count = 0, node_capacity = 0,
                    node_slots = 0\<rparr> in
         return_io (Some (h, 0), hash_table[h := new # hash_table ! h]))))"

definition add_value_to_token ::
    "token_node_t \<Rightarrow> byte list option \<Rightarrow> size_t \<Rightarrow> ('s, int \<times> token_node_t) proc" where
  "add_value_to_token node value value_size =
     (let store_value = (\<lambda>node.
        seq_io (defined_c (unat (node_count node) < node_slots node))
          (return_io (0, node\<lparr>node_values := node_values node @ [\<lparr>val_data = value, val_size = value_size\<rparr>],
                              node_count := node_count node + 1\<rparr>))) in
      if node_count node = node_capacity node then
        let new_capacity = (if node_capacity node = 0 then 8 else node_capacity node * 2) in
        bind_io (if node_capacity node = 0 then alloc_block else call True False) (\<lambda>new_values.
        if \<not> new_values then return_io (-1, node) else
        store_value (node\<lparr>node_capacity := new_capacity,
                          node_slots := unat (new_capacity * 16) div 16\<rparr>))
      else store_value node)"

text \<open>Freeing the values of a node, one after the other.\<close>

primrec free_values :: "mr_value_t list \<Rightarrow> ('s, unit) proc" where
  "free_values [] = skip"
| "free_values (v # vs) = seq_io (c_free (val_data v)) (free_values vs)"

definition cleanup_token_node :: "token_node_t \<Rightarrow> ('s, unit) proc" where
  "cleanup_token_node node =
     seq_io (c_free (Some (node_token node))) (
     seq_io (free_values (take (unat (node_count node)) (node_values node))) (
     seq_io (c_free (if node_slots node = 0 then None else Some ())) (
     c_free (Some ()))))"

primrec cleanup_nodes :: "token_node_t list \<Rightarrow> ('s, unit) proc" where
  "cleanup_nodes [] = skip"
| "cleanup_nodes (node # nodes) = seq_io (cleanup_token_node node) (cleanup_nodes nodes)"

text \<open>The loop over the buckets.\<close>

primrec cleanup_hash_table :: "hash_table \<Rightarrow> ('s, hash_table) proc" where
  "cleanup_hash_table [] = return_io []"
| "cleanup_hash_table (b # bs) =
     seq_io (cleanup_nodes b) (bind_io (cleanup_hash_table bs) (\<lambda>bs. return_io ([] # bs)))"

section \<open>Invariant and abstraction\<close>

definition node_ok :: "token_node_t \<Rightarrow> bool" where
  "node_ok node \<longleftrightarrow>
     is_cstr (node_token node) \<and> length (node_values node) = unat (node_count node) \<and>
     node_count node \<le> node_capacity node \<and> node_slots node = unat (node_capacity node) \<and>
     (node_capacity node = 0 \<or> node_capacity node \<le> 8 \<or> unat (node_capacity node) \<le> 2 * unat (node_count node))"

definition bucket_ok :: "nat \<Rightarrow> token_node_t list \<Rightarrow> bool" where
  "bucket_ok h b \<longleftrightarrow>
     (\<forall>node \<in> set b. node_ok node \<and> unat (hash_function (node_token node)) = h) \<and>
     distinct (map (\<lambda>node. cstr (node_token node)) b)"

definition table_ok :: "hash_table \<Rightarrow> bool" where
  "table_ok tbl \<longleftrightarrow>
     length tbl = MR_REDUCER_HASH_TABLE_SIZE \<and> (\<forall>h < MR_REDUCER_HASH_TABLE_SIZE. bucket_ok h (tbl ! h))"

text \<open>The values of a token, in the order they were added; no node means no value.\<close>

definition lookup_token :: "hash_table \<Rightarrow> byte list \<Rightarrow> mr_value_t list" where
  "lookup_token tbl t =
     (let b = tbl ! unat (hash_function (t @ [0])) in
      case find_token b (t @ [0]) of None \<Rightarrow> [] | Some i \<Rightarrow> node_values (b ! i))"

text \<open>The tokens that have a node.\<close>

definition tokens :: "hash_table \<Rightarrow> byte list set" where
  "tokens tbl = {cstr (node_token node) | node. node \<in> set (concat tbl)}"

lemma tokens_image: "tokens tbl = (\<lambda>node. cstr (node_token node)) ` set (concat tbl)"
  by (auto simp: tokens_def)

lemma node_token_in_tokens:
  "h < length tbl \<Longrightarrow> i < length (tbl ! h) \<Longrightarrow> cstr (node_token (tbl ! h ! i)) \<in> tokens tbl"
  unfolding tokens_image set_concat by (intro imageI UN_I [of "tbl ! h"] nth_mem)

text \<open>The heap blocks a table owns.\<close>

definition node_blocks :: "token_node_t \<Rightarrow> int" where
  "node_blocks node =
     2 + (if node_slots node = 0 then 0 else 1) + sum_list (map (\<lambda>v. blocks (val_data v)) (node_values node))"

definition bucket_blocks :: "token_node_t list \<Rightarrow> int" where
  "bucket_blocks b = sum_list (map node_blocks b)"

definition table_blocks :: "hash_table \<Rightarrow> int" where
  "table_blocks tbl = sum_list (map bucket_blocks tbl)"

lemma hash_less: "unat (hash_function t) < MR_REDUCER_HASH_TABLE_SIZE"
proof -
  have "unat (x mod (1024 :: ulong)) < 1024" for x by (simp add: unat_mod)
  then show ?thesis by (simp add: hash_function_def)
qed

lemma hash_cstr: "cstr t = cstr t' \<Longrightarrow> hash_function t = hash_function t'"
  by (simp add: hash_function_def)

lemma find_token_Some:
  "find_token b t = Some i \<Longrightarrow> i < length b \<and> cstr (node_token (b ! i)) = cstr t"
  by (induction b arbitrary: i) (auto split: if_splits)

lemma find_token_None: "find_token b t = None \<longleftrightarrow> (\<forall>node \<in> set b. cstr (node_token node) \<noteq> cstr t)"
  by (induction b) auto

lemma find_token_nth:
  "distinct (map (\<lambda>node. cstr (node_token node)) b) \<Longrightarrow> i < length b \<Longrightarrow>
   cstr (node_token (b ! i)) = cstr t \<Longrightarrow> find_token b t = Some i"
proof (induction b arbitrary: i)
  case (Cons n b)
  then show ?case by (cases i) (auto, metis nth_mem image_eqI)
qed simp

lemma find_token_cstr: "cstr t = cstr t' \<Longrightarrow> find_token b t = find_token b t'"
  by (induction b) auto

lemma empty_table_ok [simp]: "table_ok empty_table" "lookup_token empty_table t = []"
  "tokens empty_table = {}" "table_blocks empty_table = 0"
  using hash_less [of "t @ [0]"]
  by (simp_all add: table_ok_def empty_table_def bucket_ok_def lookup_token_def Let_def tokens_def
      table_blocks_def bucket_blocks_def sum_list_replicate)

section \<open>Replacing a node\<close>

definition put_node :: "hash_table \<Rightarrow> nat \<Rightarrow> nat \<Rightarrow> token_node_t \<Rightarrow> hash_table" where
  "put_node tbl h i node = tbl[h := (tbl ! h)[i := node]]"

lemma map_update_same: "f x = f (b ! i) \<Longrightarrow> map f (b[i := x]) = map f b"
  by (cases "i < length b") (auto simp: map_update list_update_same_conv list_update_beyond)

lemma table_ok_update: "table_ok tbl \<Longrightarrow> bucket_ok h b \<Longrightarrow> table_ok (tbl[h := b])"
  unfolding table_ok_def
proof (intro conjI allI impI)
  fix k
  assume tbl: "length tbl = MR_REDUCER_HASH_TABLE_SIZE \<and> (\<forall>h<MR_REDUCER_HASH_TABLE_SIZE. bucket_ok h (tbl ! h))"
    and b: "bucket_ok h b" and k: "k < MR_REDUCER_HASH_TABLE_SIZE"
  then show "bucket_ok k (tbl[h := b] ! k)" by (cases "k = h") simp_all
qed simp

lemma find_token_update:
  "cstr (node_token node) = cstr (node_token (b ! i)) \<Longrightarrow> find_token (b[i := node]) t = find_token b t"
proof (induction b arbitrary: i)
  case (Cons n b)
  then show ?case by (cases i) auto
qed simp

lemma sum_list_update_int:
  "i < length xs \<Longrightarrow> sum_list (map f (xs[i := x])) = sum_list (map f xs) - f (xs ! i) + (f x :: int)"
proof (induction xs arbitrary: i)
  case (Cons y ys)
  then show ?case by (cases i) auto
qed simp

lemma put_node_ok:
  assumes tbl: "table_ok tbl" and h: "h < MR_REDUCER_HASH_TABLE_SIZE" and i: "i < length (tbl ! h)"
    and node: "node_ok node" "node_token node = node_token (tbl ! h ! i)"
  shows "table_ok (put_node tbl h i node)"
    and "lookup_token (put_node tbl h i node) t =
      (if cstr (t @ [0]) = cstr (node_token node) then node_values node else lookup_token tbl t)"
    and "tokens (put_node tbl h i node) = tokens tbl"
    and "table_blocks (put_node tbl h i node) = table_blocks tbl - node_blocks (tbl ! h ! i) + node_blocks node"
proof -
  let ?b = "tbl ! h" and ?tbl = "put_node tbl h i node"
  have len: "length tbl = MR_REDUCER_HASH_TABLE_SIZE" and b: "bucket_ok h ?b"
    using tbl h by (auto simp: table_ok_def)
  have hash: "unat (hash_function (node_token node)) = h"
    using b i node(2) by (auto simp: bucket_ok_def)
  have "bucket_ok h (?b[i := node])"
    unfolding bucket_ok_def
  proof
    show "\<forall>n \<in> set (?b[i := node]). node_ok n \<and> unat (hash_function (node_token n)) = h"
      using b node hash set_update_subset_insert [of ?b i node] by (auto simp: bucket_ok_def)
    show "distinct (map (\<lambda>node. cstr (node_token node)) (?b[i := node]))"
      using b map_update_same [of "\<lambda>n. cstr (node_token n)" node ?b i] node(2) by (simp add: bucket_ok_def)
  qed
  then show "table_ok ?tbl"
    using tbl by (simp add: table_ok_update put_node_def)
  show "lookup_token ?tbl t =
      (if cstr (t @ [0]) = cstr (node_token node) then node_values node else lookup_token tbl t)"
  proof (cases "unat (hash_function (t @ [0])) = h")
    case False
    then have "cstr (t @ [0]) \<noteq> cstr (node_token node)"
      using hash hash_cstr by metis
    then show ?thesis using False by (simp add: lookup_token_def put_node_def Let_def)
  next
    case True
    have ft: "find_token (?b[i := node]) (t @ [0]) = find_token ?b (t @ [0])"
      by (rule find_token_update) (simp add: node(2))
    show ?thesis
    proof (cases "cstr (t @ [0]) = cstr (node_token node)")
      case True': True
      then have "find_token ?b (t @ [0]) = Some i"
        using b i node(2) by (intro find_token_nth) (auto simp: bucket_ok_def)
      then show ?thesis
        using True True' h len i by (simp add: lookup_token_def put_node_def Let_def ft)
    next
      case False
      then have "find_token ?b (t @ [0]) \<noteq> Some i"
        using find_token_Some [of ?b "t @ [0]" i] node(2) by auto
      then show ?thesis
        using True False h len by (auto simp: lookup_token_def put_node_def Let_def ft split: option.splits)
    qed
  qed
  show "tokens ?tbl = tokens tbl"
  proof -
    let ?f = "\<lambda>n. cstr (node_token n)"
    have m: "map (map ?f) ?tbl = map (map ?f) tbl"
      using map_update_same [of ?f node ?b i] node(2)
      by (simp add: put_node_def map_update list_update_same_conv h len)
    have "tokens x = set (concat (map (map ?f) x))" for x by (auto simp: tokens_def)
    then show ?thesis by (metis m)
  qed
  show "table_blocks ?tbl = table_blocks tbl - node_blocks (?b ! i) + node_blocks node"
    using h len i by (simp add: table_blocks_def put_node_def sum_list_update_int bucket_blocks_def)
qed

section \<open>Finding, creating, adding\<close>

lemma alloc_block_ok:
  assumes "evolve e0 e"
    and "\<And>e'. evolve e0 e' \<Longrightarrow> Q True e' (s\<lparr>live := live s + 1\<rparr>)"
    and "\<And>e'. evolve e0 e' \<Longrightarrow> faulty e0 \<Longrightarrow> Q False e' s"
  shows "ok alloc_block e s Q"
  unfolding alloc_block_def ok_bind
  by (rule ask_ok [OF assms(1)]) (auto simp: ok_simps assms)

lemma new_node_ok: "node_ok \<lparr>node_token = cstr t @ [0], node_values = [], node_count = 0, node_capacity = 0,
    node_slots = 0\<rparr>"
  by (simp add: node_ok_def)

text \<open>Adding a node for a token that has none.\<close>

lemma add_node_ok:
  assumes tbl: "table_ok tbl" and none: "find_token (tbl ! unat (hash_function t)) t = None"
    and new: "node_ok node" "cstr (node_token node) = cstr t" "node_values node = []"
  defines "h \<equiv> unat (hash_function t)"
  shows "table_ok (tbl[h := node # tbl ! h])"
    and "lookup_token (tbl[h := node # tbl ! h]) t' = lookup_token tbl t'"
    and "tokens (tbl[h := node # tbl ! h]) = insert (cstr t) (tokens tbl)"
    and "table_blocks (tbl[h := node # tbl ! h]) = table_blocks tbl + node_blocks node"
proof -
  let ?b = "tbl ! h" and ?tbl = "tbl[h := node # tbl ! h]"
  have len: "length tbl = MR_REDUCER_HASH_TABLE_SIZE" and h: "h < MR_REDUCER_HASH_TABLE_SIZE"
    and b: "bucket_ok h ?b"
    using tbl hash_less [of t] by (auto simp: table_ok_def h_def)
  have hash: "unat (hash_function (node_token node)) = h"
    using hash_cstr [OF new(2)] by (simp add: h_def)
  have fresh: "\<forall>n \<in> set ?b. cstr (node_token n) \<noteq> cstr t"
    using none by (simp add: find_token_None h_def)
  have "bucket_ok h (node # ?b)"
    unfolding bucket_ok_def
  proof
    show "\<forall>n \<in> set (node # ?b). node_ok n \<and> unat (hash_function (node_token n)) = h"
      using b new(1) hash by (simp add: bucket_ok_def)
    have "cstr t \<notin> (\<lambda>n. cstr (node_token n)) ` set ?b" using fresh by (metis imageE)
    then show "distinct (map (\<lambda>n. cstr (node_token n)) (node # ?b))"
      using b new(2) by (simp add: bucket_ok_def)
  qed
  then show "table_ok ?tbl" by (rule table_ok_update [OF tbl])
  have "find_token ?b (t' @ [0]) = None" if "cstr (t' @ [0]) = cstr t"
    using fresh that by (simp add: find_token_None)
  moreover have "unat (hash_function (t' @ [0])) = h" if "cstr (t' @ [0]) = cstr t"
    using hash_cstr [OF that] by (simp add: h_def)
  moreover have "?tbl ! k = (if k = h then node # ?b else tbl ! k)" for k
    using h len by simp
  ultimately show "lookup_token ?tbl t' = lookup_token tbl t'"
    using new by (cases "cstr (t' @ [0]) = cstr t"; cases "find_token ?b (t' @ [0])")
      (simp_all add: lookup_token_def Let_def)
  have "set (concat ?tbl) = insert node (set (concat tbl))"
  proof -
    have nth: "set (concat xs) = (\<Union>k < length xs. set (xs ! k))" for xs :: "'c list list"
      by (fastforce simp: in_set_conv_nth [of _ xs])
    have "set (concat ?tbl) = (\<Union>k < length tbl. set (?tbl ! k))" by (subst nth) simp
    also have "\<dots> = insert node (\<Union>k < length tbl. set (tbl ! k))"
      using h len by (auto simp: nth_list_update split: if_splits)
    also have "(\<Union>k < length tbl. set (tbl ! k)) = set (concat tbl)" by (rule nth [symmetric])
    finally show ?thesis .
  qed
  then show "tokens ?tbl = insert (cstr t) (tokens tbl)" using new(2) by (simp only: tokens_image image_insert)
  show "table_blocks ?tbl = table_blocks tbl + node_blocks node"
    using h len by (simp add: table_blocks_def sum_list_update_int bucket_blocks_def)
qed

lemma find_or_create_token_ok:
  assumes ev: "evolve e0 e" and tbl: "table_ok tbl" and t: "is_cstr token"
    and good: "\<And>e' h i tbl'. evolve e0 e' \<Longrightarrow> table_ok tbl' \<Longrightarrow> h < MR_REDUCER_HASH_TABLE_SIZE \<Longrightarrow>
      i < length (tbl' ! h) \<Longrightarrow> cstr (node_token (tbl' ! h ! i)) = cstr token \<Longrightarrow>
      (\<And>t. lookup_token tbl' t = lookup_token tbl t) \<Longrightarrow> tokens tbl' = insert (cstr token) (tokens tbl) \<Longrightarrow>
      Q (Some (h, i), tbl') e' (s\<lparr>live := live s + (table_blocks tbl' - table_blocks tbl)\<rparr>)"
    and bad: "\<And>e'. evolve e0 e' \<Longrightarrow> faulty e0 \<Longrightarrow> Q (None, tbl) e' s"
  shows "ok (find_or_create_token tbl token) e s Q"
proof -
  let ?h = "unat (hash_function token)"
  let ?new = "\<lparr>node_token = cstr token @ [0], node_values = [], node_count = 0, node_capacity = 0, node_slots = 0\<rparr>"
  let ?tbl = "tbl[?h := ?new # tbl ! ?h]"
  have h: "?h < MR_REDUCER_HASH_TABLE_SIZE" by (rule hash_less)
  have len: "length tbl = MR_REDUCER_HASH_TABLE_SIZE" using tbl by (simp add: table_ok_def)
  show ?thesis
  proof (cases "find_token (tbl ! ?h) token")
    case None
    note add = add_node_ok [OF tbl None new_node_ok, simplified]
    have "node_blocks ?new = 2" by (simp add: node_blocks_def)
    then have "Q (Some (?h, 0), ?tbl) e' (s\<lparr>live := 2 + live s\<rparr>)" if "evolve e0 e'" for e'
      using good [OF that add(1) h, where i = 0] add h len by (simp add: add.commute)
    then show ?thesis
      unfolding find_or_create_token_def ok_seq Let_def None option.case
      apply (simp add: ok_simps t)
      apply (rule alloc_block_ok [OF ev])
       apply (simp add: ok_simps)
       apply (erule alloc_block_ok)
        apply (simp_all add: ok_simps bad)
      done
  next
    case (Some i)
    have tok: "cstr token \<in> tokens tbl"
      using find_token_Some [OF Some] h len node_token_in_tokens [of ?h tbl i] by simp
    have "Q (Some (?h, i), tbl) e s"
      using good [OF ev tbl h, of i] find_token_Some [OF Some] tok by (simp add: insert_absorb)
    then show ?thesis
      by (simp add: find_or_create_token_def ok_simps t Let_def Some)
  qed
qed

text \<open>The values of a node, through the lookup of its token.\<close>

lemma lookup_node:
  assumes tbl: "table_ok tbl" and h: "h < MR_REDUCER_HASH_TABLE_SIZE" and i: "i < length (tbl ! h)"
  shows "lookup_token tbl (cstr (node_token (tbl ! h ! i))) = node_values (tbl ! h ! i)"
proof -
  let ?t = "cstr (node_token (tbl ! h ! i))"
  have b: "bucket_ok h (tbl ! h)" using tbl h by (simp add: table_ok_def)
  have "unat (hash_function (?t @ [0])) = h"
    using b i hash_cstr [of "?t @ [0]" "node_token (tbl ! h ! i)"] by (simp add: bucket_ok_def)
  moreover have "find_token (tbl ! h) (?t @ [0]) = Some i"
    using b i by (intro find_token_nth) (auto simp: bucket_ok_def)
  ultimately show ?thesis by (simp add: lookup_token_def Let_def)
qed

lemma node_ok_nth: "table_ok tbl \<Longrightarrow> h < MR_REDUCER_HASH_TABLE_SIZE \<Longrightarrow> i < length (tbl ! h) \<Longrightarrow>
    node_ok (tbl ! h ! i)"
  by (auto simp: table_ok_def bucket_ok_def)

text \<open>
  Adding a value. The counter cannot overflow below \<open>2 ^ 58\<close> values, which is more memory than an
  address space has.
\<close>

abbreviation VALUE_LIMIT :: nat where "VALUE_LIMIT \<equiv> 288230376151711744"

definition add_value :: "token_node_t \<Rightarrow> mr_value_t \<Rightarrow> token_node_t" where
  "add_value node v =
     (let n = node_count node;
          cap = (if n = node_capacity node then if n = 0 then 8 else n * 2 else node_capacity node) in
      node\<lparr>node_values := node_values node @ [v], node_count := n + 1, node_capacity := cap,
           node_slots := unat cap\<rparr>)"

lemma add_value_node_ok:
  assumes node: "node_ok node" and small: "unat (node_count node) < VALUE_LIMIT"
  shows "node_ok (add_value node v)"
    and "node_blocks (add_value node v) = node_blocks node + blocks (val_data v) +
      (if node_slots node = 0 then 1 else 0)"
    and "unat ((if node_count node = 0 then 8 else node_count node * 2) * 16) div 16 =
      unat (if node_count node = 0 then 8 else node_count node * (2 :: size_t))"
proof -
  let ?n = "node_count node"
  have dbl: "unat (?n * 2) = 2 * unat ?n" "unat (?n * 2 * 16) = 32 * unat ?n"
    "unat (?n + 1) = unat ?n + 1"
    using small by (simp_all add: unat_word_ariths)
  show "unat ((if ?n = 0 then 8 else ?n * 2) * 16) div 16 = unat (if ?n = 0 then 8 else ?n * 2)"
    using dbl by simp
  have zero: "?n = 0 \<longleftrightarrow> unat ?n = 0" by (simp add: unat_eq_zero)
  let ?c = "node_capacity node"
  have less: "?n \<le> ?c \<Longrightarrow> ?n \<noteq> ?c \<Longrightarrow> Suc (unat ?n) \<le> unat ?c"
    using word_less_nat_alt [of ?n ?c] by (intro Suc_leI) (simp add: order_le_less)
  have czero: "unat ?c = 0 \<Longrightarrow> ?c = 0" by (simp add: unat_eq_zero)
  show "node_ok (add_value node v)"
    using node dbl zero small less
    by (auto simp: node_ok_def add_value_def Let_def word_le_nat_alt word_less_nat_alt)
  show "node_blocks (add_value node v) = node_blocks node + blocks (val_data v) +
      (if node_slots node = 0 then 1 else 0)"
    using node dbl zero czero
    by (auto simp: node_ok_def add_value_def Let_def node_blocks_def word_le_nat_alt)
qed

lemma add_value_to_token_ok:
  fixes s :: "'s state_scheme" and vl :: "byte list option" and n :: size_t
  assumes ev: "evolve e0 e" and node: "node_ok node" and small: "unat (node_count node) < VALUE_LIMIT"
  defines "node' \<equiv> add_value node \<lparr>val_data = vl, val_size = n\<rparr>"
  assumes good: "\<And>e'. evolve e0 e' \<Longrightarrow>
      Q (0, node') e' (s\<lparr>live := live s + (node_blocks node' - node_blocks node - blocks vl)\<rparr>)"
    and bad: "\<And>e'. evolve e0 e' \<Longrightarrow> faulty e0 \<Longrightarrow> Q (-1, node) e' s"
  shows "ok (add_value_to_token node vl n) e s Q"
proof -
  let ?c = "node_count node"
  note slots = add_value_node_ok(3) [OF node small]
  have blk: "node_blocks node' - node_blocks node - blocks vl = (if node_slots node = 0 then 1 else 0)"
    using add_value_node_ok(2) [OF node small, of "\<lparr>val_data = vl, val_size = n\<rparr>"] by (simp add: node'_def)
  show ?thesis
  proof (cases "?c = node_capacity node")
    case True
    let ?cap = "if ?c = 0 then 8 else ?c * 2"
    have "unat ?c < unat ?cap"
      using small by (auto simp: unat_word_ariths unat_eq_zero unat_gt_0)
    then have fits: "unat ?c < unat (?cap * 16) div 16" using slots by simp
    have eq: "node' = node\<lparr>node_capacity := ?cap, node_slots := unat (?cap * 16) div 16,
        node_values := node_values node @ [\<lparr>val_data = vl, val_size = n\<rparr>], node_count := ?c + 1\<rparr>"
      using True slots by (simp add: node'_def add_value_def Let_def)
    have zero: "node_slots node = 0 \<longleftrightarrow> ?c = 0"
      using node True by (simp add: node_ok_def unat_eq_zero)
    show ?thesis
    proof (cases "?c = 0")
      case c0: True
      then show ?thesis
        using True good bad blk zero fits eq
        by (auto simp: add_value_to_token_def Let_def ok_simps intro!: alloc_block_ok [OF ev])
    next
      case False
      then show ?thesis
        using True good bad blk zero fits eq
        by (auto simp: add_value_to_token_def Let_def ok_simps intro!: call_ok [OF ev])
    qed
  next
    case False
    then have "unat ?c < node_slots node" "node_slots node \<noteq> 0"
      using node by (auto simp: node_ok_def word_less_nat_alt [symmetric] unat_eq_zero)
    moreover have "node' = node\<lparr>node_values := node_values node @ [\<lparr>val_data = vl, val_size = n\<rparr>],
        node_count := ?c + 1\<rparr>"
      using False node by (simp add: node'_def add_value_def Let_def node_ok_def)
    ultimately show ?thesis
      using False good [OF ev] blk by (simp add: add_value_to_token_def Let_def ok_simps)
  qed
qed

lemma add_value_simps [simp]:
  "node_token (add_value node v) = node_token node" "node_values (add_value node v) = node_values node @ [v]"
  by (simp_all add: add_value_def Let_def)

lemma put_add_value:
  fixes v :: mr_value_t
  assumes tbl: "table_ok tbl" and h: "h < MR_REDUCER_HASH_TABLE_SIZE" and i: "i < length (tbl ! h)"
    and small: "unat (node_count (tbl ! h ! i)) < VALUE_LIMIT"
  defines "node \<equiv> add_value (tbl ! h ! i) v"
  shows "table_ok (put_node tbl h i node)"
    and "0 \<notin> set t \<Longrightarrow> lookup_token (put_node tbl h i node) t =
      (if t = cstr (node_token (tbl ! h ! i)) then lookup_token tbl t @ [v] else lookup_token tbl t)"
    and "tokens (put_node tbl h i node) = tokens tbl"
    and "table_blocks (put_node tbl h i node) = table_blocks tbl + (node_blocks node - node_blocks (tbl ! h ! i))"
proof -
  have "node_ok node" "node_token node = node_token (tbl ! h ! i)"
    using add_value_node_ok(1) [OF node_ok_nth [OF tbl h i] small] by (simp_all add: node_def)
  note put = put_node_ok [OF tbl h i this]
  show "table_ok (put_node tbl h i node)" by (rule put(1))
  show "0 \<notin> set t \<Longrightarrow> lookup_token (put_node tbl h i node) t =
      (if t = cstr (node_token (tbl ! h ! i)) then lookup_token tbl t @ [v] else lookup_token tbl t)"
    using put(2) [of t] lookup_node [OF tbl h i] by (simp add: node_def)
  show "tokens (put_node tbl h i node) = tokens tbl" by (rule put(3))
  show "table_blocks (put_node tbl h i node) = table_blocks tbl + (node_blocks node - node_blocks (tbl ! h ! i))"
    using put(4) by simp
qed

section \<open>Cleaning up\<close>

lemma ok_free_values [ok_simps]: "ok (free_values vs) e s Q \<longleftrightarrow>
    Q () e (s\<lparr>live := live s - sum_list (map (\<lambda>v. blocks (val_data v)) vs)\<rparr>)"
  by (induction vs arbitrary: s) (simp_all add: ok_simps algebra_simps)

lemma ok_cleanup_token_node:
  "node_ok node \<Longrightarrow> ok (cleanup_token_node node) e s Q \<longleftrightarrow> Q () e (s\<lparr>live := live s - node_blocks node\<rparr>)"
  by (auto simp: cleanup_token_node_def ok_simps node_ok_def node_blocks_def algebra_simps)

lemma ok_cleanup_nodes:
  "\<forall>node \<in> set b. node_ok node \<Longrightarrow>
   ok (cleanup_nodes b) e s Q \<longleftrightarrow> Q () e (s\<lparr>live := live s - bucket_blocks b\<rparr>)"
  by (induction b arbitrary: s) (simp_all add: ok_simps ok_cleanup_token_node bucket_blocks_def algebra_simps)

lemma ok_cleanup_buckets:
  "\<forall>b \<in> set tbl. \<forall>node \<in> set b. node_ok node \<Longrightarrow>
   ok (cleanup_hash_table tbl) e s Q \<longleftrightarrow>
   Q (replicate (length tbl) []) e (s\<lparr>live := live s - table_blocks tbl\<rparr>)"
proof (induction tbl arbitrary: s Q)
  case (Cons b tbl)
  then show ?case by (simp add: ok_simps ok_cleanup_nodes table_blocks_def algebra_simps)
qed (simp add: ok_simps table_blocks_def)

lemma table_ok_nodes: "table_ok tbl \<Longrightarrow> b \<in> set tbl \<Longrightarrow> node \<in> set b \<Longrightarrow> node_ok node"
  by (auto simp: table_ok_def bucket_ok_def in_set_conv_nth [of b])

lemma ok_cleanup_hash_table:
  "table_ok tbl \<Longrightarrow> ok (cleanup_hash_table tbl) e s Q \<longleftrightarrow>
   Q empty_table e (s\<lparr>live := live s - table_blocks tbl\<rparr>)"
  using table_ok_nodes [of tbl]
  by (subst ok_cleanup_buckets) (blast, simp add: empty_table_def table_ok_def)

section \<open>Properties\<close>

text \<open>Looking a token up in a table that satisfies the invariant either returns the node of this
  token, creating it if there is none, without changing the values of any token; or, when an
  allocation has failed, returns \<open>NULL\<close> and leaves the table and the heap as they were.\<close>

theorem find_or_create_token_finds:
  assumes "table_ok tbl" and "is_cstr token"
  shows "ok (find_or_create_token tbl token) e s (\<lambda>(r, tbl') e' s'.
    (case r of
       Some (h, i) \<Rightarrow> h < MR_REDUCER_HASH_TABLE_SIZE \<and> i < length (tbl' ! h) \<and>
         cstr (node_token (tbl' ! h ! i)) = cstr token \<and> table_ok tbl' \<and>
         (\<forall>t. lookup_token tbl' t = lookup_token tbl t) \<and> tokens tbl' = insert (cstr token) (tokens tbl) \<and>
         s' = s\<lparr>live := live s + (table_blocks tbl' - table_blocks tbl)\<rparr>
     | None \<Rightarrow> faulty e \<and> tbl' = tbl \<and> s' = s))"
  by (rule find_or_create_token_ok [OF evolve_refl assms]) auto

theorem find_or_create_token_finds_witness:
  "ok (find_or_create_token empty_table [97, 0]) (example_env []) (example_state []) (\<lambda>(r, tbl') e' s'.
     r \<noteq> None \<and> tokens tbl' = {[97]})"
  by (rule ok_mono [OF find_or_create_token_finds]) (auto simp: is_cstr_def cstr_def split: option.splits)

text \<open>C19. Storing a value through the pointer the lookup returned appends it to the values of its
  token and to no other, in a table that still satisfies the invariant; when the array of values
  cannot grow the node is as before. The heap grows by the array alone when it is a node's first value.\<close>

theorem add_value_to_token_appends:
  assumes "table_ok tbl" and "h < MR_REDUCER_HASH_TABLE_SIZE" and "i < length (tbl ! h)"
    and "unat (node_count (tbl ! h ! i)) < VALUE_LIMIT"
  shows "ok (add_value_to_token (tbl ! h ! i) value n) e s (\<lambda>(r, node) e' s'.
    r = 0 \<and> table_ok (put_node tbl h i node) \<and>
      (\<forall>t. 0 \<notin> set t \<longrightarrow> lookup_token (put_node tbl h i node) t =
         (if t = cstr (node_token (tbl ! h ! i))
          then lookup_token tbl t @ [\<lparr>val_data = value, val_size = n\<rparr>] else lookup_token tbl t)) \<and>
      s' = s\<lparr>live := live s + (table_blocks (put_node tbl h i node) - table_blocks tbl - blocks value)\<rparr> \<or>
    r = -1 \<and> faulty e \<and> node = tbl ! h ! i \<and> s' = s)"
  by (rule add_value_to_token_ok [OF evolve_refl node_ok_nth [OF assms(1-3)] assms(4)])
     (auto simp: put_add_value [OF assms] algebra_simps)

definition example_table :: hash_table where
  "example_table = empty_table[unat (hash_function [97, 0]) :=
     [\<lparr>node_token = [97, 0], node_values = [], node_count = 0, node_capacity = 0, node_slots = 0\<rparr>]]"

lemma example_table_ok:
  "table_ok example_table" "example_table ! unat (hash_function [97, 0]) =
     [\<lparr>node_token = [97, 0], node_values = [], node_count = 0, node_capacity = 0, node_slots = 0\<rparr>]"
  "table_blocks example_table = 2" "lookup_token example_table [97] = []"
proof -
  let ?h = "unat (hash_function [97, 0])"
  have c: "cstr [97, 0] = [97]" by (simp add: cstr_def)
  have e: "empty_table ! ?h = []" using hash_less [of "[97, 0]"] by (simp add: empty_table_def)
  note add = add_node_ok [OF empty_table_ok(1) _ new_node_ok, of "[97, 0]" "[97, 0]", unfolded e c]
  show "table_ok example_table" "table_blocks example_table = 2" "lookup_token example_table [97] = []"
    using add c by (simp_all add: example_table_def node_blocks_def)
  show "example_table ! ?h =
     [\<lparr>node_token = [97, 0], node_values = [], node_count = 0, node_capacity = 0, node_slots = 0\<rparr>]"
    using hash_less [of "[97, 0]"] by (simp add: example_table_def empty_table_def)
qed

theorem add_value_to_token_appends_witness:
  "ok (add_value_to_token (example_table ! unat (hash_function [97, 0]) ! 0) (Some [7]) 1) (example_env [])
     (example_state []) (\<lambda>(r, node) e' s'. r = 0 \<and>
       lookup_token (put_node example_table (unat (hash_function [97, 0])) 0 node) [97] =
         [\<lparr>val_data = Some [7], val_size = 1\<rparr>])"
  by (rule ok_mono [OF add_value_to_token_appends [OF example_table_ok(1) hash_less]])
     (auto simp: example_table_ok cstr_def)



end
