(* ===== verification/Mr_Reducer.thy ===== *)
theory Mr_Reducer
  imports Mr_Hash
begin

text \<open>
  The collection phase of \<open>reducer_process_main\<close> (\<open>src/reducer.c\<close> lines 216-255): the controller
  receives the pairs of the mapper and groups their values by token.
\<close>

section \<open>The loop\<close>

text \<open>
  The body of the loop for one pair: 0 to go on, -1 for the \<open>break\<close>s. A \<open>NULL\<close> token is
  dereferenced by \<open>hash_function\<close>.
\<close>

definition collect_pair ::
    "mr_log_file_t \<Rightarrow> hash_table \<Rightarrow> received_pair \<Rightarrow> ('s, int \<times> hash_table) proc" where
  "collect_pair log_file hash_table pair =
     (let token = out_token pair; val = out_value pair in
      seq_io (defined_c (token \<noteq> None)) (
      bind_io (find_or_create_token hash_table (the token)) (\<lambda>(node, hash_table).
      case node of
        None \<Rightarrow>
          seq_io (mr_log_error log_file ''Reducer'' ''Controller''
             ''Failed to find or create token node for token'') (
          seq_io (c_free token) (seq_io (c_free val) (return_io (-1, hash_table))))
      | Some (h, i) \<Rightarrow>
          bind_io (add_value_to_token (hash_table ! h ! i) val (out_value_size pair)) (\<lambda>(r, node).
          if r \<noteq> 0 then
            seq_io (mr_log_error log_file ''Reducer'' ''Controller''
               ''Failed to add value to token node for token'') (
            seq_io (c_free token) (seq_io (c_free val) (return_io (-1, hash_table))))
          else
            seq_io (c_free token) (return_io (0, put_node hash_table h i node))))))"

text \<open>The result is \<open>res\<close>, the table and \<open>pairs_received\<close>.\<close>

primrec collect_loop ::
    "nat \<Rightarrow> mr_log_file_t \<Rightarrow> hash_table \<Rightarrow> size_t \<Rightarrow> ('s, int \<times> hash_table \<times> size_t) proc" where
  "collect_loop 0 log_file hash_table pairs_received = stop_io Out_Of_Fuel"
| "collect_loop (Suc n) log_file hash_table pairs_received =
     bind_io (receive_pair_from_mapper log_file) (\<lambda>res.
       case res of
         Got pair \<Rightarrow>
           bind_io (collect_pair log_file hash_table pair) (\<lambda>(r, hash_table).
           if r = -1 then return_io (-1, hash_table, pairs_received + 1)
           else collect_loop n log_file hash_table (pairs_received + 1))
       | _ \<Rightarrow> return_io (recv_code res, hash_table, pairs_received))"

text \<open>
  The phase: \<open>Inl\<close> is the \<open>return\<close> of the process, \<open>Inr\<close> goes on to the processing phase. Every
  round but the last takes a header off the stream, so its length bounds the rounds.
\<close>

definition collect_phase :: "mr_log_file_t \<Rightarrow> ('s, int + hash_table \<times> size_t) proc" where
  "collect_phase log_file =
     bind_io (get_st (\<lambda>s. length (rds s STDIN_FILENO))) (\<lambda>n.
     bind_io (collect_loop (Suc n) log_file empty_table 0) (\<lambda>(res, hash_table, pairs_received).
     if res = -1 then
       seq_io (mr_log_error log_file ''Reducer'' ''Controller'' ''Error during collection phase'') (
       seq_io (cleanup_hash_table hash_table) (return_io (Inl EXIT_FAILURE)))
     else return_io (Inr (hash_table, pairs_received))))"

section \<open>The table stands for the pairs received\<close>

definition values_of :: "byte list \<Rightarrow> (byte list \<times> byte list) list \<Rightarrow> byte list list" where
  "values_of t xs = map snd (filter (\<lambda>x. fst x = t) xs)"

lemma values_of_append [simp]: "values_of t (xs @ ys) = values_of t xs @ values_of t ys"
  by (simp add: values_of_def)

lemma values_of_simps [simp]: "values_of t [] = []"
  "values_of t ((t', v) # xs) = (if t' = t then [v] else []) @ values_of t xs"
  by (simp_all add: values_of_def)

lemma length_values_of: "length (values_of t xs) \<le> length xs"
  by (simp add: values_of_def)

text \<open>A value of the table holds the bytes of a pair (no block if there are none and \<open>malloc\<close> failed).\<close>

definition carries_value :: "byte list \<Rightarrow> mr_value_t \<Rightarrow> bool" where
  "carries_value v m \<longleftrightarrow>
     (val_data m = Some v \<or> val_data m = None \<and> v = []) \<and> val_size m = word_of_nat (length v)"

definition groups :: "hash_table \<Rightarrow> (byte list \<times> byte list) list \<Rightarrow> bool" where
  "groups tbl xs \<longleftrightarrow> table_ok tbl \<and> tokens tbl = fst ` set xs \<and>
     (\<forall>t. 0 \<notin> set t \<longrightarrow> list_all2 carries_value (values_of t xs) (lookup_token tbl t))"

lemma groups_empty: "groups empty_table []"
  by (simp add: groups_def)

text \<open>What the reducer can collect: proper tokens that are not empty, and sizes that fit.\<close>

definition collectable :: "byte list \<times> byte list \<Rightarrow> bool" where
  "collectable x \<longleftrightarrow> small_pair x \<and> fst x \<noteq> [] \<and> 0 \<notin> set (fst x)"

lemma lookup_bound:
  assumes "groups tbl xs" and "length xs < VALUE_LIMIT" and "table_ok tbl'"
    and "\<And>t. lookup_token tbl' t = lookup_token tbl t"
    and "h < MR_REDUCER_HASH_TABLE_SIZE" and "i < length (tbl' ! h)"
  shows "unat (node_count (tbl' ! h ! i)) < VALUE_LIMIT"
proof -
  let ?node = "tbl' ! h ! i" and ?t = "cstr (node_token (tbl' ! h ! i))"
  have "unat (node_count ?node) = length (node_values ?node)"
    using node_ok_nth [OF assms(3,5,6)] by (simp add: node_ok_def)
  also have "node_values ?node = lookup_token tbl ?t"
    using lookup_node [OF assms(3,5,6)] assms(4) by simp
  also have "length \<dots> = length (values_of ?t xs)"
  proof -
    have "list_all2 carries_value (values_of ?t xs) (lookup_token tbl ?t)"
      using assms(1) zero_notin_cstr [of "node_token ?node"] unfolding groups_def by blast
    then show ?thesis by (rule list_all2_lengthD [symmetric])
  qed
  finally show ?thesis using length_values_of [of ?t xs] assms(2) by linarith
qed

lemma groups_add:
  assumes grp: "groups tbl ys" and tbl': "table_ok tbl'" and h: "h < MR_REDUCER_HASH_TABLE_SIZE"
    and i: "i < length (tbl' ! h)" and look: "\<And>t. lookup_token tbl' t = lookup_token tbl t"
    and toks: "tokens tbl' = insert t (tokens tbl)" and t: "cstr (node_token (tbl' ! h ! i)) = t"
    and small: "unat (node_count (tbl' ! h ! i)) < VALUE_LIMIT" and carr: "carries_value v mv"
  shows "groups (put_node tbl' h i (add_value (tbl' ! h ! i) mv)) (ys @ [(t, v)])"
  using grp carr put_add_value(1,2,3) [OF tbl' h i small, where v = mv] look toks t
  by (auto simp: groups_def intro!: list_all2_appendI)

text \<open>
  One pair: with it the table stands for one pair more, and the heap has given up the token and
  handed the value to the table.
\<close>

lemma collect_pair_ok:
  fixes s :: "'s state_scheme"
  assumes ev: "evolve e0 e" and log: "log_ready L e0" and grp: "groups tbl ys" and len: "length ys < VALUE_LIMIT"
    and t: "0 \<notin> set t" and val: "carries_value v \<lparr>val_data = val, val_size = n\<rparr>"
    and good: "\<And>e' tbl'. evolve e0 e' \<Longrightarrow> groups tbl' (ys @ [(t, v)]) \<Longrightarrow>
       Q (0, tbl') e' (s\<lparr>live := live s - 1 - blocks val + (table_blocks tbl' - table_blocks tbl)\<rparr>)"
    and bad: "\<And>e' tbl'. evolve e0 e' \<Longrightarrow> faulty e0 \<Longrightarrow> table_ok tbl' \<Longrightarrow>
       Q (-1, tbl') e' (s\<lparr>live := live s - 1 - blocks val + (table_blocks tbl' - table_blocks tbl)\<rparr>)"
  shows "ok (collect_pair L tbl \<lparr>out_token = Some (t @ [0]), out_value = val, out_value_size = n\<rparr>) e s Q"
proof -
  have tbl: "table_ok tbl" using grp by (simp add: groups_def)
  let ?fail = "\<lambda>f tbl'. seq_io (mr_log_error L ''Reducer'' ''Controller'' f)
      (seq_io (c_free (Some (t @ [0]))) (seq_io (c_free val) (return_io (-1, tbl'))))"
  have fail: "ok (?fail f tbl') e' (s\<lparr>live := live s + (table_blocks tbl' - table_blocks tbl)\<rparr>) Q"
    if "evolve e0 e'" "faulty e0" "table_ok tbl'" for e' f tbl'
    using bad [OF _ that(2,3)]
    by (auto simp: ok_simps algebra_simps intro!: log_error_ok [OF that(1) log])
  let ?store = "\<lambda>tbl' h i. bind_io (add_value_to_token (tbl' ! h ! i) val n)
      (\<lambda>(r, node). if r \<noteq> 0 then ?fail ''Failed to add value to token node for token'' tbl'
        else seq_io (c_free (Some (t @ [0]))) (return_io (0, put_node tbl' h i node)))"
  have store: "ok (?store tbl' h i) e' (s\<lparr>live := live s + (table_blocks tbl' - table_blocks tbl)\<rparr>) Q"
    if e': "evolve e0 e'" and tbl': "table_ok tbl'" and h: "h < MR_REDUCER_HASH_TABLE_SIZE"
      and i: "i < length (tbl' ! h)" and node: "cstr (node_token (tbl' ! h ! i)) = t"
      and look: "\<And>t. lookup_token tbl' t = lookup_token tbl t"
      and toks: "tokens tbl' = insert t (tokens tbl)" for e' h i tbl'
  proof -
    have small: "unat (node_count (tbl' ! h ! i)) < VALUE_LIMIT"
      by (rule lookup_bound [OF grp len tbl' look h i])
    note put = put_add_value [OF tbl' h i small] and grp' = groups_add [OF grp tbl' h i look toks node small val]
    show ?thesis
      unfolding ok_bind
      by (rule add_value_to_token_ok [OF e' node_ok_nth [OF tbl' h i] small])
         (use good [OF _ grp'] put(4) fail [OF _ _ tbl'] in \<open>simp_all add: ok_simps algebra_simps\<close>)
  qed
  show ?thesis
    unfolding collect_pair_def Let_def received_pair.select_convs option.sel
  proof (simp only: ok_simps option.distinct simp_thms,
      rule find_or_create_token_ok [OF ev tbl is_cstr_append_nul])
    fix e' h i tbl'
    assume "evolve e0 e'" "table_ok tbl'" "h < MR_REDUCER_HASH_TABLE_SIZE" "i < length (tbl' ! h)"
      "cstr (node_token (tbl' ! h ! i)) = cstr (t @ [0])" "\<And>t. lookup_token tbl' t = lookup_token tbl t"
      "tokens tbl' = insert (cstr (t @ [0])) (tokens tbl)"
    from store [OF this(1-4) _ this(6)] this(5,7)
    show "ok (case (Some (h, i), tbl') of (node, tbl') \<Rightarrow> (case node of
          None \<Rightarrow> ?fail ''Failed to find or create token node for token'' tbl'
        | Some (h, i) \<Rightarrow> ?store tbl' h i)) e' (s\<lparr>live := live s + (table_blocks tbl' - table_blocks tbl)\<rparr>) Q"
      using t by simp
  next
    fix e' assume "evolve e0 e'" "faulty e0"
    then show "ok (case (None, tbl) of (node, tbl') \<Rightarrow> (case node of
          None \<Rightarrow> ?fail ''Failed to find or create token node for token'' tbl'
        | Some (h, i) \<Rightarrow> ?store tbl' h i)) e' s Q"
      using fail [OF _ _ tbl, of e'] by simp
  qed
qed

lemma collect_loop_ok:
  assumes "evolve e0 e" and "log_ready L e0" and "rds s STDIN_FILENO = pairs_bytes xs"
    and "\<forall>x \<in> set xs. collectable x" and "groups tbl ys" and "length ys + length xs < VALUE_LIMIT"
    and "length xs < n"
    and "\<And>e' tbl'. evolve e0 e' \<Longrightarrow> groups tbl' (ys @ xs) \<Longrightarrow>
       Q (1, tbl', p + word_of_nat (length xs)) e'
         ((put_rd STDIN_FILENO [] s)\<lparr>live := live s + (table_blocks tbl' - table_blocks tbl)\<rparr>)"
    and "\<And>e' bs tbl' p'. evolve e0 e' \<Longrightarrow> faulty e0 \<Longrightarrow> table_ok tbl' \<Longrightarrow>
       Q (-1, tbl', p') e' ((put_rd STDIN_FILENO bs s)\<lparr>live := live s + (table_blocks tbl' - table_blocks tbl)\<rparr>)"
  shows "ok (collect_loop n L tbl p) e s Q"
  using assms
proof (induction xs arbitrary: n e s tbl ys p)
  case Nil
  note ev = Nil.prems(1) and good = Nil.prems(8) and bad = Nil.prems(9)
  obtain k where n: "n = Suc k" using Nil.prems(7) by (cases n) auto
  have empty: "rds s 0 = []" using Nil.prems(3) by (simp add: pairs_bytes_def)
  have tbl: "table_ok tbl" using Nil.prems(5) by (simp add: groups_def)
  have same: "put_rd 0 [] s = s" by (rule put_rd_same [OF empty])
  have "Q (1, tbl, p) e' s" if "evolve e0 e'" for e'
    using good [OF that, of tbl, unfolded same] Nil.prems(5) by simp
  moreover have "Q (-1, tbl, p) e' s" if "evolve e0 e'" "faulty e0" for e'
    using bad [OF that tbl, of p "[]", unfolded same] by simp
  ultimately show ?case
    unfolding n collect_loop.simps receive_pair_from_mapper_def ok_bind
    by (intro receive_pair_end_ok [OF ev Nil.prems(2) _ empty]) (simp_all add: ok_simps)
next
  case (Cons x xs)
  note ev = Cons.prems(1) and log = Cons.prems(2) and good = Cons.prems(8) and bad = Cons.prems(9)
  obtain k where n: "n = Suc k" and k: "length xs < k" using Cons.prems(7) by (cases n) auto
  obtain t v where x: "x = (t, v)" by (cases x)
  have stream: "rds s 0 = pair_bytes t v @ pairs_bytes xs"
    using Cons.prems(3) by (simp add: pairs_bytes_def x)
  have t: "length t < SSIZE_LIMIT" "length v < SSIZE_LIMIT" "t \<noteq> []" "0 \<notin> set t"
    using Cons.prems(4) by (auto simp: x collectable_def small_pair_def)
  have tbl: "table_ok tbl" using Cons.prems(5) by (simp add: groups_def)
  have rest: "ok (collect_loop k L tbl' (p + 1)) e' (put_rd 0 (pairs_bytes xs) s
      \<lparr>live := live s + (table_blocks tbl' - table_blocks tbl)\<rparr>) Q"
    if e': "evolve e0 e'" and grp': "groups tbl' (ys @ [x])" for e' tbl'
    by (rule Cons.IH [OF e' log _ _ grp' _ k])
       (use Cons.prems(4,6) good bad in \<open>simp_all add: algebra_simps fun_upd_def cong: if_cong\<close>)
  show ?case
    unfolding n collect_loop.simps receive_pair_from_mapper_def ok_bind
  proof (rule receive_pair_ok [OF ev log _ stream t(1,2)])
    fix e1 and tok val :: "byte list option"
    assume e1: "evolve e0 e1" and "tok = Some (t @ [0]) \<or> tok = None \<and> t = [] \<and> faulty e0"
      and val: "val = Some v \<or> val = None \<and> v = [] \<and> faulty e0"
    then have tok: "tok = Some (t @ [0])" using t(3) by simp
    have carr: "carries_value v \<lparr>val_data = val, val_size = word_of_nat (length v)\<rparr>"
      using val by (auto simp: carries_value_def)
    let ?next = "\<lambda>(r :: int, tbl). if r = -1 then return_io (-1, tbl, p + 1) else collect_loop k L tbl (p + 1)"
    have "ok (bind_io (collect_pair L tbl \<lparr>out_token = Some (t @ [0]), out_value = val,
            out_value_size = word_of_nat (length v)\<rparr>) ?next) e1
        (put_rd 0 (pairs_bytes xs) s\<lparr>live := live s + 1 + blocks val\<rparr>) Q"
      unfolding ok_bind
      by (rule collect_pair_ok [OF e1 log Cons.prems(5) _ t(4) carr])
         (use rest x Cons.prems(6) bad [of _ _ "p + 1"] in \<open>simp_all add: ok_simps algebra_simps fun_upd_def\<close>)
    then show "ok (case Got \<lparr>out_token = tok, out_value = val, out_value_size = word_of_nat (length v)\<rparr> of
        Got pair \<Rightarrow> bind_io (collect_pair L tbl pair) ?next
       | Stream_end \<Rightarrow> z | Recv_error \<Rightarrow> z') e1
        ((put_rd 0 (pairs_bytes xs) s)\<lparr>live := live s + blocks tok + blocks val\<rparr>) Q" for z z'
      unfolding tok by simp
  qed (use bad [OF _ _ tbl] in \<open>simp_all add: ok_simps fun_upd_def\<close>)
qed

lemma length_pairs_bytes: "length xs \<le> length (pairs_bytes xs)"
  by (induction xs) (auto simp: pairs_bytes_def pair_bytes_def)

lemma collect_phase_ok:
  assumes ev: "evolve e0 e" and log: "log_ready L e0" and stream: "rds s STDIN_FILENO = pairs_bytes xs"
    and xs: "\<forall>x \<in> set xs. collectable x" "length xs < VALUE_LIMIT"
    and good: "\<And>e' tbl. evolve e0 e' \<Longrightarrow> groups tbl xs \<Longrightarrow>
       Q (Inr (tbl, word_of_nat (length xs))) e' ((put_rd STDIN_FILENO [] s)\<lparr>live := live s + table_blocks tbl\<rparr>)"
    and bad: "\<And>e' bs. evolve e0 e' \<Longrightarrow> faulty e0 \<Longrightarrow> Q (Inl EXIT_FAILURE) e' (put_rd STDIN_FILENO bs s)"
  shows "ok (collect_phase L) e s Q"
proof -
  let ?k = "\<lambda>(res :: int, tbl, n :: size_t) e' s'. ok (if res = -1 then
       seq_io (mr_log_error L ''Reducer'' ''Controller'' ''Error during collection phase'') (
       seq_io (cleanup_hash_table tbl) (return_io (Inl EXIT_FAILURE)))
     else return_io (Inr (tbl, n))) e' s' Q"
  have "ok (collect_loop (Suc (length (rds s 0))) L empty_table 0) e s ?k"
  proof (rule collect_loop_ok [OF ev log stream xs(1) groups_empty])
    show "length xs < Suc (length (rds s 0))" using stream length_pairs_bytes [of xs] by simp
  next
    fix e' tbl assume "evolve e0 e'" "groups tbl ([] @ xs)"
    then show "?k (1, tbl, 0 + word_of_nat (length xs)) e'
       ((put_rd 0 [] s)\<lparr>live := live s + (table_blocks tbl - table_blocks empty_table)\<rparr>)"
      using good [of e' tbl] by (simp add: ok_simps)
  next
    fix e' bs tbl p assume e': "evolve e0 e'" "faulty e0" and tbl: "table_ok tbl"
    have st: "(put_rd 0 bs s)\<lparr>live := live s\<rparr> = put_rd 0 bs s" by simp
    show "?k (-1, tbl, p) e' ((put_rd 0 bs s)\<lparr>live := live s + (table_blocks tbl - table_blocks empty_table)\<rparr>)"
      using bad [OF _ e'(2), of _ bs] st
      by (auto simp: ok_simps ok_cleanup_hash_table [OF tbl] intro!: log_error_ok [OF e'(1) log])
  qed (use xs in simp_all)
  then show ?thesis by (simp add: collect_phase_def ok_simps case_prod_unfold)
qed

section \<open>Termination\<close>

text \<open>A received pair takes at least one byte off the stream, whatever the stream holds.\<close>

lemma receive_pair_value_halts:
  assumes "length (rds s fd) \<le> n" and "\<And>r e' s'. length (rds s' fd) \<le> n \<Longrightarrow> Q r e' s'"
  shows "halts (receive_pair_value L fd tok m) e s Q"
  unfolding receive_pair_value_def halts_bind
  by (rule c_malloc_halts)
     (use assms in \<open>auto simp: halts_simps intro!: mr_log_halts read_n_halts\<close>)

lemma receive_pair_token_halts:
  assumes "length (rds s fd) \<le> n" and "\<And>r e' s'. length (rds s' fd) \<le> n \<Longrightarrow> Q r e' s'"
  shows "halts (receive_pair_token L fd k m) e s Q"
  unfolding receive_pair_token_def halts_bind
  by (rule c_malloc_halts)
     (use assms in \<open>auto simp: halts_simps poke_halts split: option.splits
        intro!: mr_log_halts read_n_halts receive_pair_value_halts [where n = n]\<close>)

lemma receive_pair_halts:
  assumes "\<And>r e' s'. (\<exists>p. r = Got p) \<Longrightarrow> length (rds s' fd) < length (rds s fd) \<Longrightarrow> Q r e' s'"
    and "\<And>r e' s'. r = Stream_end \<or> r = Recv_error \<Longrightarrow> Q r e' s'"
  shows "halts (receive_pair_from_mapper_fd L fd) e s Q"
proof -
  have any: "Q r e' s'" if "length (rds s' fd) < length (rds s fd)" for r e' s'
    using assms(1) [OF _ that] assms(2) by (cases r) auto
  have "halts (receive_pair_token L fd n k) e' (put_rd fd (drop m (rds s fd)) s) Q"
    if "0 < m" "m \<le> length (rds s fd)" for n k e' m
    by (rule receive_pair_token_halts [where n = "length (rds s fd) - 1"])
       (use that in \<open>auto intro!: any\<close>)
  then show ?thesis
    unfolding receive_pair_from_mapper_fd_def Let_def
    apply (simp only: halts_simps)
    apply (rule impI, rule read_n_halts)
    apply (auto simp: halts_simps assms(2) intro!: mr_log_halts)
    done
qed

lemma find_or_create_token_halts:
  assumes "\<And>r e' s'. rds s' = rds s \<Longrightarrow> Q r e' s'"
  shows "halts (find_or_create_token tbl t) e s Q"
  unfolding find_or_create_token_def Let_def
  by (auto simp: halts_simps alloc_block_def split: option.splits intro!: halts_ask assms)

lemma add_value_to_token_halts:
  assumes "\<And>r e' s'. rds s' = rds s \<Longrightarrow> Q r e' s'"
  shows "halts (add_value_to_token node v n) e s Q"
  unfolding add_value_to_token_def Let_def
  by (auto simp: halts_simps alloc_block_def intro!: halts_ask halts_call assms)

lemma collect_pair_halts:
  assumes "\<And>r e' s'. rds s' = rds s \<Longrightarrow> Q r e' s'"
  shows "halts (collect_pair L tbl pair) e s Q"
  unfolding collect_pair_def Let_def
  by (auto simp: halts_simps assms split: option.splits
      intro!: find_or_create_token_halts add_value_to_token_halts mr_log_halts)

lemma collect_loop_halts:
  "length (rds s STDIN_FILENO) < n \<Longrightarrow> halts (collect_loop n L tbl p) e s (\<lambda>_ _ _. True)"
proof (induction n arbitrary: tbl p e s)
  case (Suc n)
  then show ?case
    unfolding collect_loop.simps receive_pair_from_mapper_def halts_bind
    by (intro receive_pair_halts) (auto simp: halts_simps intro!: collect_pair_halts)
qed simp

lemma cleanup_token_node_halts: "(\<And>e' s'. Q () e' s') \<Longrightarrow> halts (cleanup_token_node node) e s Q"
proof -
  have "halts (free_values vs) e s Q" if "\<And>e' s'. Q () e' s'" for vs e s and Q :: "unit \<Rightarrow> env \<Rightarrow> 'a state_scheme \<Rightarrow> bool"
    using that by (induction vs arbitrary: e s) (auto simp: halts_simps)
  then show "(\<And>e' s'. Q () e' s') \<Longrightarrow> halts (cleanup_token_node node) e s Q"
    unfolding cleanup_token_node_def by (auto simp: halts_simps)
qed

lemma cleanup_nodes_halts: "(\<And>e' s'. Q () e' s') \<Longrightarrow> halts (cleanup_nodes b) e s Q"
  by (induction b arbitrary: e s) (auto simp: halts_simps intro!: cleanup_token_node_halts)

lemma cleanup_hash_table_halts: "(\<And>t e' s'. Q t e' s') \<Longrightarrow> halts (cleanup_hash_table tbl) e s Q"
  by (induction tbl arbitrary: e s Q) (auto simp: halts_simps intro!: cleanup_nodes_halts)

lemma collect_phase_halts: "halts (collect_phase L) e s (\<lambda>_ _ _. True)"
  unfolding collect_phase_def halts_bind
  by (simp only: halts_simps, rule halts_mono [OF collect_loop_halts])
     (auto simp: halts_simps intro!: mr_log_halts cleanup_hash_table_halts)

section \<open>Properties\<close>

text \<open>C9. The collection phase receives every pair of its stream and ends with a hash table that has
  exactly the tokens received, each with its values in the order of arrival; or, when a call has
  failed, it returns \<open>EXIT_FAILURE\<close>. On both ways out the heap holds exactly the blocks of the table
  (none after a failure): nothing is leaked.\<close>

theorem collect_phase_groups:
  assumes "log_ready L e" and "rds s STDIN_FILENO = pairs_bytes xs"
    and "\<forall>x \<in> set xs. collectable x" and "length xs < VALUE_LIMIT"
  shows "ok (collect_phase L) e s (\<lambda>r e' s'.
    (\<exists>tbl. r = Inr (tbl, word_of_nat (length xs)) \<and> table_ok tbl \<and> tokens tbl = fst ` set xs \<and>
       (\<forall>t \<in> fst ` set xs. list_all2 carries_value (values_of t xs) (lookup_token tbl t)) \<and>
       live s' = live s + table_blocks tbl \<and> rds s' STDIN_FILENO = []) \<or>
    r = Inl EXIT_FAILURE \<and> faulty e \<and> live s' = live s)"
  by (rule collect_phase_ok [OF evolve_refl assms])
     (use assms(3) in \<open>auto simp: groups_def collectable_def\<close>)

definition example_pairs :: "(byte list \<times> byte list) list" where
  "example_pairs = [([97], [1]), ([98], [2]), ([97], [])]"

theorem collect_phase_groups_witness:
  "ok (collect_phase example_log) (example_env []) (example_state (pairs_bytes example_pairs)) (\<lambda>r e' s'.
     (\<exists>tbl. r = Inr (tbl, 3) \<and> tokens tbl = {[97], [98]} \<and>
        map val_size (lookup_token tbl [97]) = [1, 0] \<and> live s' = table_blocks tbl))"
  by (rule ok_mono [OF collect_phase_groups [OF example_ready, where xs = example_pairs]])
     (auto simp: example_pairs_def collectable_def small_pair_def values_of_def carries_value_def
        list_all2_Cons1)

text \<open>The collection phase ends on every byte stream, well-formed or not, in every environment.\<close>

theorem collect_phase_terminates: "fst (collect_phase L w) \<noteq> Inl Out_Of_Fuel"
  by (cases w) (simp add: halts_no_fuel [OF collect_phase_halts])

lemma read_n_full:
  assumes "0 \<le> fd" and "answers e = Full # as" and "0 < n" and "n \<le> length buf" and "n < SSIZE_LIMIT"
    and "rds s fd = xs @ rest" and "length xs = n"
  shows "read_n fd buf n (e, s) = (Inr (int n, xs @ drop n buf), (e\<lparr>answers := as\<rparr>, put_rd fd rest s))"
proof -
  have "sys_read fd n (e, s) = (Inr (Some xs), (e\<lparr>answers := as\<rparr>, put_rd fd rest s))"
    using assms by (simp add: sys_read_def bind_io_def ask_def seq_io_def get_st_def put_st_def return_io_def)
  then have "read_loop fd n 0 buf (e, s) = (Inr (int n, xs @ drop n buf), (e\<lparr>answers := as\<rparr>, put_rd fd rest s))"
    using assms by (subst read_loop.simps, simp, subst read_loop.simps) (auto simp: store_0)
  then show ?thesis
    using assms(1) by (simp add: read_n_def seq_io_def bind_io_def assert_c_def get_env_def return_io_def)
qed

lemma bind_stops: "ok m e s (\<lambda>r e' s'. fst (k r (e', s')) = Inl x) \<Longrightarrow> fst (bind_io m k (e, s)) = Inl x"
  by (auto simp: ok_def bind_io_def)

lemma bind_stopped: "fst (m w) = Inl x \<Longrightarrow> fst (bind_io m k w) = Inl x"
  by (auto simp: bind_io_def split: prod.splits)

text \<open>C27. The allocation of an empty token may fail unnoticed: the receiver of the pair then returns a
  null token with code 0, and the collection phase dereferences it.\<close>

theorem collect_phase_null_token:
  assumes "log_ready L e" and "rds s STDIN_FILENO = pairs_bytes (([], v) # xs)" and "length v < SSIZE_LIMIT"
    and "answers e = [Full, Fault]"
  shows "fst (collect_phase L (e, s)) = Inl Undefined"
proof -
  let ?e = "e\<lparr>answers := []\<rparr>" and ?rest = "v @ pairs_bytes xs"
  let ?h = "enc_pair_header \<lparr>ph_token_length = word_of_nat 0, ph_value_length = word_of_nat (length v)\<rparr>"
  have stream: "rds s 0 = ?h @ ?rest" using assms(2) by (simp add: pairs_bytes_def pair_bytes_def)
  have log: "log_ready L ?e" using assms(1) by (simp add: log_ready_def sem_usable_def)
  have value_part: "ok (receive_pair_value L 0 None (word_of_nat (length v))) ?e (put_rd 0 ?rest s)
      (\<lambda>res e' s'. \<exists>p. res = Got p \<and> out_token p = None)"
    by (rule receive_pair_value_ok [OF evolve_refl log _ _ assms(3), where rest = "pairs_bytes xs"])
       (simp_all add: faulty_def)
  have "ok (receive_pair_token L 0 (word_of_nat 0) (word_of_nat (length v))) (e\<lparr>answers := [Fault]\<rparr>) (put_rd 0 ?rest s)
      (\<lambda>res e' s'. \<exists>p. res = Got p \<and> out_token p = None)"
    unfolding receive_pair_token_def c_malloc_def ok_bind ok_ask
    using value_part by (simp add: ok_simps)
  moreover have header: "ok (read_n 0 buf 16) e s Q \<longleftrightarrow>
      Q (16, ?h @ drop 16 buf) (e\<lparr>answers := [Fault]\<rparr>) (put_rd 0 ?rest s)" if "length buf = 16" for buf Q
    by (rule ok_result) (use read_n_full [OF _ assms(4) _ _ _ stream, of 16 buf] that in simp)
  ultimately have "ok (receive_pair_from_mapper L) e s (\<lambda>res e' s'. \<exists>p. res = Got p \<and> out_token p = None)"
    unfolding receive_pair_from_mapper_def receive_pair_from_mapper_fd_def ok_seq ok_bind ok_get_env ok_assert
      ok_SYSCALL_RET
    by (simp add: header Let_def)
  then have "fst (collect_loop (Suc n) L empty_table 0 (e, s)) = Inl Undefined" for n
    unfolding collect_loop.simps
    by (intro bind_stops, elim ok_mono)
       (auto simp: collect_pair_def Let_def seq_io_def bind_io_def defined_c_def stop_io_def)
  then show ?thesis
    unfolding collect_phase_def by (intro bind_stops, unfold ok_get_st) (rule bind_stopped)
qed

theorem collect_phase_null_token_witness:
  "fst (collect_phase example_log (example_env [Full, Fault], example_state (pairs_bytes [([], [7])])))
     = Inl Undefined"
  by (rule collect_phase_null_token [OF example_ready, where v = "[7]" and xs = "[]"]) simp_all

end
