(* ===== verification/Mr_Reducer_Process.thy ===== *)
theory Mr_Reducer_Process
  imports Mr_Worker Mr_Reducer
begin

text \<open>
  The reducer process (\<open>src/reducer.c\<close>) after the collection phase of \<open>Mr_Reducer\<close>: the emit function
  and the body of a worker, the pool of workers as an instance of \<open>Mr_Pool\<close>, the clean-up after a
  failed push, and \<open>reducer_process_main\<close> from start to end (its theorems, with the pool put in, are in
  \<open>Mr_Children\<close>).
\<close>

section \<open>Emitting and the worker\<close>

type_synonym result_msg = "byte list \<times> byte list option \<times> size_t"

definition result_msg_bytes :: "result_msg \<Rightarrow> byte list" where
  "result_msg_bytes = (\<lambda>(t, v, n). result_bytes (cstr t) (payload v n))"

text \<open>\<open>reducer_emit\<close>, with the counter \<open>*results_count\<close> handed through.\<close>

definition reducer_emit :: "mr_log_file_t \<Rightarrow> result_msg \<Rightarrow> size_t \<Rightarrow> ('s, int \<times> size_t) proc" where
  "reducer_emit log_file = (\<lambda>(token, res_data, result_size) results_count.
     bind_io (call True False) (\<lambda>locked.
     if \<not> locked then
       seq_io (mr_log_error log_file ''Reducer'' ''Worker'' ''Failed to lock stdout mutex'')
         (return_io (-1, results_count))
     else
       bind_io (send_result_to_main log_file token res_data result_size) (\<lambda>res.
       let results_count = (if res = 0 then results_count + 1 else results_count) in
       bind_io (call True False) (\<lambda>unlocked.
       if \<not> unlocked then
         seq_io (mr_log_error log_file ''Reducer'' ''Worker'' ''Failed to unlock stdout mutex'')
           (return_io (-1, results_count))
       else return_io (res, results_count)))))"

abbreviation sendable_result :: "result_msg \<Rightarrow> bool" where
  "sendable_result \<equiv> \<lambda>(t, v, n). sendable t v n"

lemma reducer_emit_locked:
  "reducer_emit L = locked_emit L ''Reducer'' (\<lambda>(t, v, n). send_result_to_main L t v n)"
  by (intro ext, clarify) (simp only: reducer_emit_def locked_emit_def prod.case)

interpretation results: emitter reducer_emit result_msg_bytes sendable_result
proof unfold_locales
  fix L e0 and m :: result_msg and c
  assume log: "log_ready L e0" and "sendable_result m"
  then obtain t v n where m: "m = (t, v, n)" and snd: "sendable t v n" by (cases m) auto
  show "emits e0 (reducer_emit L m c :: ('a, int \<times> size_t) proc) (result_msg_bytes m) c"
    unfolding reducer_emit_locked m send_result_to_main_def prod.case
    by (rule locked_emits [OF log], unfold prod.case, rule send_result_ok [OF _ log _ snd refl])
       (simp_all add: result_msg_bytes_def)
qed

text \<open>The user's reducer on a token, its values and their count.\<close>

type_synonym user_reducer = "byte list \<Rightarrow> mr_value_t list \<Rightarrow> size_t \<Rightarrow> result_msg script"

abbreviation reduce_node :: "user_reducer \<Rightarrow> token_node_t \<Rightarrow> result_msg script" where
  "reduce_node reducer node \<equiv> reducer (node_token node) (node_values node) (node_count node)"

text \<open>The body of the loop of \<open>reducer_worker\<close>, for a popped node.\<close>

definition reducer_worker_body ::
    "mr_log_file_t \<Rightarrow> user_reducer \<Rightarrow> token_node_t \<Rightarrow> size_t \<Rightarrow> ('s, size_t) proc" where
  "reducer_worker_body log_file reducer node results_count =
     bind_io (run_script (reducer_emit log_file) (reduce_node reducer node) results_count) (\<lambda>(r, results_count).
     seq_io (if r \<noteq> 0 then seq_io (mr_log_error log_file ''Reducer'' ''Worker'' ''User reducer function failed for token'') skip
             else skip) (
     seq_io (c_free (Some (node_token node))) (
     seq_io (free_values (take (unat (node_count node)) (node_values node))) (
     seq_io (c_free (if node_slots node = 0 then None else Some ())) (
     seq_io (c_free (Some ())) (
     return_io results_count))))))"

lemma reducer_worker_body_cleanup:
  assumes "node_ok node"
  shows "ok (seq_io (c_free (Some (node_token node))) (
     seq_io (free_values (take (unat (node_count node)) (node_values node))) (
     seq_io (c_free (if node_slots node = 0 then None else Some ())) (
     seq_io (c_free (Some ())) (return_io x))))) e s Q \<longleftrightarrow> Q x e (s\<lparr>live := live s - node_blocks node\<rparr>)"
  using ok_cleanup_token_node [OF assms, of e s "\<lambda>_. Q x"] by (simp add: cleanup_token_node_def ok_simps)

lemma reducer_worker_body_ok:
  assumes ev: "evolve e0 e" and log: "log_ready L e0" and scr: "emits_only sendable_result (reduce_node reducer node)"
    and node: "node_ok node"
    and good: "\<And>e'. evolve e0 e' \<Longrightarrow> Q (c + word_of_nat (length (msgs (reduce_node reducer node)))) e'
      ((add_wr STDOUT_FILENO (concat (map result_msg_bytes (msgs (reduce_node reducer node)))) s)
        \<lparr>live := live s - node_blocks node\<rparr>)"
    and bad: "\<And>e' bs c'. evolve e0 e' \<Longrightarrow> faulty e0 \<Longrightarrow>
      Q c' e' ((add_wr STDOUT_FILENO bs s)\<lparr>live := live s - node_blocks node\<rparr>)"
  shows "ok (reducer_worker_body L reducer node c) e s Q"
proof -
  have body: "ok (seq_io (if r \<noteq> 0 then seq_io (mr_log_error L ''Reducer'' ''Worker''
        ''User reducer function failed for token'') skip else skip) (
     seq_io (c_free (Some (node_token node))) (
     seq_io (free_values (take (unat (node_count node)) (node_values node))) (
     seq_io (c_free (if node_slots node = 0 then None else Some ())) (
     seq_io (c_free (Some ())) (return_io c')))))) e' s' Q"
    if e': "evolve e0 e'" and q: "\<And>e''. evolve e0 e'' \<Longrightarrow> Q c' e'' (s'\<lparr>live := live s' - node_blocks node\<rparr>)"
    for r c' e' s'
    unfolding ok_seq [where m = "if _ then _ else _"] reducer_worker_body_cleanup [OF node]
    by (cases "r = 0") (use q e' in \<open>auto simp: ok_simps intro!: log_error_ok [OF e' log]\<close>)
  show ?thesis
    unfolding reducer_worker_body_def ok_bind
    by (rule results.run_script_ok [OF ev log scr]; simp only: prod.case; rule body) (use good bad in auto)
qed

section \<open>The pool\<close>

text \<open>
  The reducer's instance of the pool: an item is the pointer to a node, \<open>load\<close> the node behind it. A
  worker goes on whatever the user's function returns. After a failed push the queue is closed and
  the workers joined without checks, and the exit code is \<open>EXIT_FAILURE\<close>.
\<close>

definition reducer_after_user :: "int \<Rightarrow> 'm role" where
  "reducer_after_user r = Loop"

definition reducer_after_push_error :: "byte list list \<Rightarrow> 'm role" where
  "reducer_after_push_error nodes_left = Close False EXIT_FAILURE"

definition reducer_program :: "user_reducer \<Rightarrow> (byte list \<Rightarrow> token_node_t) \<Rightarrow> result_msg program" where
  "reducer_program reducer load =
     \<lparr>job = (\<lambda>d. reduce_node reducer (load d)), bytes = result_msg_bytes, after_user = reducer_after_user,
      after_push_error = reducer_after_push_error, exit_code = EXIT_SUCCESS\<rparr>"

lemma reducer_program_steady: "steady (reducer_program reducer load)"
  by (simp add: steady_def reducer_program_def reducer_after_user_def)

section \<open>After a failed push\<close>

text \<open>
  The clean-up in the command of \<open>SYSCALL_EXIT_CHECK(mr_queue_push ...)\<close>, after the joins: the node
  whose push failed (number \<open>j\<close> of bucket \<open>i\<close>), the rest of its bucket, the buckets behind it.
\<close>

definition push_error_cleanup :: "hash_table \<Rightarrow> nat \<Rightarrow> nat \<Rightarrow> ('s, unit) proc" where
  "push_error_cleanup hash_table i j =
     seq_io (cleanup_token_node (hash_table ! i ! j)) (
     seq_io (cleanup_nodes (drop (Suc j) (hash_table ! i))) (
     cleanup_nodes (concat (drop (Suc i) hash_table))))"

text \<open>The blocks of the nodes that were pushed before it.\<close>

definition pushed_blocks :: "hash_table \<Rightarrow> nat \<Rightarrow> nat \<Rightarrow> int" where
  "pushed_blocks tbl i j = table_blocks (take i tbl) + bucket_blocks (take j (tbl ! i))"

lemma bucket_blocks_append [simp]: "bucket_blocks (a @ b) = bucket_blocks a + bucket_blocks b"
  by (simp add: bucket_blocks_def)

lemma bucket_blocks_concat: "bucket_blocks (concat bs) = table_blocks bs"
  by (induction bs) (auto simp: bucket_blocks_def table_blocks_def)

lemma table_blocks_append: "table_blocks (a @ b) = table_blocks a + table_blocks b"
  by (simp add: table_blocks_def)

lemma push_error_cleanup_ok:
  assumes tbl: "table_ok tbl" and ij: "i < length tbl" "j < length (tbl ! i)"
  shows "ok (push_error_cleanup tbl i j) e s Q \<longleftrightarrow>
    Q () e (s\<lparr>live := live s - (table_blocks tbl - pushed_blocks tbl i j)\<rparr>)"
proof -
  have ok: "node \<in> set b \<Longrightarrow> b \<in> set tbl \<Longrightarrow> node_ok node" for node b
    by (rule table_ok_nodes [OF tbl])
  have bucket: "tbl ! i = take j (tbl ! i) @ tbl ! i ! j # drop (Suc j) (tbl ! i)"
    by (rule id_take_nth_drop [OF ij(2)])
  have "tbl = take i tbl @ tbl ! i # drop (Suc i) tbl" by (rule id_take_nth_drop [OF ij(1)])
  then have "table_blocks tbl = table_blocks (take i tbl @ tbl ! i # drop (Suc i) tbl)" by simp
  also have "\<dots> = table_blocks (take i tbl) + bucket_blocks (tbl ! i) + table_blocks (drop (Suc i) tbl)"
    by (simp add: table_blocks_append) (simp add: table_blocks_def)
  also have "bucket_blocks (tbl ! i) = bucket_blocks (take j (tbl ! i) @ tbl ! i ! j # drop (Suc j) (tbl ! i))"
    using bucket by simp
  finally have all: "table_blocks tbl - pushed_blocks tbl i j =
      node_blocks (tbl ! i ! j) + bucket_blocks (drop (Suc j) (tbl ! i)) + bucket_blocks (concat (drop (Suc i) tbl))"
    by (simp add: pushed_blocks_def bucket_blocks_concat) (simp add: bucket_blocks_def)
  have "node_ok (tbl ! i ! j)" "list_all node_ok (drop (Suc j) (tbl ! i))" "list_all node_ok (concat (drop (Suc i) tbl))"
    using ok [OF nth_mem [OF ij(2)] nth_mem [OF ij(1)]] ok ij by (auto simp: list_all_iff dest!: in_set_dropD)
  then show ?thesis
    unfolding all
    by (simp add: push_error_cleanup_def ok_simps ok_cleanup_token_node ok_cleanup_nodes list_all_iff algebra_simps)
qed

section \<open>reducer_process_main\<close>

abbreviation sizeof_token_node_p :: size_t where "sizeof_token_node_p \<equiv> 8"

text \<open>
  How the concurrent phase ends: everything pushed, the queue closed and all workers joined; or a
  push failed (bucket and place), the queue closed and the workers joined; or an early \<open>return\<close>.
\<close>

datatype phase_end = All_joined | Push_failed nat nat | Early_return int

definition reducer_process_end :: "mr_log_file_t \<Rightarrow> mr_queue_t \<Rightarrow> byte list option \<Rightarrow> byte list option \<Rightarrow> ('s, int) proc" where
  "reducer_process_end log_file q threads_mem t_args =
     seq_io (mr_queue_destroy q) (
     seq_io (c_free threads_mem) (seq_io (c_free t_args) (
     SYSCALL_EXIT_CHECK (mr_log_info log_file ''Reducer'' ''Controller'' ''Reducer process finished'') skip
       (return_io EXIT_SUCCESS))))"

definition reducer_process_main ::
    "mr_log_file_t \<Rightarrow> size_t \<Rightarrow> size_t \<Rightarrow> (mr_queue_t \<Rightarrow> hash_table \<Rightarrow> ('s, phase_end) proc) \<Rightarrow> ('s, int) proc" where
  "reducer_process_main log_file reducer_threads queue_size phase =
     SYSCALL_EXIT_CHECK (mr_log_info log_file ''Reducer'' ''Controller'' ''Reducer process started'') skip (
     bind_io (collect_phase log_file) (\<lambda>collected.
     case collected of
       Inl code \<Rightarrow> return_io code
     | Inr (hash_table, pairs_received) \<Rightarrow>
     SYSCALL_RET EXIT_FAILURE fst (mr_queue_init queue_size sizeof_token_node_p)
       (cleanup_hash_table hash_table) (\<lambda>(_, queue_out).
     let queue = the queue_out in
     bind_io (call True False) (\<lambda>mtx.
     if \<not> mtx then
       seq_io (mr_log_error log_file ''Reducer'' ''Controller'' ''Failed to initialize stdout mutex'') (
       seq_io (mr_queue_destroy queue) (
       seq_io (cleanup_hash_table hash_table) (return_io EXIT_FAILURE)))
     else
     bind_io (c_malloc (unat (8 * reducer_threads))) (\<lambda>threads_mem.
     bind_io (c_malloc (unat (80 * reducer_threads))) (\<lambda>t_args.
     if threads_mem = None \<or> t_args = None then
       seq_io (mr_log_error log_file ''Reducer'' ''Controller'' ''Failed to allocate memory for reducer threads'') (
       seq_io (c_free threads_mem) (seq_io (c_free t_args) (
       seq_io (mr_queue_destroy queue) (
       seq_io (cleanup_hash_table hash_table) (return_io EXIT_FAILURE)))))
     else
     bind_io (create_threads (unat reducer_threads)) (\<lambda>created.
     if \<not> created then
       seq_io (mr_log_error log_file ''Reducer'' ''Controller'' ''Failed to create reducer worker thread'') (
       seq_io (c_free threads_mem) (seq_io (c_free t_args) (
       seq_io (mr_queue_destroy queue) (
       seq_io (cleanup_hash_table hash_table) (return_io EXIT_FAILURE)))))
     else
     bind_io (phase queue hash_table) (\<lambda>end_of_phase.
     case end_of_phase of
       Early_return code \<Rightarrow> return_io code
     | Push_failed i j \<Rightarrow>
         seq_io (push_error_cleanup hash_table i j) (
         seq_io (c_free threads_mem) (seq_io (c_free t_args) (
         seq_io (mr_queue_destroy queue) (return_io EXIT_FAILURE))))
     | All_joined \<Rightarrow> reducer_process_end log_file queue threads_mem t_args))))))))"

section \<open>Properties\<close>

text \<open>C38. The body of a reducer worker writes the results of its token in the order the user's reducer
  emits them, counts them, and frees everything the node owns on every path.\<close>

theorem reducer_worker_body_processes:
  assumes "log_ready L e" and "emits_only sendable_result (reducer (node_token node) (node_values node) (node_count node))"
    and "node_ok node"
  shows "ok (reducer_worker_body L reducer node c) e s (\<lambda>c' e' s'.
    live s' = live s - node_blocks node \<and>
    (faulty e \<or>
     c' = c + word_of_nat (length (msgs (reducer (node_token node) (node_values node) (node_count node)))) \<and>
     wrs s' = (wrs s)(STDOUT_FILENO := wrs s STDOUT_FILENO @
       concat (map result_msg_bytes (msgs (reducer (node_token node) (node_values node) (node_count node)))))))"
  by (rule reducer_worker_body_ok [OF evolve_refl assms(1), of reducer node, OF assms(2,3)]) auto


definition example_reducer :: user_reducer where
  "example_reducer t vs n = Emit (t, Some [1], 1) Return"

definition example_node :: token_node_t where
  "example_node = \<lparr>node_token = [97, 0], node_values = [\<lparr>val_data = Some [7], val_size = 1\<rparr>], node_count = 1,
     node_capacity = 8, node_slots = 8\<rparr>"

theorem reducer_worker_body_processes_witness:
  "ok (reducer_worker_body example_log example_reducer example_node 0) (example_env [])
     (example_state []\<lparr>live := 4\<rparr>) (\<lambda>c' e' s'. c' = 1 \<and> live s' = 0)"
  by (rule ok_mono [OF reducer_worker_body_processes [OF example_ready, of example_reducer example_node]])
     (auto simp: example_reducer_def example_node_def sendable_def is_cstr_def cstr_def node_ok_def node_blocks_def)

end
