(* ===== verification/Mr_Map_Reduce.thy ===== *)
theory Mr_Map_Reduce
  imports Mr_Mapper Mr_Reducer_Process
begin

text \<open>
  The data flow of a job across the components: what the pool of mapper threads writes is what the
  collection phase of the reducer groups, and the nodes of its table are what the pool of reducer
  threads works on.
\<close>

section \<open>The nodes of a table\<close>

abbreviation token_of :: "token_node_t \<Rightarrow> byte list" where
  "token_of node \<equiv> cstr (node_token node)"

lemma table_node:
  assumes "table_ok tbl" and "node \<in> set (concat tbl)"
  obtains h i where "h < MR_REDUCER_HASH_TABLE_SIZE" and "i < length (tbl ! h)" and "node = tbl ! h ! i"
  using assms by (auto simp: table_ok_def in_set_conv_nth)

lemma distinct_table:
  assumes "table_ok tbl"
  shows "distinct (map token_of (concat tbl))"
proof -
  have "distinct (map token_of (concat (take n tbl))) \<and>
      (\<forall>node \<in> set (concat (take n tbl)). unat (hash_function (node_token node)) < n)"
    if "n \<le> MR_REDUCER_HASH_TABLE_SIZE" for n
    using that
  proof (induction n)
    case (Suc n)
    have b: "bucket_ok n (tbl ! n)" and len: "n < length tbl" using assms Suc.prems by (auto simp: table_ok_def)
    have hashes: "unat (hash_function (node_token x)) \<noteq> unat (hash_function (node_token y))"
      if "x \<in> set (concat (take n tbl))" "y \<in> set (tbl ! n)" for x y
      using that Suc b by (force simp: bucket_ok_def)
    have "token_of x \<noteq> token_of y" if "x \<in> set (concat (take n tbl))" "y \<in> set (tbl ! n)" for x y
      using hashes [OF that] hash_cstr [of "node_token x" "node_token y"] by auto
    then show ?case
      using Suc b by (auto simp: take_Suc_conv_app_nth [OF len] bucket_ok_def less_Suc_eq)
  qed simp
  from this [of MR_REDUCER_HASH_TABLE_SIZE] show ?thesis using assms by (simp add: table_ok_def)
qed

lemma table_node_values:
  assumes "table_ok tbl" and "node \<in> set (concat tbl)"
  shows "node_values node = lookup_token tbl (token_of node)" and "length (node_values node) = unat (node_count node)"
proof -
  from assms obtain h i where "h < MR_REDUCER_HASH_TABLE_SIZE" "i < length (tbl ! h)" "node = tbl ! h ! i" by (rule table_node)
  with lookup_node [OF assms(1)] node_ok_nth [OF assms(1)]
  show "node_values node = lookup_token tbl (token_of node)" "length (node_values node) = unat (node_count node)"
    by (auto simp: node_ok_def)
qed

section \<open>From the lines to the results\<close>

text \<open>The pair a message of the mapper stands for, and what a mapper may emit.\<close>

definition msg_pair :: "pair_msg \<Rightarrow> byte list \<times> byte list" where
  "msg_pair = (\<lambda>(t, v, n). (cstr t, payload v n))"

lemma pairs_bytes_msgs: "concat (map pair_msg_bytes ms) = pairs_bytes (map msg_pair ms)"
proof -
  have "pair_msg_bytes = (\<lambda>(t, v). pair_bytes t v) \<circ> msg_pair"
    by (simp add: pair_msg_bytes_def msg_pair_def fun_eq_iff)
  then show ?thesis by (simp add: pairs_bytes_def)
qed

text \<open>All the pairs of a job, line by line.\<close>

definition all_pairs :: "(mr_file_line_t \<Rightarrow> pair_msg script) \<Rightarrow> mr_file_line_t list \<Rightarrow> (byte list \<times> byte list) list" where
  "all_pairs mapper lines = map msg_pair (concat (map (\<lambda>ln. msgs (mapper ln)) lines))"

text \<open>
  A finished pool of mapper threads over the lines \<open>lines\<close>; \<open>load\<close> is the line an item of the queue
  stands for.
\<close>

definition mapper_phase ::
    "(mr_file_line_t \<Rightarrow> pair_msg script) \<Rightarrow> mr_file_line_t list \<Rightarrow> (byte list \<Rightarrow> mr_file_line_t) \<times> pair_msg pool \<Rightarrow> bool" where
  "mapper_phase mapper lines = (\<lambda>(load, p). \<exists>q n items code c.
     fresh q \<and> 0 < n \<and> (\<forall>d \<in> set items. length d = unat (element_size q)) \<and> map load items = lines \<and>
     steady (mapper_program mapper load code) \<and> roles p ! 0 = Exit c \<and>
     reachable (pool_step (mapper_program mapper load code)) smooth (pool_start q n items) p)"

text \<open>A finished pool of reducer threads over the nodes of a table.\<close>

definition reducer_phase ::
    "user_reducer \<Rightarrow> hash_table \<Rightarrow> (byte list \<Rightarrow> token_node_t) \<times> result_msg pool \<Rightarrow> bool" where
  "reducer_phase reducer tbl = (\<lambda>(load, p). \<exists>q n items c.
     fresh q \<and> 0 < n \<and> (\<forall>d \<in> set items. length d = unat (element_size q)) \<and> map load items = concat tbl \<and>
     roles p ! 0 = Exit c \<and>
     reachable (pool_step (reducer_program reducer load)) smooth (pool_start q n items) p)"

lemma mset_loaded: "mset xs = mset items \<Longrightarrow> map load items = ys \<Longrightarrow> mset (map load xs) = mset ys"
  by (metis mset_map)

lemma mapper_phase_pairs:
  assumes "mapper_phase mapper lines (load, p)"
  shows "out p = pairs_bytes (map msg_pair (sent p))" and "mset (map msg_pair (sent p)) = mset (all_pairs mapper lines)"
    and "mset (map load (finished p)) = mset lines"
proof -
  from assms obtain q n items code c where
    q: "fresh q" "\<forall>d \<in> set items. length d = unat (element_size q)" "steady (mapper_program mapper load code)" "0 < n"
      "reachable (pool_step (mapper_program mapper load code)) smooth (pool_start q n items) p" "roles p ! 0 = Exit c"
    and lines: "map load items = lines"
    unfolding mapper_phase_def by blast
  have "out p = concat (map pair_msg_bytes (sent p))"
    and sent: "mset (sent p) = (\<Sum>d \<in># mset items. mset (msgs (mapper (load d))))"
    using pool_exit [OF q] by (simp_all add: mapper_program_def)
  moreover have "mset (sent p) = mset (concat (map (\<lambda>ln. msgs (mapper ln)) lines))"
    unfolding sent lines [symmetric] by (induction items) simp_all
  ultimately show "out p = pairs_bytes (map msg_pair (sent p))" "mset (map msg_pair (sent p)) = mset (all_pairs mapper lines)"
    by (simp_all add: pairs_bytes_msgs all_pairs_def)
  show "mset (map load (finished p)) = mset lines" using pool_exit [OF q] lines by (simp add: mset_loaded del: mset_map)
qed

lemma reducer_phase_results:
  assumes "reducer_phase reducer tbl (load, p)"
  shows "out p = concat (map result_msg_bytes (sent p))"
    and "mset (sent p) = mset (concat (map (\<lambda>node. msgs (reduce_node reducer node)) (concat tbl)))"
    and "mset (map load (finished p)) = mset (concat tbl)"
proof -
  from assms obtain q n items c where
    q: "fresh q" "\<forall>d \<in> set items. length d = unat (element_size q)" "0 < n"
      "reachable (pool_step (reducer_program reducer load)) smooth (pool_start q n items) p" "roles p ! 0 = Exit c"
    and nodes: "map load items = concat tbl"
    unfolding reducer_phase_def by blast
  note exit = pool_exit [OF q(1,2) reducer_program_steady q(3,4,5)]
  show "out p = concat (map result_msg_bytes (sent p))" using exit by (simp add: reducer_program_def)
  have sent: "mset (sent p) = (\<Sum>d \<in># mset items. mset (msgs (reduce_node reducer (load d))))"
    using exit by (simp add: reducer_program_def)
  show "mset (sent p) = mset (concat (map (\<lambda>node. msgs (reduce_node reducer node)) (concat tbl)))"
    unfolding sent nodes [symmetric] by (induction items) simp_all
  show "mset (map load (finished p)) = mset (concat tbl)" using exit nodes by (simp add: mset_loaded del: mset_map mset_concat)
qed

text \<open>
  The table between them: one node for every token, with the values of its pairs in the order the
  mapper's threads wrote them.
\<close>

definition grouped :: "(byte list \<times> byte list) list \<Rightarrow> hash_table \<Rightarrow> bool" where
  "grouped xs tbl \<longleftrightarrow> distinct (map token_of (concat tbl)) \<and> token_of ` set (concat tbl) = fst ` set xs \<and>
     (\<forall>node \<in> set (concat tbl). list_all2 carries_value (values_of (token_of node) xs) (node_values node) \<and>
        length (node_values node) = unat (node_count node))"

lemma groups_grouped: "groups tbl xs \<Longrightarrow> grouped xs tbl"
proof -
  assume g: "groups tbl xs"
  then have tbl: "table_ok tbl" by (simp add: groups_def)
  have "list_all2 carries_value (values_of (token_of node) xs) (node_values node) \<and> length (node_values node) = unat (node_count node)"
    if "node \<in> set (concat tbl)" for node
    using g table_node_values [OF tbl that] zero_notin_cstr by (simp add: groups_def)
  moreover have "token_of ` set (concat tbl) = fst ` set xs" using g by (simp add: groups_def tokens_image)
  ultimately show ?thesis unfolding grouped_def using distinct_table [OF tbl] by blast
qed

section \<open>Such runs exist\<close>

text \<open>Eight-byte items, as the pointers of the code, for the elements of a list.\<close>

lemma coded_items:
  assumes "length xs < SSIZE_LIMIT"
  obtains items :: "byte list list" and load where "\<forall>d \<in> set items. length d = 8" and "map load items = xs"
proof
  let ?items = "map (\<lambda>i. enc_size (word_of_nat i)) [0..<length xs]" and ?load = "\<lambda>d. xs ! unat (dec_size d)"
  show "\<forall>d \<in> set ?items. length d = 8" by auto
  show "map ?load ?items = xs" using assms by (intro nth_equalityI) simp_all
qed

definition pointer_queue :: mr_queue_t where
  "pointer_queue = \<lparr>capacity = 1, element_size = 8, q_count = 0, closed = False, buffer = replicate 8 0\<rparr>"

lemma pointer_queue_fresh: "fresh pointer_queue" and pointer_queue_size: "unat (element_size pointer_queue) = 8"
  by (simp_all add: fresh_def queue_ok_def pointer_queue_def)

lemma pool_can_finish:
  assumes "steady P" and "\<forall>d \<in> set items. length d = 8"
  shows "\<exists>p c. reachable (pool_step P) smooth (pool_start pointer_queue 1 items) p \<and> roles p ! 0 = Exit c"
proof -
  let ?p = "pool_start pointer_queue 1 items :: 'a pool"
  have inv: "pool_inv P items ?p" by (rule pool_start_inv [OF pointer_queue_fresh _ assms(1)]) (simp add: assms(2) pointer_queue_size)
  have "0 < capacity (queue (mon ?p))" and "1 < length (roles ?p)"
    by (simp_all add: pool_start_def start_def pointer_queue_def)
  from pool_inv_finishes [OF inv this] obtain p c where p: "(pool_step P Run)\<^sup>*\<^sup>* ?p p" "roles p ! 0 = Exit c"
    by blast
  have "reachable (pool_step P) smooth ?p p" by (rule runs_reachable, rule p(1), rule reachable_refl)
  with p(2) show ?thesis by blast
qed

lemma mapper_phase_exists:
  assumes "length lines < SSIZE_LIMIT" and "\<And>ln. result (mapper ln) \<noteq> -1"
  shows "\<exists>r. mapper_phase mapper lines r"
proof -
  obtain items :: "byte list list" and load where items: "\<forall>d \<in> set items. length d = 8" "map load items = lines"
    by (rule coded_items [OF assms(1)])
  have steady: "steady (mapper_program mapper load 0)"
    using assms(2) by (simp add: steady_def mapper_program_def mapper_after_user_def)
  obtain p c where "reachable (pool_step (mapper_program mapper load 0)) smooth (pool_start pointer_queue 1 items) p" "roles p ! 0 = Exit c"
    using pool_can_finish [OF steady items(1)] by blast
  moreover have "\<forall>d \<in> set items. length d = unat (element_size pointer_queue)" using items(1) by (simp add: pointer_queue_size)
  ultimately show ?thesis
    unfolding mapper_phase_def split_paired_Ex prod.case using pointer_queue_fresh items(2) steady zero_less_one by blast
qed

lemma reducer_phase_exists:
  assumes "length (concat tbl) < SSIZE_LIMIT"
  shows "\<exists>r. reducer_phase reducer tbl r"
proof -
  obtain items :: "byte list list" and load where items: "\<forall>d \<in> set items. length d = 8" "map load items = concat tbl"
    by (rule coded_items [OF assms])
  obtain p c where "reachable (pool_step (reducer_program reducer load)) smooth (pool_start pointer_queue 1 items) p" "roles p ! 0 = Exit c"
    using pool_can_finish [OF reducer_program_steady items(1)] by blast
  moreover have "\<forall>d \<in> set items. length d = unat (element_size pointer_queue)" using items(1) by (simp add: pointer_queue_size)
  ultimately show ?thesis
    unfolding reducer_phase_def split_paired_Ex prod.case using pointer_queue_fresh items(2) zero_less_one by blast
qed

lemma grouped_length: "grouped xs tbl \<Longrightarrow> length (concat tbl) \<le> length xs"
proof -
  assume "grouped xs tbl"
  then have "distinct (map token_of (concat tbl))" and set: "set (map token_of (concat tbl)) = fst ` set xs"
    unfolding grouped_def by simp_all
  from distinct_card [OF this(1)] have "length (concat tbl) = card (fst ` set xs)" unfolding set by simp
  also have "\<dots> \<le> length xs" using card_image_le [of "set xs" fst] card_length [of xs] by simp
  finally show ?thesis .
qed

end
