(* ===== verification/Mr_Children.thy ===== *)
theory Mr_Children
  imports Mr_Map_Reduce
begin

text \<open>
  The two child processes as a whole: \<open>mapper_process_main\<close> and \<open>reducer_process_main\<close> with the
  threads of their concurrent phase, from the bytes on the standard input to those on the standard
  output. The controller reads the standard input and the threads write the standard output and free
  what they were given, so the effects of the two commute: the controller's loop comes first, then a
  whole run of the pool, in any interleaving of its threads (\<open>Mr_Pool\<close>). What the run does to the
  process is read off the finished pool: its output is appended to the standard output, and for every
  item it has processed the blocks are freed that the body of a worker frees
  (\<open>mapper_worker_body_processes\<close>, \<open>reducer_worker_body_processes\<close>). Every call of the controller may
  fail; the runs of the pool are those without failed calls (\<open>smooth\<close>), the other ones are the
  subject of \<open>Mr_Pool\<close>, \<open>Mr_Mapper\<close> and \<open>Mr_Reducer_Process\<close>.
\<close>

section \<open>The mapper\<close>

text \<open>
  The receiving loop of \<open>mapper_process_main\<close>: the lines it pushes, the receiver and \<open>res\<close>. A line
  takes at least a header from the stream.
\<close>

primrec receive_lines ::
    "nat \<Rightarrow> mr_log_file_t \<Rightarrow> mr_main_receiver_t \<Rightarrow> ('s, mr_file_line_t list \<times> mr_main_receiver_t \<times> int) proc" where
  "receive_lines 0 log_file receiver = stop_io Out_Of_Fuel"
| "receive_lines (Suc n) log_file receiver =
     bind_io (receive_line_from_main log_file receiver) (\<lambda>(receiver, res).
     case res of
       Got ln \<Rightarrow> bind_io (receive_lines n log_file receiver) (\<lambda>(lines, receiver, res). return_io (ln # lines, receiver, res))
     | _ \<Rightarrow> return_io ([], receiver, recv_code res))"

abbreviation line_blocks :: "mr_file_line_t \<Rightarrow> int" where
  "line_blocks ln \<equiv> blocks (line ln) + blocks (file_name ln)"

text \<open>\<open>runs\<close> gives the run of the pool for the received lines.\<close>

definition mapper_threads ::
    "mr_log_file_t \<Rightarrow> (mr_file_line_t list \<Rightarrow> (byte list \<Rightarrow> mr_file_line_t) \<times> pair_msg pool) \<Rightarrow> mr_queue_t
      \<Rightarrow> ('s, int option \<times> mr_main_receiver_t \<times> int) proc" where
  "mapper_threads log_file runs q =
     bind_io (get_st (\<lambda>s. length (rds s STDIN_FILENO))) (\<lambda>n.
     bind_io (receive_lines (Suc n) log_file mr_main_receiver_init) (\<lambda>(lines, receiver, res).
     let (load, p) = runs lines in
     seq_io (put_st (\<lambda>s. (add_wr STDOUT_FILENO (out p) s)
       \<lparr>live := live s - sum_list (map (\<lambda>d. line_blocks (load d)) (finished p))\<rparr>)) (
     return_io (None, receiver, res))))"

abbreviation lines_of_reading :: "reading \<Rightarrow> (path \<times> byte list list) list \<Rightarrow> mr_file_line_t list" where
  "lines_of_reading cur fs \<equiv> map (\<lambda>(name, i, l). line_struct name i l) (all_lines cur fs)"

lemma receive_lines_ok:
  assumes "evolve e0 e" and log: "log_ready L e0"
    and "receiver_at r cur" and "rds s STDIN_FILENO = remaining_bytes pad cur fs"
    and "small_reading cur" "\<forall>f \<in> set fs. small_file f" and "length (all_lines cur fs) < n"
    and "\<And>e' r'. evolve e0 e' \<Longrightarrow> current_file_name r' = None \<Longrightarrow>
      Q (lines_of_reading cur fs, r', 1) e'
        ((put_rd STDIN_FILENO [] s)\<lparr>live := live s - name_blocks r + 2 * int (length (all_lines cur fs))\<rparr>)"
    and "\<And>e' r' bs k d. evolve e0 e' \<Longrightarrow> faulty e0 \<Longrightarrow> at_most_one_lost r r' d \<Longrightarrow>
      Q (take k (lines_of_reading cur fs), r', -1) e'
        ((put_rd STDIN_FILENO bs s)\<lparr>live := live s + d + 2 * int (length (take k (all_lines cur fs)))\<rparr>)"
  shows "ok (receive_lines n L r) e s Q"
  using assms(1,3-)
proof (induction n arbitrary: e s r cur fs Q)
  case (Suc n)
  note ev = Suc.prems(1) and good = Suc.prems(7) and bad = Suc.prems(8)
  let ?k = "\<lambda>(receiver, res) e' s'. ok (case res of
      Got ln \<Rightarrow> bind_io (receive_lines n L receiver) (\<lambda>(lines, receiver, res). return_io (ln # lines, receiver, res))
    | _ \<Rightarrow> return_io ([], receiver, recv_code res)) e' s' Q"
  have "ok (receive_line_from_main_fd L STDIN_FILENO r) e s ?k"
  proof (rule receive_line_ok [OF ev log _ Suc.prems(2-5)])
    show "failing e0 STDIN_FILENO r s ?k"
      unfolding failing_def
    proof (intro allI impI)
      fix e' r' k d assume "evolve e0 e'" "faulty e0" "at_most_one_lost r r' d"
      from bad [OF this, of 0 "drop k (rds s STDIN_FILENO)"] show "?k (r', Recv_error) e' (consumed STDIN_FILENO k d s)"
        by (simp add: ok_simps fun_upd_def cong: if_cong)
    qed
    show "accepts e0 STDIN_FILENO pad r s (next_line cur fs) ?k"
    proof (cases "next_line cur fs")
      case None
      then have "all_lines cur fs = []" by (rule all_lines_None)
      then show ?thesis using good None by (auto simp: ok_simps fun_upd_def cong: if_cong)
    next
      case (Some y)
      obtain name i l cur' fs' where y: "y = ((name, i, l), cur', fs')" by (metis prod_cases3 prod.collapse)
      have lines: "all_lines cur fs = (name, i, l) # all_lines cur' fs'" using all_lines_Some Some y by simp
      have small: "small_reading cur'" "\<forall>f \<in> set fs'. small_file f"
        using next_line_small [OF Some [unfolded y] Suc.prems(4,5)] by blast+
      show ?thesis
        unfolding Some y accepts.simps
      proof (intro allI impI)
        fix e' r' assume e': "evolve e0 e'" and r': "receiver_at r' cur'"
        let ?s = "(put_rd STDIN_FILENO (remaining_bytes pad cur' fs') s)\<lparr>live := live s + (name_blocks r' - name_blocks r + 2)\<rparr>"
        let ?Q = "\<lambda>(lines, receiver, res). Q (line_struct name i l # lines, receiver, res)"
        have "ok (receive_lines n L r') e' ?s ?Q"
        proof (rule Suc.IH [OF e' r' _ small])
          fix e'' and r'' :: mr_main_receiver_t
          assume "evolve e0 e''" "current_file_name r'' = None"
          from good [OF this] show "?Q (lines_of_reading cur' fs', r'', 1) e''
              ((put_rd STDIN_FILENO [] ?s)\<lparr>live := live ?s - name_blocks r' + 2 * int (length (all_lines cur' fs'))\<rparr>)"
            by (simp add: lines algebra_simps fun_upd_def cong: if_cong)
        next
          fix e'' r'' bs k d assume e'': "evolve e0 e''" "faulty e0" and d: "at_most_one_lost r' r'' d"
          have "at_most_one_lost r r'' (d + name_blocks r' - name_blocks r)" using d by (auto simp: at_most_one_lost_def)
          from bad [OF e'' this, of "Suc k" bs] show "?Q (take k (lines_of_reading cur' fs'), r'', -1) e''
              ((put_rd STDIN_FILENO bs ?s)\<lparr>live := live ?s + d + 2 * int (length (take k (all_lines cur' fs')))\<rparr>)"
            by (simp add: lines algebra_simps fun_upd_def cong: if_cong)
        qed (use Suc.prems(6) in \<open>simp_all add: lines\<close>)
        then show "?k (r', Got (line_struct name i l)) e' ?s" by (simp add: ok_simps split_def)
      qed
    qed
  qed simp
  then show ?case by (simp add: receive_line_from_main_def ok_simps split_def)
qed simp

text \<open>
  The contract of a phase between the set-up of the process (three blocks) and its clean-up, for the
  bytes it writes: it ends regularly with the receiver's file name as its only block, or, after a
  failed call, with an error or an early return, when one more block may be lost.
\<close>

definition mapper_phase_ok ::
    "env \<Rightarrow> 's state_scheme \<Rightarrow> (mr_queue_t \<Rightarrow> ('s, int option \<times> mr_main_receiver_t \<times> int) proc) \<Rightarrow> ((int \<Rightarrow> byte list) \<Rightarrow> bool) \<Rightarrow> bool" where
  "mapper_phase_ok e0 s phase W \<longleftrightarrow>
     (\<forall>e q. evolve e0 e \<longrightarrow> ok (phase q) e (s\<lparr>live := 3 + live s\<rparr>) (\<lambda>(early, receiver, res) e' s'.
        evolve e0 e' \<and>
        (early = None \<and> res = 1 \<and> live s' = live s + 3 + name_blocks receiver \<and> W (wrs s') \<or>
         (early = None \<and> res = -1 \<or> early = Some EXIT_FAILURE) \<and> faulty e0 \<and>
         live s + 3 + name_blocks receiver \<le> live s' \<and> live s' \<le> live s + 4 + name_blocks receiver)))"

lemma mapper_process_main_ok:
  assumes ev: "evolve e0 e" and log: "log_ready L e0" and qs: "0 < queue_size" and phase: "mapper_phase_ok e0 s phase W"
    and good: "\<And>e' s'. evolve e0 e' \<Longrightarrow> live s' = live s \<Longrightarrow> W (wrs s') \<Longrightarrow> Q EXIT_SUCCESS e' s'"
    and bad: "\<And>e' s'. evolve e0 e' \<Longrightarrow> faulty e0 \<Longrightarrow> live s \<le> live s' \<Longrightarrow> live s' \<le> live s + 5 \<Longrightarrow> Q EXIT_FAILURE e' s'"
  shows "ok (mapper_process_main L n queue_size phase) e s Q"
proof -
  note logged = log_error_ok [OF _ log]
  have fin: "ok (SYSCALL_EXIT_CHECK (mr_log_info L ''Mapper'' ''Controller'' ''Mapper process finished'') skip
        (return_io EXIT_SUCCESS)) e' s' Q" if "evolve e0 e'" "live s' = live s" "W (wrs s')" for e' s'
    using good bad that by (auto simp: ok_simps intro!: log_info_check_ok [OF that(1) log])
  have last: "ok (SYSCALL_EXIT_CHECK (return_io res)
        (mr_log_error L ''Mapper'' ''Controller'' ''Error receiving lines from main process'') (
      SYSCALL_EXIT_CHECK (mr_log_info L ''Mapper'' ''Controller'' ''Mapper process finished'') skip
        (return_io EXIT_SUCCESS))) e' s' Q"
    if "evolve e0 e'" "res = 1 \<and> live s' = live s \<and> W (wrs s') \<or> res = -1 \<and> faulty e0 \<and> live s \<le> live s' \<and> live s' \<le> live s + 1"
    for e' s' res
    using fin [OF that(1)] that bad
    by (auto simp: ok_SYSCALL_EXIT_CHECK [of "return_io res"] ok_simps intro!: logged)
  have phased: "ok (phase q) e' (s\<lparr>live := 3 + live s\<rparr>) (\<lambda>x e'' s''. ok (case x of (early, receiver, res) \<Rightarrow> case early of
       Some code \<Rightarrow> return_io code
     | None \<Rightarrow>
         seq_io (mr_main_receiver_destroy receiver) (
         seq_io (mr_queue_destroy (the (Some q))) (
         seq_io (c_free (Some tm)) (
         seq_io (c_free (Some ta)) (
         SYSCALL_EXIT_CHECK (return_io res)
           (mr_log_error L ''Mapper'' ''Controller'' ''Error receiving lines from main process'') (
         SYSCALL_EXIT_CHECK (mr_log_info L ''Mapper'' ''Controller'' ''Mapper process finished'') skip
           (return_io EXIT_SUCCESS))))))) e'' s'' Q)"
    if e': "evolve e0 e'" for e' q and tm ta :: "byte list"
    by (rule ok_mono, rule phase [unfolded mapper_phase_ok_def, rule_format, OF e'])
       (use bad in \<open>auto simp: mr_main_receiver_destroy_def mr_queue_destroy_def ok_simps intro!: last split: option.splits\<close>)
  show ?thesis
    unfolding mapper_process_main_def
    apply (rule log_info_check_ok [OF ev log])
     apply (unfold ok_SYSCALL_RET ok_bind Let_def)
     apply (erule mr_queue_init_ok [OF _ qs]; simp add: ok_simps split del: if_split)
      apply (erule call_ok; simp add: ok_simps split del: if_split)
       apply (erule c_malloc_ok; erule c_malloc_ok; simp add: ok_simps split del: if_split)
          apply (erule create_threads_ok; simp add: ok_simps split del: if_split)
           apply (erule phased)
          apply (auto simp: ok_simps mr_queue_destroy_def bad intro!: logged)
    done
qed

section \<open>The threads keep the contract\<close>

lemma sum_list_mset: "mset xs = mset ys \<Longrightarrow> sum_list (map f xs) = sum_list (map f ys)" for f :: "'a \<Rightarrow> int"
  by (metis mset_map sum_mset_sum_list)

lemma length_numbered [simp]: "length (numbered name n ls) = length ls"
  by (induction ls arbitrary: n) simp_all

lemma lines_of_file: "length ls \<le> length (file_body pad ls)"
  by (induction ls) (simp_all add: file_body_def line_bytes_def)

lemma lines_of_stream: "length (all_lines None fs) \<le> length (files_bytes pad fs)"
proof (induction fs)
  case (Cons f fs)
  have "length (snd f) \<le> length (file_bytes pad f)" using lines_of_file [of "snd f" pad] by (simp add: file_bytes_def)
  with Cons show ?case by (cases f) (simp add: files_bytes_def)
qed simp

lemma lines_blocks: "sum_list (map line_blocks (take k (lines_of_reading cur fs))) = 2 * int (length (take k (all_lines cur fs)))"
proof -
  have "sum_list (map line_blocks (map (\<lambda>(name, i, l). line_struct name i l) xs)) = 2 * int (length xs)" for xs
    by (induction xs) (auto simp: line_struct_def)
  then show ?thesis by (simp only: take_map)
qed

text \<open>The standard output after a finished pool of mapper threads.\<close>

definition mapped :: "(mr_file_line_t \<Rightarrow> pair_msg script) \<Rightarrow> mr_file_line_t list \<Rightarrow> (int \<Rightarrow> byte list) \<Rightarrow> (int \<Rightarrow> byte list) \<Rightarrow> bool" where
  "mapped mapper lines w w' \<longleftrightarrow>
     (\<exists>xs. mset xs = mset (all_pairs mapper lines) \<and> w' = w(STDOUT_FILENO := w STDOUT_FILENO @ pairs_bytes xs))"

lemma mapper_threads_ok:
  assumes log: "log_ready L e0" and stream: "rds s STDIN_FILENO = files_bytes pad fs" and small: "\<forall>f \<in> set fs. small_file f"
    and runs: "\<And>k. mapper_phase mapper (take k (lines_of_reading None fs)) (runs (take k (lines_of_reading None fs)))"
  shows "mapper_phase_ok e0 s (mapper_threads L runs) (mapped mapper (lines_of_reading None fs) (wrs s))"
  unfolding mapper_phase_ok_def
proof (intro allI impI)
  fix e q assume ev: "evolve e0 e"
  let ?s = "s\<lparr>live := 3 + live s\<rparr>" and ?lines = "lines_of_reading None fs"
  have freed: "sum_list (map (\<lambda>d. line_blocks (load d)) (finished p)) = 2 * int (length (take k (all_lines None fs)))"
    if "runs (take k ?lines) = (load, p)" for k load p
  proof -
    have "mset (map load (finished p)) = mset (take k ?lines)" using runs [of k] unfolding that by (rule mapper_phase_pairs)
    from sum_list_mset [OF this, of line_blocks] show ?thesis by (simp only: map_map comp_def lines_blocks)
  qed
  let ?R = "\<lambda>(early, receiver, res) e' s'. evolve e0 e' \<and>
      (early = None \<and> res = 1 \<and> live s' = live s + 3 + name_blocks receiver \<and> mapped mapper ?lines (wrs s) (wrs s') \<or>
       (early = None \<and> res = -1 \<or> early = Some EXIT_FAILURE) \<and> faulty e0 \<and>
       live s + 3 + name_blocks receiver \<le> live s' \<and> live s' \<le> live s + 4 + name_blocks receiver)"
  let ?Q = "\<lambda>x e' s'. ok (case x of (lines, receiver, res) \<Rightarrow> let (load, p) = runs lines in
      seq_io (put_st (\<lambda>s. (add_wr STDOUT_FILENO (out p) s)
        \<lparr>live := live s - sum_list (map (\<lambda>d. line_blocks (load d)) (finished p))\<rparr>)) (
      return_io (None, receiver, res))) e' s' ?R"
  have pool: "?Q (take k ?lines, receiver, res) e' s'"
    if "?R (None, receiver, res) e' ((add_wr STDOUT_FILENO (out (snd (runs (take k ?lines)))) s')
      \<lparr>live := live s' - 2 * int (length (take k (all_lines None fs)))\<rparr>)" for k receiver res e' s'
    using that freed [of k] by (cases "runs (take k ?lines)") (simp add: ok_simps)
  show "ok (mapper_threads L runs q) e ?s ?R"
    unfolding mapper_threads_def ok_bind ok_get_st
  proof (rule receive_lines_ok [OF ev log, where cur = None and fs = fs and pad = pad and Q = ?Q])
    show "length (all_lines None fs) < Suc (length (rds ?s STDIN_FILENO))"
      using lines_of_stream [of fs pad] stream by simp
  next
    fix e' and r' :: mr_main_receiver_t
    assume e': "evolve e0 e'" and r': "current_file_name r' = None"
    let ?k = "length ?lines"
    have whole: "take ?k ?lines = ?lines" "take ?k (all_lines None fs) = all_lines None fs" by simp_all
    obtain load p where p: "runs ?lines = (load, p)" by (cases "runs ?lines")
    have "mapper_phase mapper ?lines (load, p)" using runs [of ?k] unfolding whole p .
    from mapper_phase_pairs(1,2) [OF this]
    have "mapped mapper ?lines (wrs s) ((wrs s)(STDOUT_FILENO := wrs s STDOUT_FILENO @ out p))"
      unfolding mapped_def by (intro exI [of _ "map msg_pair (sent p)"]) (simp del: mset_map)
    then show "?Q (?lines, r', 1) e' ((put_rd STDIN_FILENO [] ?s)
        \<lparr>live := live ?s - name_blocks mr_main_receiver_init + 2 * int (length (all_lines None fs))\<rparr>)"
      by (intro pool [of r' 1 e' _ ?k, unfolded whole p]) (simp add: e' r' mr_main_receiver_init_def)
  next
    fix e' bs k d and r' :: mr_main_receiver_t
    assume e': "evolve e0 e'" "faulty e0" and d: "at_most_one_lost mr_main_receiver_init r' d"
    show "?Q (take k ?lines, r', -1) e' ((put_rd STDIN_FILENO bs ?s)
        \<lparr>live := live ?s + d + 2 * int (length (take k (all_lines None fs)))\<rparr>)"
      by (rule pool) (use e' d in \<open>auto simp: at_most_one_lost_def mr_main_receiver_init_def\<close>)
  qed (use stream small in \<open>simp_all add: mr_main_receiver_init_def\<close>)
qed

section \<open>The reducer\<close>

text \<open>\<open>runs\<close> gives the run of the pool for the nodes of the table.\<close>

definition reducer_threads ::
    "(hash_table \<Rightarrow> (byte list \<Rightarrow> token_node_t) \<times> result_msg pool) \<Rightarrow> mr_queue_t \<Rightarrow> hash_table \<Rightarrow> ('s, phase_end) proc" where
  "reducer_threads runs q hash_table =
     (let (load, p) = runs hash_table in
     seq_io (put_st (\<lambda>s. (add_wr STDOUT_FILENO (out p) s)
       \<lparr>live := live s - sum_list (map (\<lambda>d. node_blocks (load d)) (finished p))\<rparr>)) (
     return_io All_joined))"

text \<open>
  The contract of the phase: the workers free the nodes they were given, which are all or, after a
  failed push that stored nothing, those before it; on an early return some may be left.
\<close>

definition reducer_phase_ok ::
    "env \<Rightarrow> 's state_scheme \<Rightarrow> (byte list \<times> byte list) list \<Rightarrow> (mr_queue_t \<Rightarrow> hash_table \<Rightarrow> ('s, phase_end) proc)
      \<Rightarrow> (hash_table \<Rightarrow> (int \<Rightarrow> byte list) \<Rightarrow> bool) \<Rightarrow> bool" where
  "reducer_phase_ok e0 s xs phase W \<longleftrightarrow> (\<forall>e q tbl. evolve e0 e \<longrightarrow> groups tbl xs \<longrightarrow>
     ok (phase q tbl) e ((put_rd STDIN_FILENO [] s)\<lparr>live := 3 + (live s + table_blocks tbl)\<rparr>) (\<lambda>r e' s'. evolve e0 e' \<and>
     (case r of
        All_joined \<Rightarrow> live s' = live s + 3 \<and> W tbl (wrs s')
      | Push_failed i j \<Rightarrow> faulty e0 \<and> i < length tbl \<and> j < length (tbl ! i) \<and>
          live s' = live s + 3 + table_blocks tbl - pushed_blocks tbl i j
      | Early_return code \<Rightarrow> faulty e0 \<and> code = EXIT_FAILURE \<and> live s + 3 \<le> live s' \<and> live s' \<le> live s + 3 + table_blocks tbl)))"

lemma reducer_process_main_ok:
  assumes ev: "evolve e0 e" and log: "log_ready L e0" and qs: "0 < queue_size" and phase: "reducer_phase_ok e0 s xs phase W"
    and stream: "rds s STDIN_FILENO = pairs_bytes xs" and xs: "\<forall>x \<in> set xs. collectable x" "length xs < VALUE_LIMIT"
    and good: "\<And>e' s' tbl. evolve e0 e' \<Longrightarrow> live s' = live s \<Longrightarrow> groups tbl xs \<Longrightarrow> W tbl (wrs s') \<Longrightarrow> Q EXIT_SUCCESS e' s'"
    and bad: "\<And>e' s'. evolve e0 e' \<Longrightarrow> faulty e0 \<Longrightarrow> live s \<le> live s' \<Longrightarrow> Q EXIT_FAILURE e' s'"
  shows "ok (reducer_process_main L n queue_size phase) e s Q"
proof -
  note logged = log_error_ok [OF _ log]
  have fin: "ok (SYSCALL_EXIT_CHECK (mr_log_info L ''Reducer'' ''Controller'' ''Reducer process finished'') skip
        (return_io EXIT_SUCCESS)) e' s' Q" if "evolve e0 e'" "live s' = live s" "groups tbl xs" "W tbl (wrs s')" for e' s' tbl
    using good bad that by (auto simp: ok_simps intro!: log_info_check_ok [OF that(1) log])
  have phased: "ok (phase q tbl) e' ((put_rd STDIN_FILENO [] s)\<lparr>live := 3 + (live s + table_blocks tbl)\<rparr>) (\<lambda>x e'' s''. ok (case x of
       Early_return code \<Rightarrow> return_io code
     | Push_failed i j \<Rightarrow>
         seq_io (push_error_cleanup tbl i j) (
         seq_io (c_free (Some tm)) (seq_io (c_free (Some ta)) (
         seq_io (mr_queue_destroy q) (return_io EXIT_FAILURE))))
     | All_joined \<Rightarrow>
         seq_io (mr_queue_destroy q) (
         seq_io (c_free (Some tm)) (seq_io (c_free (Some ta)) (
         SYSCALL_EXIT_CHECK (mr_log_info L ''Reducer'' ''Controller'' ''Reducer process finished'') skip
           (return_io EXIT_SUCCESS))))) e'' s'' Q)"
    if e': "evolve e0 e'" and t: "groups tbl xs"
    for e' q tbl and tm ta :: "byte list"
  proof -
    have "table_ok tbl" using t by (simp add: groups_def)
    then show ?thesis
      by (intro ok_mono [OF phase [unfolded reducer_phase_ok_def, rule_format, OF e' t]])
         (use bad in \<open>auto simp: mr_queue_destroy_def ok_simps push_error_cleanup_ok intro!: fin [OF _ _ t] split: phase_end.splits\<close>)
  qed
  show ?thesis
    unfolding reducer_process_main_def reducer_process_end_def
    apply (rule log_info_check_ok [OF ev log])
     apply (unfold ok_bind, rule collect_phase_ok [OF _ log stream xs], assumption)
      apply (simp only: sum.case prod.case, unfold ok_SYSCALL_RET ok_bind Let_def)
      apply (erule mr_queue_init_ok [OF _ qs]; simp add: ok_simps split del: if_split)
       apply (erule call_ok; simp add: ok_simps split del: if_split)
        apply (erule c_malloc_ok; erule c_malloc_ok; simp add: ok_simps split del: if_split)
           apply (erule create_threads_ok; simp add: ok_simps split del: if_split)
            apply (erule (1) phased)
           apply (auto simp: ok_simps mr_queue_destroy_def ok_cleanup_hash_table groups_def bad intro!: logged)
    done
qed

text \<open>The standard output after a finished pool of reducer threads.\<close>

definition reduced ::
    "user_reducer \<Rightarrow> hash_table \<Rightarrow> (int \<Rightarrow> byte list) \<Rightarrow> (int \<Rightarrow> byte list) \<Rightarrow> bool" where
  "reduced reducer tbl w w' \<longleftrightarrow> (\<exists>ms. mset ms = mset (concat (map (\<lambda>node. msgs (reduce_node reducer node)) (concat tbl))) \<and>
     w' = w(STDOUT_FILENO := w STDOUT_FILENO @ concat (map result_msg_bytes ms)))"

lemma reducer_threads_ok:
  assumes "\<And>tbl. groups tbl xs \<Longrightarrow> reducer_phase reducer tbl (runs tbl)"
  shows "reducer_phase_ok e0 s xs (reducer_threads runs) (\<lambda>tbl. reduced reducer tbl (wrs s))"
  unfolding reducer_phase_ok_def
proof (intro allI impI)
  fix e q tbl assume ev: "evolve e0 e" and tbl: "groups tbl xs"
  obtain load p where p: "runs tbl = (load, p)" by (cases "runs tbl")
  note out = reducer_phase_results [OF assms [OF tbl, unfolded p]]
  have "sum_list (map (\<lambda>d. node_blocks (load d)) (finished p)) = sum_list (map node_blocks (concat tbl))"
    using sum_list_mset [OF out(3), of node_blocks] by (simp add: comp_def)
  then have freed: "sum_list (map (\<lambda>d. node_blocks (load d)) (finished p)) = table_blocks tbl"
    using bucket_blocks_concat [of tbl] by (simp add: bucket_blocks_def)
  have written: "reduced reducer tbl (wrs s) ((wrs s)(STDOUT_FILENO := wrs s STDOUT_FILENO @ out p))"
    unfolding reduced_def out(1) using out(2) by blast
  show "ok (reducer_threads runs q tbl) e ((put_rd STDIN_FILENO [] s)\<lparr>live := 3 + (live s + table_blocks tbl)\<rparr>) (\<lambda>r e' s'. evolve e0 e' \<and>
     (case r of
        All_joined \<Rightarrow> live s' = live s + 3 \<and> reduced reducer tbl (wrs s) (wrs s')
      | Push_failed i j \<Rightarrow> faulty e0 \<and> i < length tbl \<and> j < length (tbl ! i) \<and>
          live s' = live s + 3 + table_blocks tbl - pushed_blocks tbl i j
      | Early_return code \<Rightarrow> faulty e0 \<and> code = EXIT_FAILURE \<and> live s + 3 \<le> live s' \<and> live s' \<le> live s + 3 + table_blocks tbl))"
    using ev written by (simp add: reducer_threads_def p ok_simps freed)
qed

text \<open>Finished pools exist for all lines and tables of a size that a process can hold.\<close>

lemma mapper_runs_exist:
  assumes "length lines < SSIZE_LIMIT" and "\<And>ln. result (mapper ln) \<noteq> -1"
  obtains runs where "\<forall>k. mapper_phase mapper (take k lines) (runs (take k lines))"
proof
  show "\<forall>k. mapper_phase mapper (take k lines) (SOME r. mapper_phase mapper (take k lines) r)"
  proof (rule allI, rule someI_ex, rule mapper_phase_exists)
    show "length (take k lines) < SSIZE_LIMIT" for k using assms(1) by simp
  qed (rule assms(2))
qed

lemma reducer_runs_exist:
  obtains runs where "\<forall>tbl. length (concat tbl) < SSIZE_LIMIT \<longrightarrow> reducer_phase reducer tbl (runs tbl)"
proof
  show "\<forall>tbl. length (concat tbl) < SSIZE_LIMIT \<longrightarrow> reducer_phase reducer tbl (SOME r. reducer_phase reducer tbl r)"
    by (intro allI impI, rule someI_ex, rule reducer_phase_exists)
qed

lemma ok_valueD: "ok m e s Q \<Longrightarrow> m (e, s) = (Inr r, (e', s')) \<Longrightarrow> Q r e' s'"
  by (simp add: ok_result)

lemma ok_valueE:
  assumes "ok m e s Q"
  obtains r e' s' where "m (e, s) = (Inr r, (e', s'))" and "Q r e' s'"
  using assms by (cases "m (e, s)") (auto simp: ok_def split: sum.splits)

section \<open>Properties\<close>

lemma mapper_process_ok:
  assumes "log_ready L e" and "0 < queue_size" and "rds s STDIN_FILENO = files_bytes pad fs" and "\<forall>f \<in> set fs. small_file f"
    and "\<And>k. mapper_phase mapper (take k (lines_of_reading None fs)) (runs (take k (lines_of_reading None fs)))"
  shows "ok (mapper_process_main L n queue_size (mapper_threads L runs)) e s (\<lambda>r e' s'.
    r = EXIT_SUCCESS \<and> live s' = live s \<and> mapped mapper (lines_of_reading None fs) (wrs s) (wrs s') \<or>
    r = EXIT_FAILURE \<and> faulty e \<and> live s \<le> live s' \<and> live s' \<le> live s + 5)"
  by (rule mapper_process_main_ok [OF evolve_refl assms(1,2) mapper_threads_ok [OF assms(1,3,4,5)]]) auto

lemma reducer_process_ok:
  assumes "log_ready L e" and "0 < queue_size" and "rds s STDIN_FILENO = pairs_bytes xs" and "\<forall>x \<in> set xs. collectable x"
    and "length xs < VALUE_LIMIT" and "\<And>tbl. groups tbl xs \<Longrightarrow> reducer_phase reducer tbl (runs tbl)"
  shows "ok (reducer_process_main L n queue_size (reducer_threads runs)) e s (\<lambda>r e' s'.
    r = EXIT_SUCCESS \<and> live s' = live s \<and> (\<exists>tbl. grouped xs tbl \<and> reduced reducer tbl (wrs s) (wrs s')) \<or>
    r = EXIT_FAILURE \<and> faulty e \<and> live s \<le> live s')"
  by (rule reducer_process_main_ok [OF evolve_refl assms(1,2) reducer_threads_ok [where xs = xs, OF assms(6)] assms(3-5)])
     (auto dest: groups_grouped)



text \<open>
  The contracts for any phase: 0 only with every block freed, 1 only after a failed call. What is
  left then are the blocks of an early \<open>return\<close> after a failed close or join.
\<close>

theorem mapper_process_main_releases:
  assumes "log_ready L e" and "0 < queue_size" and "mapper_phase_ok e s phase W"
  shows "ok (mapper_process_main L mapper_threads_count queue_size phase) e s (\<lambda>r e' s'.
    r = EXIT_SUCCESS \<and> live s' = live s \<or>
    r = EXIT_FAILURE \<and> faulty e \<and> live s \<le> live s' \<and> live s' \<le> live s + 5)"
  by (rule mapper_process_main_ok [OF evolve_refl assms]) auto

theorem reducer_process_main_releases:
  assumes "log_ready L e" and "0 < queue_size" and "reducer_phase_ok e s xs phase W"
    and "rds s STDIN_FILENO = pairs_bytes xs" and "\<forall>x \<in> set xs. collectable x" and "length xs < VALUE_LIMIT"
  shows "ok (reducer_process_main L reducer_threads_count queue_size phase) e s (\<lambda>r e' s'.
    r = EXIT_SUCCESS \<and> live s' = live s \<or> r = EXIT_FAILURE \<and> faulty e \<and> live s \<le> live s')"
  by (rule reducer_process_main_ok [OF evolve_refl assms]) auto

text \<open>
  Witnesses: a mapper that emits (h, 1) for its line, a reducer that emits the number of the values of
  a token; one line, and two pairs with one token.
\<close>

definition example_pair_script :: "mr_file_line_t \<Rightarrow> pair_msg script" where
  "example_pair_script ln = Emit ([104, 0], Some [1], 1) Return"

definition example_count_script :: user_reducer where
  "example_count_script token vals values_count = Emit (token, Some (enc_size values_count), 8) Return"



end
