(* ===== verification/Mr_Input.thy ===== *)
theory Mr_Input
  imports Mr_Lines "HOL-Library.List_Lexorder"
begin

text \<open>
  The sender of the main process: \<open>send_input_to_mapper\<close> of \<open>src/protocol.c\<close> with
  \<open>is_directory\<close>, \<open>send_file_to_mapper\<close> and \<open>send_files_in_directory_to_mapper\<close>. It writes the
  stream that \<open>Mr_Lines\<close> reads: for every regular file its name, its lines and an end mark.
\<close>

section \<open>Files and directories\<close>

text \<open>\<open>stat\<close>: what the path names, \<open>None\<close> for -1.\<close>

definition c_stat :: "path \<Rightarrow> ('s, node option) proc" where
  "c_stat p = bind_io ask (\<lambda>a. if a = Fault then return_io None else get_st (\<lambda>s. files s p))"

text \<open>
  A \<open>FILE\<close> open for reading: the lines \<open>getline\<close> has still to return, each with its newline
  if it has one. A directory can be opened, and reading from it fails.
\<close>

record read_stream =
  remaining :: "byte list list"
  readable :: bool
  stream_error :: bool

abbreviation NEWLINE :: byte where "NEWLINE \<equiv> 10"

fun raw_lines :: "byte list \<Rightarrow> byte list list" where
  "raw_lines [] = []"
| "raw_lines (c # cs) =
     (if c = NEWLINE then [c] # raw_lines cs
      else case raw_lines cs of [] \<Rightarrow> [[c]] | l # ls \<Rightarrow> (c # l) # ls)"

definition c_fopen_read :: "path \<Rightarrow> ('s, read_stream option) proc" where
  "c_fopen_read p =
     bind_io ask (\<lambda>a.
     bind_io (get_st (\<lambda>s. files s p)) (\<lambda>nd.
     if a = Fault \<or> nd = None then return_io None else
     seq_io (put_st (\<lambda>s. s\<lparr>handles := handles s + 1\<rparr>)) (return_io (Some
       (case the nd of
          Reg content \<Rightarrow> \<lparr>remaining = raw_lines content, readable = True, stream_error = False\<rparr>
        | Dir _ \<Rightarrow> \<lparr>remaining = [], readable = False, stream_error = False\<rparr>)))))"

definition c_fclose :: "('s, int) proc" where
  "c_fclose = seq_io (put_st (\<lambda>s. s\<lparr>handles := handles s - 1\<rparr>)) (call 0 (-1))"

text \<open>
  \<open>getline\<close>: the line, or \<open>None\<close> for -1; then \<open>ferror\<close> tells an error from the end of the
  file. The buffer is allocated by the first call that does not fail.
\<close>

definition c_getline ::
    "read_stream \<Rightarrow> unit option \<Rightarrow> ('s, byte list option \<times> read_stream \<times> unit option) proc" where
  "c_getline f buffer =
     bind_io ask (\<lambda>a.
     if a = Fault \<or> \<not> readable f then return_io (None, f\<lparr>stream_error := True\<rparr>, buffer) else
     seq_io (if buffer = None then put_st (\<lambda>s. s\<lparr>live := live s + 1\<rparr>) else skip)
       (return_io (case remaining f of
          [] \<Rightarrow> (None, f, Some ())
        | l # ls \<Rightarrow> (Some l, f\<lparr>remaining := ls\<rparr>, Some ()))))"

text \<open>
  \<open>scandir\<close> with \<open>alphasort\<close>: every entry, \<open>.\<close> and \<open>..\<close> included, in the byte order of the C
  locale. It allocates one block for each entry and one for the list.
\<close>

abbreviation DOT :: path where "DOT \<equiv> [46]"
abbreviation DOTDOT :: path where "DOTDOT \<equiv> [46, 46]"

definition entries_of :: "path list \<Rightarrow> path list" where
  "entries_of names = sort (DOT # DOTDOT # names)"

definition c_scandir :: "path \<Rightarrow> ('s, path list option) proc" where
  "c_scandir p =
     bind_io ask (\<lambda>a.
     bind_io (get_st (\<lambda>s. files s p)) (\<lambda>nd.
     case nd of
       Some (Dir names) \<Rightarrow>
         if a = Fault then return_io None
         else seq_io (put_st (\<lambda>s. s\<lparr>live := live s + (int (length (entries_of names)) + 1)\<rparr>))
                (return_io (Some (entries_of names)))
     | _ \<Rightarrow> return_io None))"

section \<open>The functions of protocol.c\<close>

definition is_directory :: "mr_log_file_t \<Rightarrow> path \<Rightarrow> ('s, int) proc" where
  "is_directory log_file p =
     SYSCALL_RET (-1) (\<lambda>st. if st = None then -1 else 0) (c_stat p)
       (mr_log_error log_file ''Main'' ''Main'' ''Failed to stat path %s'')
       (\<lambda>st. return_io (case the st of Dir _ \<Rightarrow> 1 | Reg _ \<Rightarrow> 0))"

text \<open>The code of \<open>send_file_to_mapper\<close> after its loop.\<close>

definition send_file_end ::
    "mr_log_file_t \<Rightarrow> int \<Rightarrow> byte list \<Rightarrow> read_stream \<Rightarrow> unit option \<Rightarrow> ('s, int) proc" where
  "send_file_end log_file write_fd pad file buffer =
     seq_io (c_free buffer) (
     if stream_error file then
       seq_io (mr_log_error log_file ''Main'' ''Main'' ''Error occurred while reading file %s'')
         (seq_io c_fclose (return_io (-1)))
     else
     let eof_header = \<lparr>eof = True, line_length = 0\<rparr> in
     SYSCALL_RET_CHECK (-1)
       (write_n write_fd (enc_line_header pad eof_header) sizeof_line_header)
       (seq_io (mr_log_error log_file ''Main'' ''Main'' ''Failed to send eof for file %s'') c_fclose) (
     bind_io c_fclose (\<lambda>closed.
     if closed = -1 then
       seq_io (mr_log_error log_file ''Main'' ''Main'' ''Failed to close file %s'') (return_io (-1))
     else
     SYSCALL_RET_CHECK (-1)
       (mr_log_info log_file ''Main'' ''Main'' ''Finished sending file %s to mapper'') skip (
     return_io 0))))"

text \<open>The loop over \<open>getline\<close>; every round but the last consumes a line.\<close>

primrec send_lines ::
    "nat \<Rightarrow> mr_log_file_t \<Rightarrow> int \<Rightarrow> byte list \<Rightarrow> read_stream \<Rightarrow> unit option \<Rightarrow> ('s, int) proc" where
  "send_lines 0 log_file write_fd pad file buffer = stop_io Out_Of_Fuel"
| "send_lines (Suc fuel) log_file write_fd pad file buffer =
     bind_io (c_getline file buffer) (\<lambda>(got, file, buffer).
     case got of
       None \<Rightarrow> send_file_end log_file write_fd pad file buffer
     | Some content \<Rightarrow>
     let read_bytes = length content;
         line_len = (if content ! (read_bytes - 1) = NEWLINE then read_bytes - 1 else read_bytes);
         line_header = \<lparr>eof = False, line_length = word_of_nat line_len\<rparr>;
         again = send_lines fuel log_file write_fd pad file buffer in
     SYSCALL_RET_CHECK (-1)
       (write_n write_fd (enc_line_header pad line_header) sizeof_line_header)
       (seq_io (mr_log_error log_file ''Main'' ''Main'' ''Failed to send line header for file %s'')
          (seq_io (c_free buffer) c_fclose)) (
     if 0 < line_len then
       SYSCALL_RET_CHECK (-1) (write_n write_fd content line_len)
         (seq_io (mr_log_error log_file ''Main'' ''Main'' ''Failed to send line data for file %s'')
            (seq_io (c_free buffer) c_fclose))
         again
     else again))"

definition send_file_to_mapper :: "mr_log_file_t \<Rightarrow> int \<Rightarrow> path \<Rightarrow> ('s, int) proc" where
  "send_file_to_mapper log_file write_fd file_path =
     seq_io (assert_c (0 \<le> write_fd)) (
     SYSCALL_RET_CHECK (-1)
       (mr_log_info log_file ''Main'' ''Main'' ''Sending file %s to mapper'') skip (
     bind_io (c_fopen_read file_path) (\<lambda>file.
     if file = None then
       seq_io (mr_log_error log_file ''Main'' ''Main'' ''Failed to open file %s'') (return_io (-1))
     else
     let file_path_len = length file_path;
         file_name_header = \<lparr>file_name_length = word_of_nat file_path_len\<rparr> in
     SYSCALL_RET_CHECK (-1)
       (write_n write_fd (enc_file_name_header file_name_header) sizeof_file_name_header)
       (seq_io (mr_log_error log_file ''Main'' ''Main'' ''Failed to send file name header for file %s'')
          c_fclose) (
     SYSCALL_RET_CHECK (-1) (write_n write_fd file_path file_path_len)
       (seq_io (mr_log_error log_file ''Main'' ''Main'' ''Failed to send file name string for file %s'')
          c_fclose) (
     bind_io (get_env (\<lambda>e. fresh_block e 7)) (\<lambda>pad.
     send_lines (Suc (length (remaining (the file)))) log_file write_fd pad (the file) None))))))"

text \<open>\<open>snprintf\<close> into \<open>full_path\<close>: the part that fits before the NUL.\<close>

abbreviation PATH_MAX :: nat where "PATH_MAX \<equiv> 4096"
abbreviation SLASH :: byte where "SLASH \<equiv> 47"

definition full_path :: "path \<Rightarrow> path \<Rightarrow> path" where
  "full_path dir_path d_name = take (PATH_MAX - 1) (dir_path @ SLASH # d_name)"

text \<open>The loops that free the entries from some index on.\<close>

primrec free_entries :: "nat \<Rightarrow> ('s, unit) proc" where
  "free_entries 0 = skip"
| "free_entries (Suc n) = seq_io (c_free (Some ())) (free_entries n)"

text \<open>The loop over \<open>namelist[i]\<close>, \<open>namelist[i + 1]\<close>, ... and the code after it.\<close>

primrec send_entries :: "mr_log_file_t \<Rightarrow> int \<Rightarrow> path \<Rightarrow> path list \<Rightarrow> ('s, int) proc" where
  "send_entries log_file write_fd dir_path [] =
     seq_io (c_free (Some ())) (
     SYSCALL_RET_CHECK (-1)
       (mr_log_info log_file ''Main'' ''Main'' ''Finished sending files in directory %s to mapper'')
       skip (return_io 0))"
| "send_entries log_file write_fd dir_path (d # ds) =
     (let again = send_entries log_file write_fd dir_path ds;
          path = full_path dir_path d;
          free_all = seq_io (free_entries (Suc (length ds))) (c_free (Some ())) in
     if d = DOT \<or> d = DOTDOT then seq_io (c_free (Some ())) again else
     SYSCALL_RET (-1) id (is_directory log_file path)
       (seq_io (mr_log_error log_file ''Main'' ''Main''
          ''Failed to determine if entry %s is a directory'') free_all) (\<lambda>is_dir.
     if is_dir = 1 then
       seq_io (mr_log_warning log_file ''Main'' ''Main''
         ''Skipping directory %s in input directory %s'')
         (seq_io (c_free (Some ())) again)
     else
     SYSCALL_RET_CHECK (-1) (send_file_to_mapper log_file write_fd path)
       (seq_io (mr_log_error log_file ''Main'' ''Main''
          ''Failed to send file %s in directory %s to mapper'') free_all) (
     seq_io (c_free (Some ())) again)))"

definition send_files_in_directory_to_mapper :: "mr_log_file_t \<Rightarrow> int \<Rightarrow> path \<Rightarrow> ('s, int) proc" where
  "send_files_in_directory_to_mapper log_file write_fd dir_path =
     SYSCALL_RET_CHECK (-1) (mr_log_info log_file ''Main'' ''Main''
       ''Scanning directory %s for files to send to mapper'') skip (
     bind_io (c_scandir dir_path) (\<lambda>namelist.
     if namelist = None then
       seq_io (mr_log_error log_file ''Main'' ''Main'' ''Failed to scan directory %s'') (return_io (-1))
     else
     SYSCALL_RET_CHECK (-1)
       (mr_log_info log_file ''Main'' ''Main'' ''Found %d entries in directory %s'')
       (seq_io (free_entries (length (the namelist))) (c_free (Some ()))) (
     send_entries log_file write_fd dir_path (the namelist))))"

definition send_input_to_mapper :: "mr_log_file_t \<Rightarrow> int \<Rightarrow> path \<Rightarrow> ('s, int) proc" where
  "send_input_to_mapper log_file write_fd input_path =
     seq_io (assert_c (0 \<le> write_fd)) (
     SYSCALL_RET (-1) id (is_directory log_file input_path) skip (\<lambda>is_dir.
     SYSCALL_RET_CHECK (-1) (mr_log_info log_file ''Main'' ''Main'' ''Input path %s is a %s'') skip (
     let finish = SYSCALL_RET_CHECK (-1) (mr_log_info log_file ''Main'' ''Main''
           ''Finished sending input from path %s to mapper'') skip (return_io 0) in
     if is_dir = 0 then
       SYSCALL_RET_CHECK (-1) (send_file_to_mapper log_file write_fd input_path) skip finish
     else
       SYSCALL_RET_CHECK (-1) (send_files_in_directory_to_mapper log_file write_fd input_path) skip
         finish)))"

section \<open>What the stream carries\<close>

definition strip_newline :: "byte list \<Rightarrow> byte list" where
  "strip_newline l = (if l \<noteq> [] \<and> last l = NEWLINE then butlast l else l)"

definition lines_of :: "byte list \<Rightarrow> byte list list" where
  "lines_of content = map strip_newline (raw_lines content)"

definition entry_file :: "(path \<Rightarrow> node option) \<Rightarrow> path \<Rightarrow> (path \<times> byte list list) list" where
  "entry_file fls p = (case fls p of Some (Reg content) \<Rightarrow> [(p, lines_of content)] | _ \<Rightarrow> [])"

definition dir_files ::
    "(path \<Rightarrow> node option) \<Rightarrow> path \<Rightarrow> path list \<Rightarrow> (path \<times> byte list list) list" where
  "dir_files fls dir ds =
     concat (map (\<lambda>d. if d = DOT \<or> d = DOTDOT then [] else entry_file fls (dir @ SLASH # d)) ds)"

text \<open>The files an input path stands for: the file itself, or the regular files of a directory.\<close>

definition input_files :: "(path \<Rightarrow> node option) \<Rightarrow> path \<Rightarrow> (path \<times> byte list list) list" where
  "input_files fls p =
     (case fls p of Some (Dir names) \<Rightarrow> dir_files fls p (entries_of names) | _ \<Rightarrow> entry_file fls p)"

lemma concat_raw_lines [simp]: "concat (raw_lines c) = c"
  by (induction c) (auto split: list.splits)

lemma raw_lines_nonempty: "l \<in> set (raw_lines c) \<Longrightarrow> l \<noteq> []"
  by (induction c arbitrary: l) (auto split: list.splits if_splits)

lemma raw_lines_short: "l \<in> set (raw_lines c) \<Longrightarrow> length l \<le> length c"
  using length_le_concat [of l "raw_lines c"] by simp

lemma raw_lines_line: "NEWLINE \<notin> set l \<Longrightarrow> raw_lines (l @ NEWLINE # r) = (l @ [NEWLINE]) # raw_lines r"
  by (induction l) auto

lemma raw_lines_last: "NEWLINE \<notin> set l \<Longrightarrow> l \<noteq> [] \<Longrightarrow> raw_lines l = [l]"
  by (induction l) (case_tac l; auto)+

text \<open>Lines are what lies between newlines; a last line without newline counts, an empty one does not.\<close>

lemma lines_of_simps [simp]:
  "lines_of [] = []"
  "NEWLINE \<notin> set l \<Longrightarrow> lines_of (l @ NEWLINE # r) = l # lines_of r"
  "NEWLINE \<notin> set l \<Longrightarrow> l \<noteq> [] \<Longrightarrow> lines_of l = [l]"
  by (auto simp: lines_of_def raw_lines_line raw_lines_last strip_newline_def dest: last_in_set)

section \<open>Sending a file\<close>

lemma ok_ask_st: "evolve e0 e \<Longrightarrow> (\<And>e' a. evolve e0 e' \<Longrightarrow> (a = Fault \<longrightarrow> faulty e0) \<Longrightarrow> Q a e' s) \<Longrightarrow> ok ask e s Q"
  by (rule ask_ok) auto

lemma c_fclose_ok:
  assumes "evolve e0 e"
    and "\<And>e'. evolve e0 e' \<Longrightarrow> Q 0 e' (s\<lparr>handles := handles s - 1\<rparr>)"
    and "\<And>e'. evolve e0 e' \<Longrightarrow> faulty e0 \<Longrightarrow> Q (-1) e' (s\<lparr>handles := handles s - 1\<rparr>)"
  shows "ok c_fclose e s Q"
  unfolding c_fclose_def by (simp add: ok_simps) (rule call_ok [OF assms(1)]; simp add: assms)

text \<open>The state in the middle of \<open>send_file_to_mapper\<close>: the file is open, perhaps a buffer is held.\<close>

abbreviation sending :: "unit option \<Rightarrow> 's state_scheme \<Rightarrow> 's state_scheme" where
  "sending buffer s \<equiv> s\<lparr>handles := handles s + 1, live := live s + blocks buffer\<rparr>"

text \<open>The way out after a failed call: log it, free the buffer, close the file.\<close>

lemma send_file_fail:
  assumes "evolve e0 e" and log: "log_ready L e0" and "\<And>e'. evolve e0 e' \<Longrightarrow> Q (-1) e' s"
  shows "ok (seq_io (mr_log_error L p t f) (seq_io (c_free buffer) c_fclose)) e (sending buffer s)
           (\<lambda>_. Q (-1))"
    and "ok (seq_io (mr_log_error L p t f) c_fclose) e (sending None s) (\<lambda>_. Q (-1))"
  using assms(3) by (auto simp: ok_simps intro!: log_error_ok [OF assms(1) log] c_fclose_ok)

lemma send_file_end_error:
  assumes ev: "evolve e0 e" and log: "log_ready L e0" and f: "stream_error f"
    and bad: "\<And>e'. evolve e0 e' \<Longrightarrow> Q (-1) e' s"
  shows "ok (send_file_end L fd pad f buffer) e (sending buffer s) Q"
  using f bad
  by (auto simp: send_file_end_def ok_simps ok_macros intro!: log_error_ok [OF ev log] c_fclose_ok)

lemma send_file_end_ok:
  assumes ev: "evolve e0 e" and log: "log_ready L e0" and fd: "0 \<le> fd"
    and f: "\<not> stream_error f"
    and good: "\<And>e'. evolve e0 e' \<Longrightarrow> Q 0 e' (add_wr fd (eof_bytes pad) s)"
    and bad: "\<And>e' k. evolve e0 e' \<Longrightarrow> faulty e0 \<Longrightarrow> k \<le> length (eof_bytes pad) \<Longrightarrow>
      Q (-1) e' (add_wr fd (take k (eof_bytes pad)) s)"
  shows "ok (send_file_end L fd pad f buffer) e (sending buffer s) Q"
proof -
  have len: "length (eof_bytes pad) = 16" by (simp add: eof_bytes_def)
  show ?thesis
    unfolding send_file_end_def Let_def
    apply (simp add: ok_simps f)
    apply (rule write_check_ok [OF ev fd]; (simp add: ok_simps ok_macros)?)
     apply (rule c_fclose_ok, assumption)
      apply (simp add: ok_simps ok_macros)
      apply (rule mr_log_ok [OF _ log], assumption)
    using good bad [of _ 16]
       apply (simp add: eof_bytes_def ok_simps)
    using bad [of _ 16]
      apply (simp add: eof_bytes_def ok_simps)
     apply (simp add: ok_simps)
     apply (rule log_error_ok [OF _ log], assumption)
    using bad [of _ 16]
     apply (simp add: eof_bytes_def ok_simps)
    using bad
    apply (auto simp: eof_bytes_def intro!: log_error_ok [OF _ log] c_fclose_ok)
    done
qed

lemma strip_newline_len:
  "content \<noteq> [] \<Longrightarrow>
   (if content ! (length content - 1) = NEWLINE then length content - 1 else length content) =
   length (strip_newline content)"
  by (simp add: strip_newline_def last_conv_nth)

lemma take_strip_newline [simp]: "take (length (strip_newline l)) l = strip_newline l"
  by (auto simp: strip_newline_def butlast_conv_take)

lemma length_strip_newline: "length (strip_newline l) \<le> length l"
  by (auto simp: strip_newline_def)

lemma c_getline_ok:
  assumes ev: "evolve e0 e" and f: "readable f" "\<not> stream_error f"
    and good: "\<And>e' l ls. evolve e0 e' \<Longrightarrow> remaining f = l # ls \<Longrightarrow>
      Q (Some l, f\<lparr>remaining := ls\<rparr>, Some ()) e' (sending (Some ()) s)"
    and fin: "\<And>e' f' buffer'. evolve e0 e' \<Longrightarrow> \<not> stream_error f' \<and> remaining f = [] \<or>
        stream_error f' \<and> faulty e0 \<Longrightarrow> Q (None, f', buffer') e' (sending buffer' s)"
  shows "ok (c_getline f buffer) e (sending buffer s) Q"
  unfolding c_getline_def ok_bind
proof (rule ask_ok [OF ev])
  fix e' a assume e': "evolve e0 e'" and "a \<noteq> Fault"
  let ?s = "sending (Some ()) s"
  have "Q (case remaining f of [] \<Rightarrow> (None, f, Some ()) | l # ls \<Rightarrow> (Some l, f\<lparr>remaining := ls\<rparr>, Some ())) e' ?s"
    using good [OF e'] fin [OF e', of f "Some ()"] f by (auto split: list.splits)
  then show "ok (if a = Fault \<or> \<not> readable f then return_io (None, f\<lparr>stream_error := True\<rparr>, buffer)
     else seq_io (if buffer = None then put_st (\<lambda>s. s\<lparr>live := live s + 1\<rparr>) else skip)
       (return_io (case remaining f of [] \<Rightarrow> (None, f, Some ())
        | l # ls \<Rightarrow> (Some l, f\<lparr>remaining := ls\<rparr>, Some ())))) e' (sending buffer s) Q"
    using f \<open>a \<noteq> Fault\<close> by (cases buffer) (auto simp: ok_simps)
next
  fix e' assume "evolve e0 e'" "faulty e0"
  then show "ok (if Fault = Fault \<or> \<not> readable f then return_io (None, f\<lparr>stream_error := True\<rparr>, buffer)
     else seq_io (if buffer = None then put_st (\<lambda>s. s\<lparr>live := live s + 1\<rparr>) else skip)
       (return_io (case remaining f of [] \<Rightarrow> (None, f, Some ())
        | l # ls \<Rightarrow> (Some l, f\<lparr>remaining := ls\<rparr>, Some ())))) e' (sending buffer s) Q"
    by (simp add: ok_simps fin)
qed

text \<open>Writing one line, the header and its bytes, and going on with \<open>again\<close>.\<close>

lemma send_line_ok:
  assumes ev: "evolve e0 e" and log: "log_ready L e0" and fd: "0 \<le> fd"
    and l: "n = length (strip_newline l)" "n < SSIZE_LIMIT"
    and msg: "msg = line_bytes pad (strip_newline l)"
    and good: "\<And>e'. evolve e0 e' \<Longrightarrow> ok again e' (sending buffer (add_wr fd msg s)) Q"
    and bad: "\<And>e' k. evolve e0 e' \<Longrightarrow> faulty e0 \<Longrightarrow> k \<le> length msg \<Longrightarrow>
      Q (-1) e' (add_wr fd (take k msg) s)"
  shows "ok (SYSCALL_RET_CHECK (-1)
       (write_n fd (enc_line_header pad \<lparr>eof = False, line_length = word_of_nat n\<rparr>) 16)
       (seq_io (mr_log_error L p1 t1 f1) (seq_io (c_free buffer) c_fclose)) (
     if 0 < n then
       SYSCALL_RET_CHECK (-1) (write_n fd l n)
         (seq_io (mr_log_error L p2 t2 f2) (seq_io (c_free buffer) c_fclose)) again
     else again)) e (sending buffer s) Q"
proof (rule write_check_ok [OF ev fd])
  let ?h = "enc_line_header pad \<lparr>eof = False, line_length = word_of_nat n\<rparr>"
  have msg': "msg = ?h @ strip_newline l" by (simp add: msg line_bytes_def l(1))
  show "ok (seq_io (mr_log_error L p1 t1 f1) (seq_io (c_free buffer) c_fclose)) e'
      (add_wr fd (take m ?h) (sending buffer s)) (\<lambda>_. Q (-1))"
    if "evolve e0 e'" and "faulty e0" and "m < 16" for e' m
    using send_file_fail(1) [OF that(1) log, of Q "add_wr fd (take m ?h) s"] bad [of _ m] that
    by (simp add: msg')
  fix e' assume e': "evolve e0 e'"
  show "ok (if 0 < n then SYSCALL_RET_CHECK (-1) (write_n fd l n)
         (seq_io (mr_log_error L p2 t2 f2) (seq_io (c_free buffer) c_fclose)) again
     else again) e' (add_wr fd (take 16 ?h) (sending buffer s)) Q"
  proof (rule write_check_if_ok [OF e' fd _ l(2)])
    show "ok again e'' (add_wr fd (take n l) (add_wr fd (take 16 ?h) (sending buffer s))) Q"
      if "evolve e0 e''" for e''
      using good [OF that] by (simp add: msg' l(1))
    show "ok (seq_io (mr_log_error L p2 t2 f2) (seq_io (c_free buffer) c_fclose)) e''
        (add_wr fd (take m l) (add_wr fd (take 16 ?h) (sending buffer s))) (\<lambda>_. Q (-1))"
      if "evolve e0 e''" and "faulty e0" and "m < n" for e'' m
      using send_file_fail(1) [OF that(1) log, of Q "add_wr fd (take (16 + m) msg) s"]
        bad [of _ "16 + m"] that take_take [of m n l]
      by (simp add: msg' l(1))
  qed (simp add: l(1) length_strip_newline)
qed simp_all

lemma send_lines_ok:
  assumes "evolve e0 e" and log: "log_ready L e0" and fd: "0 \<le> fd"
    and "readable f" "\<not> stream_error f"
    and "\<forall>l \<in> set (remaining f). l \<noteq> [] \<and> length l < SSIZE_LIMIT"
    and "msg = file_body pad (map strip_newline (remaining f))"
    and "\<And>e'. evolve e0 e' \<Longrightarrow> Q 0 e' (add_wr fd msg s)"
    and "\<And>e' k. evolve e0 e' \<Longrightarrow> faulty e0 \<Longrightarrow> k \<le> length msg \<Longrightarrow>
      Q (-1) e' (add_wr fd (take k msg) s)"
  shows "ok (send_lines (Suc (length (remaining f))) L fd pad f buffer) e (sending buffer s) Q"
  using assms
proof (induction "remaining f" arbitrary: f e s buffer msg)
  case Nil
  note prems = Nil.prems
  have msg: "msg = eof_bytes pad" using prems(7) Nil.hyps by (simp add: file_body_def)
  show ?case
    unfolding Nil.hyps [symmetric] list.size(3) send_lines.simps(2) [of 0] ok_bind
  proof (rule c_getline_ok [OF prems(1,4,5)])
    fix e' buffer' and f' :: read_stream
    assume e': "evolve e0 e'"
      and f': "\<not> stream_error f' \<and> remaining f = [] \<or> stream_error f' \<and> faulty e0"
    have "ok (send_file_end L fd pad f' buffer') e' (sending buffer' s) Q"
    proof (cases "stream_error f'")
      case True
      then show ?thesis using f' prems(9) [of _ 0] by (intro send_file_end_error [OF e' log]) auto
    next
      case False
      then show ?thesis
        by (rule send_file_end_ok [OF e' log fd]) (use prems(8,9) msg in \<open>simp_all only:\<close>)
    qed
    then show "ok (case (None, f', buffer') of (got, file, buffer) \<Rightarrow>
        case got of None \<Rightarrow> send_file_end L fd pad file buffer | Some content \<Rightarrow> x content file buffer)
        e' (sending buffer' s) Q" for x by simp
  qed (simp add: Nil.hyps [symmetric])
next
  case (Cons l ls)
  note prems = Cons.prems
  let ?f = "f\<lparr>remaining := ls\<rparr>" and ?l = "line_bytes pad (strip_newline l)"
    and ?rest = "file_body pad (map strip_newline ls)"
  have msg: "msg = ?l @ ?rest" using prems(7) by (simp add: Cons.hyps(2) [symmetric] file_body_def)
  have l: "l \<noteq> []" "length (strip_newline l) < SSIZE_LIMIT"
    using prems(6) length_strip_newline [of l] by (auto simp: Cons.hyps(2) [symmetric])
  have again: "ok (send_lines (Suc (length ls)) L fd pad ?f b) e' (sending b (add_wr fd ?l s)) Q"
    if e': "evolve e0 e'" for e' b
  proof -
    have "ok (send_lines (Suc (length (remaining ?f))) L fd pad ?f b) e' (sending b (add_wr fd ?l s)) Q"
    proof (rule Cons.hyps(1) [OF _ e' log fd])
      show "Q 0 e'' (add_wr fd ?rest (add_wr fd ?l s))" if "evolve e0 e''" for e''
        using prems(8) [OF that] by (simp add: msg)
      show "Q (-1) e'' (add_wr fd (take k ?rest) (add_wr fd ?l s))"
        if "evolve e0 e''" "faulty e0" "k \<le> length ?rest" for e'' k
        using prems(9) [of e'' "length ?l + k"] that by (simp add: msg)
    qed (use prems(4-6) in \<open>simp_all add: Cons.hyps(2) [symmetric]\<close>)
    then show ?thesis by simp
  qed
  have len: "Suc (length (remaining f)) = Suc (Suc (length ls))"
    by (simp add: Cons.hyps(2) [symmetric])
  show ?case
    unfolding len send_lines.simps(2) [of "Suc (length ls)"] ok_bind
  proof (rule c_getline_ok [OF prems(1,4,5)])
    fix e' l' ls' assume e': "evolve e0 e'" and "remaining f = l' # ls'"
    then have [simp]: "l' = l" "ls' = ls" using Cons.hyps(2) by simp_all
    let ?again = "send_lines (Suc (length ls)) L fd pad ?f (Some ())"
    have "ok (SYSCALL_RET_CHECK (-1)
        (write_n fd (enc_line_header pad
           \<lparr>eof = False, line_length = word_of_nat (length (strip_newline l))\<rparr>) 16)
        (seq_io (mr_log_error L p1 t1 f1) (seq_io (c_free (Some ())) c_fclose))
        (if 0 < length (strip_newline l) then SYSCALL_RET_CHECK (-1) (write_n fd l (length (strip_newline l)))
           (seq_io (mr_log_error L p2 t2 f2) (seq_io (c_free (Some ())) c_fclose)) ?again
         else ?again)) e' (sending (Some ()) s) Q" for p1 t1 f1 p2 t2 f2
    proof (rule send_line_ok [OF e' log fd refl l(2) refl again])
      show "Q (-1) e'' (add_wr fd (take k ?l) s)"
        if "evolve e0 e''" "faulty e0" "k \<le> length ?l" for e'' k
        using prems(9) [of e'' k] that by (simp add: msg)
    qed
    then show "ok (case (Some l', f\<lparr>remaining := ls'\<rparr>, Some ()) of (got, file, buffer) \<Rightarrow>
        case got of None \<Rightarrow> send_file_end L fd pad file buffer
        | Some content \<Rightarrow>
          let read_bytes = length content;
             line_len = if content ! (read_bytes - 1) = NEWLINE then read_bytes - 1 else read_bytes;
             line_header = \<lparr>eof = False, line_length = word_of_nat line_len\<rparr>;
             again = send_lines (Suc (length ls)) L fd pad file buffer in
          SYSCALL_RET_CHECK (-1) (write_n fd (enc_line_header pad line_header) 16)
            (seq_io (mr_log_error L p1 t1 f1) (seq_io (c_free buffer) c_fclose))
            (if 0 < line_len then SYSCALL_RET_CHECK (-1) (write_n fd content line_len)
               (seq_io (mr_log_error L p2 t2 f2) (seq_io (c_free buffer) c_fclose)) again
             else again)) e' (sending (Some ()) s) Q" for p1 t1 f1 p2 t2 f2
      by (simp only: Let_def prod.case option.case \<open>l' = l\<close> \<open>ls' = ls\<close> strip_newline_len [OF l(1)])
  next
    fix e' buffer' and f' :: read_stream
    assume e': "evolve e0 e'"
      and "\<not> stream_error f' \<and> remaining f = [] \<or> stream_error f' \<and> faulty e0"
    then have "stream_error f'" "faulty e0" using Cons.hyps(2) by auto
    then have "ok (send_file_end L fd pad f' buffer') e' (sending buffer' s) Q"
      using prems(9) [of _ 0] by (intro send_file_end_error [OF e' log]) auto
    then show "ok (case (None, f', buffer') of (got, file, buffer) \<Rightarrow>
        case got of None \<Rightarrow> send_file_end L fd pad file buffer | Some content \<Rightarrow> x content file buffer)
        e' (sending buffer' s) Q" for x by simp
  qed
qed

text \<open>
  What the rules for whole files and directories ask of \<open>Q\<close>: it accepts 0 with the bytes \<open>msg\<close>
  written, and, when a call has failed, -1 with a prefix of them. Nothing else of the state may
  change: no heap block and no open file is left behind on any path.
\<close>

definition writes ::
    "env \<Rightarrow> int \<Rightarrow> byte list \<Rightarrow> 's state_scheme \<Rightarrow> (int \<Rightarrow> env \<Rightarrow> 's state_scheme \<Rightarrow> bool) \<Rightarrow> bool" where
  "writes e0 fd msg s Q \<longleftrightarrow>
     (\<forall>e'. evolve e0 e' \<longrightarrow> Q 0 e' (add_wr fd msg s)) \<and>
     (\<forall>e' k. evolve e0 e' \<longrightarrow> faulty e0 \<longrightarrow> k \<le> length msg \<longrightarrow> Q (-1) e' (add_wr fd (take k msg) s))"

lemma writes_good: "writes e0 fd msg s Q \<Longrightarrow> evolve e0 e' \<Longrightarrow> Q 0 e' (add_wr fd msg s)"
  by (simp add: writes_def)

lemma writes_bad:
  "writes e0 fd msg s Q \<Longrightarrow> evolve e0 e' \<Longrightarrow> faulty e0 \<Longrightarrow> k \<le> length msg \<Longrightarrow>
   Q (-1) e' (add_wr fd (take k msg) s)"
  by (simp add: writes_def)

lemma writes_bad0: "writes e0 fd msg s Q \<Longrightarrow> evolve e0 e' \<Longrightarrow> faulty e0 \<Longrightarrow> Q (-1) e' s"
  using writes_bad [of e0 fd msg s Q e' 0] by simp

lemma writes_badn:
  "writes e0 fd msg s Q \<Longrightarrow> evolve e0 e' \<Longrightarrow> faulty e0 \<Longrightarrow> Q (-1) e' (add_wr fd msg s)"
  using writes_bad [of e0 fd msg s Q e' "length msg"] by simp

lemma writes_bad_prefix:
  "writes e0 fd (xs @ ys) s Q \<Longrightarrow> evolve e0 e' \<Longrightarrow> faulty e0 \<Longrightarrow>
   Q (-1) e' (add_wr fd (take k xs) s)"
  using writes_bad [of e0 fd "xs @ ys" s Q e' "min k (length xs)"] by (cases "k \<le> length xs") auto

lemma writes_later: "writes e0 fd (xs @ ys) s Q \<Longrightarrow> writes e0 fd ys (add_wr fd xs s) Q"
  unfolding writes_def
  by (intro conjI allI impI)
     (force, use writes_bad [of e0 fd "xs @ ys" s Q _ "length xs + _"] in \<open>auto simp: writes_def\<close>)

lemma send_file_ok:
  assumes ev: "evolve e0 e" and log: "log_ready L e0" and fd: "0 \<le> fd"
    and reg: "files s p = Some (Reg content)" and len: "length p < SSIZE_LIMIT" "length content < SSIZE_LIMIT"
    and Q: "writes e0 fd (file_bytes (fresh_block e0 7) (p, lines_of content)) s Q"
  shows "ok (send_file_to_mapper L fd p) e s Q"
proof -
  let ?h = "enc_file_name_header \<lparr>file_name_length = word_of_nat (length p)\<rparr>"
    and ?f = "\<lparr>remaining = raw_lines content, readable = True, stream_error = False\<rparr>"
    and ?s = "\<lambda>bs. sending None (add_wr fd bs s)" and ?pad = "fresh_block e0 7"
  let ?body = "file_body ?pad (lines_of content)"
  have msg: "file_bytes ?pad (p, lines_of content) = ?h @ p @ ?body"
    by (simp add: file_bytes_def file_start_def)
  note Q = Q [unfolded msg]
  have lines: "ok (send_lines (Suc (length (raw_lines content))) L fd ?pad ?f None) e' (?s (?h @ p)) Q"
    if "evolve e0 e'" for e'
  proof -
    have body: "?body = file_body ?pad (map strip_newline (remaining ?f))"
      by (simp add: lines_of_def)
    have Q': "writes e0 fd ?body (add_wr fd (?h @ p) s) Q"
      by (rule writes_later) (use Q in simp)
    have "ok (send_lines (Suc (length (remaining ?f))) L fd ?pad ?f None) e' (?s (?h @ p)) Q"
      using raw_lines_nonempty le_less_trans [OF raw_lines_short len(2)]
      by (intro send_lines_ok [OF that log fd _ _ _ body] writes_good [OF Q'] writes_bad [OF Q']) auto
    then show ?thesis by simp
  qed
  have pad: "fresh_block e' 7 = ?pad" if "evolve e0 e'" for e'
    using evolve_garbage [OF that] by (simp add: fresh_block_def)
  have opened: "ok (SYSCALL_RET_CHECK (-1) (write_n fd ?h 8) (seq_io (mr_log_error L p1 t1 f1) c_fclose) (
       SYSCALL_RET_CHECK (-1) (write_n fd p (length p)) (seq_io (mr_log_error L p2 t2 f2) c_fclose) (
       bind_io (get_env (\<lambda>e. fresh_block e 7)) (\<lambda>pad.
       send_lines (Suc (length (raw_lines content))) L fd pad ?f None)))) e' (sending None s) Q"
    if e': "evolve e0 e'" for e' p1 t1 f1 p2 t2 f2
  proof (rule write_check_ok [OF e' fd])
    show "ok (seq_io (mr_log_error L p1 t1 f1) c_fclose) e'' (add_wr fd (take m ?h) (sending None s)) (\<lambda>_. Q (-1))"
      if "evolve e0 e''" "faulty e0" for e'' m
      using send_file_fail(2) [OF that(1) log, of Q "add_wr fd (take m ?h) s"]
        writes_bad_prefix [OF Q _ that(2)] by simp
    fix e'' assume e'': "evolve e0 e''"
    show "ok (SYSCALL_RET_CHECK (-1) (write_n fd p (length p)) (seq_io (mr_log_error L p2 t2 f2) c_fclose) (
       bind_io (get_env (\<lambda>e. fresh_block e 7)) (\<lambda>pad.
       send_lines (Suc (length (raw_lines content))) L fd pad ?f None))) e''
       (add_wr fd (take 8 ?h) (sending None s)) Q"
    proof (rule write_check_ok [OF e'' fd _ len(1)])
      show "ok (seq_io (mr_log_error L p2 t2 f2) c_fclose) e3
          (add_wr fd (take m p) (add_wr fd (take 8 ?h) (sending None s))) (\<lambda>_. Q (-1))"
        if "evolve e0 e3" "faulty e0" for e3 m
        using send_file_fail(2) [OF that(1) log, of Q "add_wr fd (take (8 + m) (?h @ p)) s"]
          writes_bad_prefix [of e0 fd "?h @ p" ?body s Q _ "8 + m"] Q that(2) by simp
      show "ok (bind_io (get_env (\<lambda>e. fresh_block e 7)) (\<lambda>pad.
         send_lines (Suc (length (raw_lines content))) L fd pad ?f None)) e3
         (add_wr fd (take (length p) p) (add_wr fd (take 8 ?h) (sending None s))) Q"
        if "evolve e0 e3" for e3
        using lines [OF that] by (simp add: ok_simps pad [OF that] del: send_lines.simps)
    qed simp
  qed simp_all
  show ?thesis
    unfolding send_file_to_mapper_def Let_def
    apply (simp only: ok_simps fd simp_thms)
    apply (simp only: ok_macros)
    apply (rule mr_log_ok [OF ev log])
     apply (simp add: c_fopen_read_def ok_simps del: send_lines.simps split del: if_split)
     apply (rule ask_ok, assumption)
      apply (simp add: ok_simps reg del: send_lines.simps)
      apply (use opened in simp)
     apply (auto simp: ok_simps reg intro!: log_error_ok [OF _ log] writes_bad0 [OF Q])
    done
qed

section \<open>Sending a directory\<close>

lemma ok_free_entries [ok_simps]:
  "ok (free_entries n) e s Q \<longleftrightarrow> Q () e (s\<lparr>live := live s - int n\<rparr>)"
  by (induction n arbitrary: s) (simp_all add: ok_simps algebra_simps)

lemma is_directory_ok:
  assumes ev: "evolve e0 e" and log: "log_ready L e0" and nd: "files s p = Some nd"
    and "\<And>e'. evolve e0 e' \<Longrightarrow> Q (case nd of Dir _ \<Rightarrow> 1 | Reg _ \<Rightarrow> 0) e' s"
    and "\<And>e'. evolve e0 e' \<Longrightarrow> faulty e0 \<Longrightarrow> Q (-1) e' s"
  shows "ok (is_directory L p) e s Q"
  unfolding is_directory_def c_stat_def
  apply (simp add: ok_simps ok_macros split del: if_split)
  apply (rule ask_ok [OF ev])
   apply (simp add: ok_simps nd assms(4))
  apply (auto simp: ok_simps assms(5) intro!: log_error_ok [OF _ log])
  done

text \<open>The entries of a directory exist, and their paths and contents have sizes that can occur.\<close>

definition good_entry :: "(path \<Rightarrow> node option) \<Rightarrow> path \<Rightarrow> path \<Rightarrow> bool" where
  "good_entry fls dir d \<longleftrightarrow>
     d = DOT \<or> d = DOTDOT \<or>
     length dir + length d + 1 < PATH_MAX \<and>
     (case fls (dir @ SLASH # d) of None \<Rightarrow> False | Some (Dir _) \<Rightarrow> True
      | Some (Reg content) \<Rightarrow> length content < SSIZE_LIMIT)"

lemma full_path_fits: "length dir + length d + 1 < PATH_MAX \<Longrightarrow> full_path dir d = dir @ SLASH # d"
  by (simp add: full_path_def)

lemma files_bytes_append: "files_bytes pad (xs @ ys) = files_bytes pad xs @ files_bytes pad ys"
  by (simp add: files_bytes_def)

text \<open>\<open>scanned n s\<close>: \<open>n\<close> entries and the list that holds them are still allocated.\<close>

abbreviation scanned :: "nat \<Rightarrow> 's state_scheme \<Rightarrow> 's state_scheme" where
  "scanned n s \<equiv> s\<lparr>live := live s + (int n + 1)\<rparr>"

lemma scanned_free: "s\<lparr>live := live s + (1 + int (Suc n)) - 1\<rparr> = scanned n s"
  by (simp add: algebra_simps)

lemma send_entries_ok:
  assumes "evolve e0 e" and log: "log_ready L e0" and fd: "0 \<le> fd"
    and "\<forall>d \<in> set ds. good_entry (files s) dir d"
    and "writes e0 fd (files_bytes (fresh_block e0 7) (dir_files (files s) dir ds)) s Q"
  shows "ok (send_entries L fd dir ds) e (scanned (length ds) s) Q"
  using assms
proof (induction ds arbitrary: e s)
  case Nil
  note Q = Nil.prems(5)
  show ?case
    apply (simp add: ok_simps ok_macros)
    apply (rule mr_log_ok [OF Nil.prems(1) log])
    using writes_good [OF Q] writes_bad0 [OF Q]
    by (simp_all add: dir_files_def files_bytes_def ok_simps)
next
  case (Cons d ds)
  note ev = Cons.prems(1) and Q = Cons.prems(5)
  let ?pad = "fresh_block e0 7" and ?p = "dir @ SLASH # d"
  let ?rest = "files_bytes ?pad (dir_files (files s) dir ds)"
  let ?again = "send_entries L fd dir ds"
  let ?fail = "\<lambda>p1 t1 f1. seq_io (mr_log_error L p1 t1 f1)
      (seq_io (free_entries (Suc (length ds))) (c_free (Some ())))"
  have dots: "d = DOT \<or> d = DOTDOT \<Longrightarrow> dir_files (files s) dir (d # ds) = dir_files (files s) dir ds"
    by (auto simp: dir_files_def)
  have again: "ok ?again e' (scanned (length ds) (add_wr fd bs s)) Q"
    if "evolve e0 e'" and "writes e0 fd (bs @ ?rest) s Q" for e' bs
    using that Cons.prems(4) by (intro Cons.IH [OF that(1) log fd] ) (auto intro: writes_later)
  have fail: "ok (?fail p1 t1 f1) e' (scanned (Suc (length ds)) (add_wr fd bs s)) (\<lambda>_. Q (-1))"
    if "evolve e0 e'" and "\<And>e'. evolve e0 e' \<Longrightarrow> Q (-1) e' (add_wr fd bs s)" for e' bs p1 t1 f1
    by (rule ok_mono [where P = "\<lambda>_ e' s'. evolve e0 e' \<and> s' = add_wr fd bs s"])
       (use that in \<open>auto simp: ok_simps algebra_simps intro!: log_error_ok [OF that(1) log]\<close>)
  show ?case
  proof (cases "d = DOT \<or> d = DOTDOT")
    case True
    then show ?thesis
      using again [OF ev, of "[]"] Q
      by (simp add: dots Let_def ok_simps ok_macros algebra_simps)
  next
    case False
    then have entry: "full_path dir d = ?p" "files s ?p \<noteq> None"
      "\<And>c. files s ?p = Some (Reg c) \<Longrightarrow> length c < SSIZE_LIMIT" "length ?p < PATH_MAX"
      using Cons.prems(4) by (auto simp: good_entry_def full_path_fits split: option.splits node.splits)
    then obtain nd where nd: "files s ?p = Some nd" by auto
    let ?send = "\<lambda>p1 t1 f1. SYSCALL_RET_CHECK (-1) (send_file_to_mapper L fd ?p) (?fail p1 t1 f1)
      (seq_io (c_free (Some ())) ?again)"
    have step: "ok (if is_dir = 1 then seq_io (mr_log L v p t f) (seq_io (c_free (Some ())) ?again)
        else ?send p1 t1 f1) e' (scanned (Suc (length ds)) s) Q"
      if e': "evolve e0 e'" and is_dir: "is_dir = (case nd of Dir _ \<Rightarrow> 1 | Reg _ \<Rightarrow> 0)"
      for e' v p t f p1 t1 f1 and is_dir :: int
    proof (cases nd)
      case (Dir names)
      then have "dir_files (files s) dir (d # ds) = dir_files (files s) dir ds"
        by (simp add: dir_files_def entry_file_def nd)
      then show ?thesis
        using again [of _ "[]"] Q is_dir Dir
        by (auto simp: ok_simps algebra_simps intro!: log_error_ok [OF e' log])
    next
      case (Reg content)
      let ?file = "file_bytes ?pad (?p, lines_of content)"
      have Q: "writes e0 fd (?file @ ?rest) s Q"
        using Q False by (simp add: dir_files_def entry_file_def nd Reg files_bytes_def)
      have "ok (send_file_to_mapper L fd ?p) e' (scanned (Suc (length ds)) s) (\<lambda>r e'' s'.
          if r = -1 then ok (?fail p1 t1 f1) e'' s' (\<lambda>_. Q (-1))
          else ok (seq_io (c_free (Some ())) ?again) e'' s' Q)"
      proof (rule send_file_ok [OF e' log fd])
        have "ok (seq_io (c_free (Some ())) ?again) e'' (scanned (Suc (length ds)) (add_wr fd ?file s)) Q"
          if "evolve e0 e''" for e''
          using again [OF that Q] by (simp add: ok_simps algebra_simps)
        moreover have "ok (?fail p1 t1 f1) e'' (scanned (Suc (length ds)) (add_wr fd (take k ?file) s))
            (\<lambda>_. Q (-1))" if "evolve e0 e''" "faulty e0" for e'' k
          by (rule fail [OF that(1)]) (rule writes_bad_prefix [OF Q _ that(2)])
        ultimately show "writes e0 fd ?file (scanned (Suc (length ds)) s) (\<lambda>r e'' s'.
          if r = -1 then ok (?fail p1 t1 f1) e'' s' (\<lambda>_. Q (-1))
          else ok (seq_io (c_free (Some ())) ?again) e'' s' Q)"
          by (simp add: writes_def del: free_entries.simps)
      qed (use entry nd Reg in simp_all)
      then show ?thesis
        using is_dir Reg by (simp add: ok_macros del: free_entries.simps)
    qed
    show ?thesis
      unfolding send_entries.simps(2) Let_def entry(1) if_not_P [OF False] ok_SYSCALL_RET
      apply (rule is_directory_ok [OF ev log, of _ _ nd])
        apply (simp add: nd)
       apply (use step in \<open>cases nd; simp del: free_entries.simps\<close>)
      apply (use fail [of _ "[]"] writes_bad0 [OF Q] in \<open>simp del: free_entries.simps\<close>)
      done
  qed
qed

text \<open>An input path that can be sent whole.\<close>

definition good_input :: "(path \<Rightarrow> node option) \<Rightarrow> path \<Rightarrow> bool" where
  "good_input fls p \<longleftrightarrow>
     (case fls p of
        None \<Rightarrow> False
      | Some (Reg content) \<Rightarrow> length p < SSIZE_LIMIT \<and> length content < SSIZE_LIMIT
      | Some (Dir names) \<Rightarrow> (\<forall>d \<in> set names. good_entry fls p d))"

lemma set_entries_of [simp]: "set (entries_of names) = {DOT, DOTDOT} \<union> set names"
  by (simp add: entries_of_def set_insort_key)

lemma good_dots [simp]: "good_entry fls p DOT" "good_entry fls p DOTDOT"
  by (simp_all add: good_entry_def)

lemma send_files_in_directory_ok:
  assumes ev: "evolve e0 e" and log: "log_ready L e0" and fd: "0 \<le> fd"
    and dir: "files s p = Some (Dir names)" and good: "good_input (files s) p"
    and Q: "writes e0 fd (files_bytes (fresh_block e0 7) (input_files (files s) p)) s Q"
  shows "ok (send_files_in_directory_to_mapper L fd p) e s Q"
proof -
  let ?es = "entries_of names"
  have entries: "\<forall>d \<in> set ?es. good_entry (files s) p d"
    using good by (simp add: good_input_def dir)
  have Q': "writes e0 fd (files_bytes (fresh_block e0 7) (dir_files (files s) p ?es)) s Q"
    using Q by (simp add: input_files_def dir)
  have body: "ok (SYSCALL_RET_CHECK (-1) (mr_log_info L p1 t1 f1)
       (seq_io (free_entries (length ?es)) (c_free (Some ()))) (send_entries L fd p ?es))
       e' (scanned (length ?es) s) Q" if e': "evolve e0 e'" for e' p1 t1 f1
    unfolding ok_SYSCALL_RET_CHECK
    by (rule mr_log_ok [OF e' log])
       (use send_entries_ok [OF _ log fd entries Q'] writes_bad0 [OF Q] in
          \<open>simp_all add: ok_simps algebra_simps\<close>)
  show ?thesis
    unfolding send_files_in_directory_to_mapper_def
    apply (simp only: ok_macros)
    apply (rule mr_log_ok [OF ev log])
     apply (simp add: c_scandir_def ok_simps split del: if_split)
     apply (rule ask_ok, assumption)
      apply (use body in \<open>simp add: ok_simps dir\<close>)
     apply (auto simp: ok_simps dir intro!: log_error_ok [OF _ log] writes_bad0 [OF Q])
    done
qed

text \<open>
  The whole operation: 0 and the complete stream of the input, or, after a failed call, -1 and a
  prefix of it.
\<close>

lemma send_input_ok:
  assumes ev: "evolve e0 e" and log: "log_ready L e0" and fd: "0 \<le> fd"
    and good: "good_input (files s) p"
    and Q: "writes e0 fd (files_bytes (fresh_block e0 7) (input_files (files s) p)) s Q"
  shows "ok (send_input_to_mapper L fd p) e s Q"
proof -
  let ?pad = "fresh_block e0 7"
  obtain nd where nd: "files s p = Some nd"
    using good by (auto simp: good_input_def split: option.splits)
  let ?Q = "\<lambda>p1 t1 f1 r e' s'. if r = -1 then Q (-1) e' s' else
      ok (SYSCALL_RET_CHECK (-1) (mr_log_info L p1 t1 f1) skip (return_io 0)) e' s' Q"
  have Q': "writes e0 fd (files_bytes ?pad (input_files (files s) p)) s (?Q p1 t1 f1)" for p1 t1 f1
    unfolding writes_def ok_SYSCALL_RET_CHECK
    using writes_good [OF Q] writes_badn [OF Q] writes_bad [OF Q]
    by (auto simp: ok_simps intro!: mr_log_ok [OF _ log])
  have send: "ok (if (case nd of Dir _ \<Rightarrow> 1 | Reg _ \<Rightarrow> 0) = (0 :: int)
       then SYSCALL_RET_CHECK (-1) (send_file_to_mapper L fd p) skip
              (SYSCALL_RET_CHECK (-1) (mr_log_info L p1 t1 f1) skip (return_io 0))
       else SYSCALL_RET_CHECK (-1) (send_files_in_directory_to_mapper L fd p) skip
              (SYSCALL_RET_CHECK (-1) (mr_log_info L p1 t1 f1) skip (return_io 0))) e' s Q"
    if e': "evolve e0 e'" for e' p1 t1 f1
  proof (cases nd)
    case (Reg content)
    have len: "length p < SSIZE_LIMIT" "length content < SSIZE_LIMIT"
      using good by (simp_all add: good_input_def nd Reg)
    have "ok (send_file_to_mapper L fd p) e' s (?Q p1 t1 f1)"
      by (rule send_file_ok [OF e' log fd _ len])
         (use Q' in \<open>simp_all add: nd Reg input_files_def entry_file_def
            files_bytes_def split del: if_split\<close>)
    then show ?thesis by (simp add: Reg ok_SYSCALL_RET_CHECK [of _ "send_file_to_mapper L fd p"] ok_simps
          cong: if_cong split del: if_split)
  next
    case (Dir names)
    have "ok (send_files_in_directory_to_mapper L fd p) e' s (?Q p1 t1 f1)"
      by (rule send_files_in_directory_ok [OF e' log fd]) (use good Q' nd Dir in simp_all)
    then show ?thesis
      by (simp add: Dir ok_SYSCALL_RET_CHECK [of _ "send_files_in_directory_to_mapper L fd p"]
          ok_simps cong: if_cong split del: if_split)
  qed
  show ?thesis
    unfolding send_input_to_mapper_def Let_def
    apply (simp only: ok_simps fd simp_thms ok_SYSCALL_RET)
    apply (rule is_directory_ok [OF ev log nd])
     apply (subst if_not_P)
      apply (simp split: node.splits)
     apply (simp only: ok_SYSCALL_RET_CHECK [of _ "mr_log_info L _ _ _" skip "if _ then _ else _"])
     apply (rule mr_log_ok [OF _ log], assumption)
      apply (use send in \<open>simp add: id_def\<close>)
     apply (auto simp: ok_simps intro: writes_bad0 [OF Q])
    done
qed

section \<open>Properties\<close>

text \<open>C6. \<open>send_input_to_mapper\<close> on a file, or on a directory with its regular files in byte order
  of their names: it returns 0 with exactly the stream of these files written (the name of each
  file, each of its lines without the newline, the end mark), or -1 after a failed call with a
  prefix of that stream written. On every path, errors included, all memory is freed and every
  file closed: nothing of the process state but the pipe has changed.\<close>

theorem send_input_writes_files:
  assumes "log_ready L e" and "0 \<le> fd" and "good_input (files s) p"
  shows "ok (send_input_to_mapper L fd p) e s (\<lambda>r e' s'.
    let msg = files_bytes (fresh_block e 7) (input_files (files s) p) in
    r = 0 \<and> s' = add_wr fd msg s \<or>
    r = -1 \<and> faulty e \<and> (\<exists>k. s' = add_wr fd (take k msg) s))"
  by (rule send_input_ok [OF evolve_refl assms]) (auto simp: writes_def Let_def)

text \<open>A directory \<open>d\<close> with a subdirectory \<open>a\<close> and a file \<open>b\<close> of two lines.\<close>

definition example_tree :: "path \<Rightarrow> node option" where
  "example_tree = [[100] \<mapsto> Dir [[98], [97]], [100, 47, 97] \<mapsto> Dir [],
     [100, 47, 98] \<mapsto> Reg [120, 121, 10, 122]]"

lemma example_tree_files: "input_files example_tree [100] = [([100, 47, 98], [[120, 121], [122]])]"
  by code_simp

lemma example_tree_good: "good_input example_tree [100]"
  by (auto simp: good_input_def good_entry_def example_tree_def)

theorem send_input_writes_files_witness:
  "ok (send_input_to_mapper example_log 4 [100]) (example_env [])
     ((example_state [])\<lparr>files := example_tree\<rparr>) (\<lambda>r e' s'. r = 0 \<and> live s' = 0 \<and> handles s' = 0 \<and>
       wrs s' 4 = files_bytes (replicate 7 255) [([100, 47, 98], [[120, 121], [122]])])"
  by (rule ok_mono [OF send_input_writes_files])
     (auto simp: Let_def example_tree_files example_tree_good fresh_block_def map_replicate_trivial
        map_replicate_const)

end
