(* ===== verification/Mr_Output.thy ===== *)
theory Mr_Output
  imports Mr_Input
begin

text \<open>
  \<open>receive_output_from_reducer\<close> of \<open>src/protocol.c\<close>: the main process turns the results that
  come from the reducer into the output file. Each record of the file is the token length, the
  token, the result size and the result, the lengths as eight bytes.
\<close>

section \<open>Library calls\<close>

definition contents :: "(path \<Rightarrow> node option) \<Rightarrow> path \<Rightarrow> byte list" where
  "contents fls p = (case fls p of Some (Reg c) \<Rightarrow> c | _ \<Rightarrow> [])"

lemma contents_upd [simp]: "contents (fls(p \<mapsto> Reg c)) p = c"
  by (simp add: contents_def)

text \<open>\<open>fopen\<close> with mode \<open>wb\<close>: an empty file, but not in the place of a directory.\<close>

definition is_dir_node :: "node option \<Rightarrow> bool" where
  "is_dir_node nd \<longleftrightarrow> (case nd of Some (Dir _) \<Rightarrow> True | _ \<Rightarrow> False)"

definition c_fopen_write :: "path \<Rightarrow> ('s, path option) proc" where
  "c_fopen_write p =
     bind_io ask (\<lambda>a.
     bind_io (get_st (\<lambda>s. files s p)) (\<lambda>nd.
     if a = Fault \<or> is_dir_node nd then return_io None else
     seq_io (put_st (\<lambda>s. s\<lparr>files := (files s)(p \<mapsto> Reg []), handles := handles s + 1\<rparr>))
            (return_io (Some p))))"

text \<open>\<open>fwrite\<close>: whether all of it was written; what a failed call wrote is not modelled.\<close>

definition c_fwrite :: "path \<Rightarrow> byte list \<Rightarrow> ('s, bool) proc" where
  "c_fwrite p bs =
     bind_io ask (\<lambda>a. if a = Fault then return_io False else
     seq_io (put_st (\<lambda>s. s\<lparr>files := (files s)(p \<mapsto> Reg (contents (files s) p @ bs))\<rparr>))
            (return_io True))"

section \<open>receive_output_from_reducer\<close>

text \<open>What every error path does: log, close the file, return -1.\<close>

definition give_up :: "mr_log_file_t \<Rightarrow> string \<Rightarrow> ('s, 'b) proc \<Rightarrow> ('s, int) proc" where
  "give_up log_file message release =
     seq_io (mr_log_error log_file ''Main'' ''Main'' message)
       (seq_io release (seq_io c_fclose (return_io (-1))))"

text \<open>The token of a record and, after its size, the result; \<open>rest\<close> is the code after them.\<close>

definition receive_output_token ::
    "mr_log_file_t \<Rightarrow> int \<Rightarrow> path \<Rightarrow> size_t \<Rightarrow> ('s, int) proc \<Rightarrow> ('s, int) proc" where
  "receive_output_token log_file read_fd out_file token_length rest =
     (if 0 < token_length then
        bind_io (c_malloc (unat token_length)) (\<lambda>token.
        if token = None then give_up log_file ''Failed to allocate memory for token'' skip else
        SYSCALL_RET (-1) fst (read_n read_fd (the token) (unat token_length))
          (give_up log_file ''Failed to read token from reducer'' (c_free token))
          (\<lambda>(bytes_read, token_mem).
        seq_io (assert_c (bytes_read = sint token_length)) (
        bind_io (c_fwrite out_file token_mem) (\<lambda>written.
        if \<not> written then
          give_up log_file ''Failed to write token to file'' (c_free token)
        else seq_io (c_free token) rest))))
      else rest)"

definition receive_output_result ::
    "mr_log_file_t \<Rightarrow> int \<Rightarrow> path \<Rightarrow> size_t \<Rightarrow> ('s, int) proc \<Rightarrow> ('s, int) proc" where
  "receive_output_result log_file read_fd out_file result_size rest =
     bind_io (c_malloc (unat result_size)) (\<lambda>result.
     if result = None \<and> 0 < result_size then
       give_up log_file ''Failed to allocate memory for result'' skip
     else if 0 < result_size then
       SYSCALL_RET (-1) fst (read_n read_fd (the result) (unat result_size))
         (give_up log_file ''Failed to read result from reducer'' (c_free result))
         (\<lambda>(bytes_read, result_mem).
       seq_io (assert_c (bytes_read = sint result_size)) (
       bind_io (c_fwrite out_file result_mem) (\<lambda>written.
       if \<not> written then
         give_up log_file ''Failed to write result to file'' (c_free result)
       else seq_io (c_free result) rest)))
     else rest)"

definition receive_output_end :: "mr_log_file_t \<Rightarrow> ('s, int) proc" where
  "receive_output_end log_file =
     bind_io c_fclose (\<lambda>closed.
     if closed = -1 then
       seq_io (mr_log_error log_file ''Main'' ''Main'' ''Failed to close output file %s'')
         (return_io (-1))
     else
     SYSCALL_RET_CHECK (-1)
       (mr_log_info log_file ''Main'' ''Main'' ''Finished receiving output from reducer'') skip (
     return_io 0))"

text \<open>
  The loop. \<open>header_mem\<close> is the variable \<open>header\<close>, which keeps its bytes from round to round.
  A round that goes on has read at least one byte.
\<close>

primrec receive_output_loop ::
    "nat \<Rightarrow> mr_log_file_t \<Rightarrow> int \<Rightarrow> path \<Rightarrow> byte list \<Rightarrow> ('s, int) proc" where
  "receive_output_loop 0 log_file read_fd out_file header_mem = stop_io Out_Of_Fuel"
| "receive_output_loop (Suc fuel) log_file read_fd out_file header_mem =
     SYSCALL_RET (-1) fst (read_n read_fd header_mem sizeof_result_header)
       (give_up log_file ''Failed to read result header from reducer'' skip)
       (\<lambda>(bytes_read, header_mem).
     if bytes_read = 0 then receive_output_end log_file
     else
     seq_io (assert_c (bytes_read = int sizeof_result_header)) (
     let header = dec_result_header header_mem in
     bind_io (c_fwrite out_file (enc_size (rh_token_length header))) (\<lambda>written.
     if \<not> written then give_up log_file ''Failed to write token length to file'' skip else
     receive_output_token log_file read_fd out_file (rh_token_length header) (
     bind_io (c_fwrite out_file (enc_size (rh_result_size header))) (\<lambda>written.
     if \<not> written then give_up log_file ''Failed to write result size to file'' skip else
     receive_output_result log_file read_fd out_file (rh_result_size header) (
     receive_output_loop fuel log_file read_fd out_file header_mem))))))"

definition receive_output_from_reducer :: "mr_log_file_t \<Rightarrow> int \<Rightarrow> path \<Rightarrow> ('s, int) proc" where
  "receive_output_from_reducer log_file read_fd output_path =
     seq_io (assert_c (0 \<le> read_fd)) (
     SYSCALL_RET_CHECK (-1) (mr_log_info log_file ''Main'' ''Main''
       ''Receiving output from reducer and writing to %s'') skip (
     bind_io (c_fopen_write output_path) (\<lambda>out_file.
     if out_file = None then
       seq_io (mr_log_error log_file ''Main'' ''Main'' ''Failed to open output file %s'') (return_io (-1))
     else
     bind_io (get_env (\<lambda>e. fresh_block e 16)) (\<lambda>header_mem.
     bind_io (get_st (\<lambda>s. length (rds s read_fd))) (\<lambda>n.
     receive_output_loop (Suc n) log_file read_fd (the out_file) header_mem)))))"

section \<open>The output of a list of results\<close>

definition output_record :: "byte list \<times> byte list \<Rightarrow> byte list" where
  "output_record x = (case x of (t, v) \<Rightarrow>
     enc_size (word_of_nat (length t)) @ t @ enc_size (word_of_nat (length v)) @ v)"

definition output_bytes :: "(byte list \<times> byte list) list \<Rightarrow> byte list" where
  "output_bytes xs = concat (map output_record xs)"

definition results_bytes :: "(byte list \<times> byte list) list \<Rightarrow> byte list" where
  "results_bytes xs = concat (map (\<lambda>(t, v). result_bytes t v) xs)"

text \<open>The number of results of size 0, whose block from \<open>malloc(0)\<close> the code does not free.\<close>

definition empties :: "(byte list \<times> byte list) list \<Rightarrow> nat" where
  "empties xs = length (filter (\<lambda>(t, v). v = []) xs)"

section \<open>One record\<close>

text \<open>
  The state while the output is received: the content written so far, what is left of the
  stream, \<open>d\<close> heap blocks more than at the start.
\<close>

abbreviation receiving ::
    "path \<Rightarrow> int \<Rightarrow> byte list \<Rightarrow> byte list \<Rightarrow> int \<Rightarrow> 's state_scheme \<Rightarrow> 's state_scheme" where
  "receiving p fd c rest d s \<equiv>
     s\<lparr>files := (files s)(p \<mapsto> Reg c), rds := (rds s)(fd := rest), handles := handles s + 1,
       live := live s + d\<rparr>"

abbreviation received ::
    "path \<Rightarrow> int \<Rightarrow> byte list \<Rightarrow> int \<Rightarrow> 's state_scheme \<Rightarrow> 's state_scheme" where
  "received p fd c d s \<equiv>
     s\<lparr>files := (files s)(p \<mapsto> Reg c), rds := (rds s)(fd := []), live := live s + d\<rparr>"

text \<open>
  What \<open>Q\<close> has to accept: 0 with the records of \<open>xs\<close> appended, or an error in a state with the
  file closed. \<open>d\<close> blocks are lost already; each empty result may lose one more.
\<close>

definition outputs ::
    "env \<Rightarrow> path \<Rightarrow> int \<Rightarrow> byte list \<Rightarrow> (byte list \<times> byte list) list \<Rightarrow> int \<Rightarrow> 's state_scheme
      \<Rightarrow> (int \<Rightarrow> env \<Rightarrow> 's state_scheme \<Rightarrow> bool) \<Rightarrow> bool" where
  "outputs e0 p fd c xs d s Q \<longleftrightarrow>
     (\<forall>e' d'. evolve e0 e' \<longrightarrow> d \<le> d' \<longrightarrow> d' \<le> d + int (empties xs) \<longrightarrow>
        (\<not> faulty e0 \<longrightarrow> d' = d + int (empties xs)) \<longrightarrow>
        Q 0 e' (received p fd (c @ output_bytes xs) d' s)) \<and>
     (\<forall>e' s' d'. evolve e0 e' \<longrightarrow> faulty e0 \<longrightarrow> d \<le> d' \<longrightarrow> d' \<le> d + int (empties xs) \<longrightarrow>
        handles s' = handles s \<longrightarrow> live s' = live s + d' \<longrightarrow> wrs s' = wrs s \<longrightarrow> Q (-1) e' s')"

lemma output_bytes_simps [simp]:
  "output_bytes [] = []" "output_bytes (x # xs) = output_record x @ output_bytes xs"
  by (simp_all add: output_bytes_def)

lemma empties_simps [simp]:
  "empties [] = 0" "empties ((t, v) # xs) = (if v = [] then Suc (empties xs) else empties xs)"
  by (simp_all add: empties_def)

lemma outputs_bad:
  assumes "outputs e0 p fd c xs d s Q" and "evolve e0 e'" "faulty e0"
    and "handles s' = handles s" "live s' = live s + d" "wrs s' = wrs s"
  shows "Q (-1) e' s'"
  using assms(1) [unfolded outputs_def, THEN conjunct2, rule_format, OF assms(2,3) _ _ assms(4-6)] by simp

lemma outputs_good:
  "outputs e0 p fd c [] d s Q \<Longrightarrow> evolve e0 e' \<Longrightarrow> Q 0 e' (received p fd c d s)"
  by (simp add: outputs_def)

lemma outputs_next:
  fixes s :: "'s state_scheme"
  assumes "outputs e0 p fd c ((t, v) # xs) d s Q"
    and "d' = d \<or> v = [] \<and> d' = d + 1" and "\<not> faulty e0 \<Longrightarrow> v = [] \<Longrightarrow> d' = d + 1"
  shows "outputs e0 p fd (c @ output_record (t, v)) xs d' s Q"
  unfolding outputs_def
proof (intro conjI allI impI)
  note good = assms(1) [unfolded outputs_def, THEN conjunct1, rule_format]
  fix e' d'' assume "evolve e0 e'" "d' \<le> d''" "d'' \<le> d' + int (empties xs)"
    and "\<not> faulty e0 \<longrightarrow> d'' = d' + int (empties xs)"
  then show "Q 0 e' (received p fd ((c @ output_record (t, v)) @ output_bytes xs) d'' s)"
    using good [of e' d''] assms(2,3) by (cases "v = []") auto
next
  note bad = assms(1) [unfolded outputs_def, THEN conjunct2, rule_format]
  fix e' d'' and s' :: "'s state_scheme" assume "evolve e0 e'" "faulty e0" "d' \<le> d''" "d'' \<le> d' + int (empties xs)"
    and "handles s' = handles s" "live s' = live s + d''" "wrs s' = wrs s"
  then show "Q (-1) e' s'"
    using bad [of e' d'' s'] assms(2) by (cases "v = []") auto
qed

lemma c_fwrite_ok:
  assumes "evolve e0 e"
    and "\<And>e'. evolve e0 e' \<Longrightarrow> Q True e' (receiving p fd (c @ bs) rest d s)"
    and "\<And>e'. evolve e0 e' \<Longrightarrow> faulty e0 \<Longrightarrow> Q False e' (receiving p fd c rest d s)"
  shows "ok (c_fwrite p bs) e (receiving p fd c rest d s) Q"
  unfolding c_fwrite_def ok_bind
  by (rule ask_ok [OF assms(1)]) (use assms in \<open>simp_all add: ok_simps\<close>)

lemma give_up_ok:
  assumes "evolve e0 e" and log: "log_ready L e0"
    and "\<And>e'. evolve e0 e' \<Longrightarrow> ok release e' s (\<lambda>_ e' s'. evolve e0 e' \<and>
      (\<forall>e''. evolve e0 e'' \<longrightarrow> Q (-1) e'' (s'\<lparr>handles := handles s' - 1\<rparr>)))"
  shows "ok (give_up L m release) e s Q"
  unfolding give_up_def ok_seq
  apply (rule log_error_ok [OF assms(1) log])
  apply (rule ok_mono [OF assms(3)], assumption)
  apply (auto simp: ok_simps intro: c_fclose_ok)
  done

lemma less_one_block: "l + (d + 1) - 1 = l + (d :: int)" "l + d + 1 = l + (d + 1)"
  by simp_all

text \<open>Reading \<open>t\<close> into a block, writing it to the file, freeing the block.\<close>

lemma copy_ok:
  assumes ev: "evolve e0 e" and log: "log_ready L e0" and fd: "0 \<le> fd"
    and len: "length t < SSIZE_LIMIT" "length b = length t"
    and rest: "\<And>e'. evolve e0 e' \<Longrightarrow> ok rest e' (receiving p fd (c @ t) bs d s) Q"
    and bad: "outputs e0 p fd c' xs d s Q"
  shows "ok (SYSCALL_RET (-1) fst (read_n fd b (length t)) (give_up L m1 (c_free (Some b)))
       (\<lambda>(bytes_read, mem). seq_io (assert_c (bytes_read = int (length t))) (
          bind_io (c_fwrite p mem) (\<lambda>written.
          if \<not> written then give_up L m2 (c_free (Some b)) else seq_io (c_free (Some b)) rest))))
     e (receiving p fd c (t @ bs) (d + 1) s) Q"
proof (rule read_exact_ok [OF ev fd _ len(1), where xs = t and rest = bs])
  let ?s = "receiving p fd c bs (d + 1) s"
  fix e' assume e': "evolve e0 e'"
  have "ok (c_fwrite p t) e' ?s (\<lambda>written e' s'. ok
      (if \<not> written then give_up L m2 (c_free (Some b)) else seq_io (c_free (Some b)) rest) e' s' Q)"
    by (rule c_fwrite_ok [OF e'])
       (auto simp: ok_simps rest less_one_block intro!: give_up_ok [OF _ log] outputs_bad [OF bad])
  then show "ok (case (int (length t), t @ drop (length t) b) of (bytes_read, mem) \<Rightarrow>
       seq_io (assert_c (bytes_read = int (length t))) (bind_io (c_fwrite p mem) (\<lambda>written.
          if \<not> written then give_up L m2 (c_free (Some b)) else seq_io (c_free (Some b)) rest))) e'
     (put_rd fd bs (receiving p fd c (t @ bs) (d + 1) s)) Q"
    using len(2) by (simp add: ok_simps)
next
  fix e' m assume "evolve e0 e'" "faulty e0"
  then show "ok (give_up L m1 (c_free (Some b))) e' (put_rd fd (drop m (rds (receiving p fd c (t @ bs) (d + 1) s) fd))
     (receiving p fd c (t @ bs) (d + 1) s)) (\<lambda>_. Q (-1))"
    by (auto simp: ok_simps intro!: give_up_ok [OF _ log] outputs_bad [OF bad])
qed (simp_all add: len)

lemma sint_size: "n < SSIZE_LIMIT \<Longrightarrow> sint (word_of_nat n :: size_t) = int n"
  using ssize_small [of n] by (simp add: ssize_def)

lemma receive_output_token_ok:
  assumes ev: "evolve e0 e" and log: "log_ready L e0" and fd: "0 \<le> fd" and len: "length t < SSIZE_LIMIT"
    and rest: "\<And>e'. evolve e0 e' \<Longrightarrow> ok rest e' (receiving p fd (c @ t) bs d s) Q"
    and bad: "outputs e0 p fd c' xs d s Q"
  shows "ok (receive_output_token L fd p (word_of_nat (length t)) rest) e
           (receiving p fd c (t @ bs) d s) Q"
proof (cases "0 < length t")
  case False
  then show ?thesis using rest [OF ev] len by (simp add: receive_output_token_def)
next
  case True
  show ?thesis
    unfolding receive_output_token_def
    apply (simp only: size_of_nat_pos [OF len] True if_True ok_simps unat_of_nat_small [OF len] sint_size [OF len])
    apply (rule c_malloc_ok [OF ev])
     apply (use copy_ok [OF _ log fd len _ rest bad] in \<open>simp add: less_one_block split del: if_split\<close>)
    apply (auto simp: ok_simps intro!: give_up_ok [OF _ log] outputs_bad [OF bad])
    done
qed

lemma receive_output_result_ok:
  assumes ev: "evolve e0 e" and log: "log_ready L e0" and fd: "0 \<le> fd" and len: "length v < SSIZE_LIMIT"
    and rest: "\<And>e' d'. evolve e0 e' \<Longrightarrow> d' = d \<or> v = [] \<and> d' = d + 1 \<Longrightarrow>
      (\<not> faulty e0 \<Longrightarrow> v = [] \<Longrightarrow> d' = d + 1) \<Longrightarrow> ok rest e' (receiving p fd (c @ v) bs d' s) Q"
    and bad: "outputs e0 p fd c' xs d s Q"
  shows "ok (receive_output_result L fd p (word_of_nat (length v)) rest) e
           (receiving p fd c (v @ bs) d s) Q"
proof (cases "0 < length v")
  case False
  show ?thesis
    unfolding receive_output_result_def
    apply (simp only: size_of_nat_pos [OF len] False if_False ok_simps)
    apply (rule c_malloc_ok [OF ev])
    using False rest [of _ d] rest [of _ "d + 1"]
    by (simp_all add: less_one_block)
next
  case True
  have rest': "ok rest e' (receiving p fd (c @ v) bs d s) Q" if "evolve e0 e'" for e'
    using rest [OF that, of d] True by auto
  show ?thesis
    unfolding receive_output_result_def
    apply (simp only: size_of_nat_pos [OF len] True if_True ok_simps unat_of_nat_small [OF len] sint_size [OF len])
    apply (rule c_malloc_ok [OF ev])
     apply (use copy_ok [OF _ log fd len _ rest' bad] in \<open>simp add: less_one_block split del: if_split\<close>)
    apply (auto simp: ok_simps intro!: give_up_ok [OF _ log] outputs_bad [OF bad])
    done
qed

section \<open>The whole stream\<close>

lemma receive_output_end_ok:
  assumes ev: "evolve e0 e" and log: "log_ready L e0" and Q: "outputs e0 p fd c [] d s Q"
  shows "ok (receive_output_end L) e (receiving p fd c [] d s) Q"
  unfolding receive_output_end_def ok_bind
  by (rule c_fclose_ok [OF ev])
     (auto simp: ok_simps ok_macros outputs_good [OF Q]
       intro!: mr_log_ok [OF _ log] outputs_bad [OF Q] log_error_ok [OF _ log])

definition small_result :: "byte list \<times> byte list \<Rightarrow> bool" where
  "small_result x \<longleftrightarrow> length (fst x) < SSIZE_LIMIT \<and> length (snd x) < SSIZE_LIMIT"

lemma receive_output_loop_ok:
  assumes "evolve e0 e" and log: "log_ready L e0" and fd: "0 \<le> fd"
    and "\<forall>x \<in> set xs. small_result x" and "length xs < fuel" and "length mem = 16"
    and "outputs e0 p fd c xs d s Q"
  shows "ok (receive_output_loop fuel L fd p mem) e (receiving p fd c (results_bytes xs) d s) Q"
  using assms
proof (induction xs arbitrary: e c d mem fuel)
  case Nil
  note prems = Nil.prems
  obtain n where n: "fuel = Suc n" using prems(5) by (cases fuel) auto
  let ?S = "receiving p fd c (results_bytes []) d s"
  have S: "rds ?S fd = []" "put_rd fd [] ?S = receiving p fd c [] d s"
    by (simp_all add: results_bytes_def)
  have fail: "ok (give_up L m skip) e' (receiving p fd c [] d s) (\<lambda>_. Q (-1))"
    if "evolve e0 e'" "faulty e0" for e' m
    using that by (auto simp: ok_simps intro!: give_up_ok [OF _ log] outputs_bad [OF prems(7)])
  show ?case
    unfolding n receive_output_loop.simps(2)
    apply (rule read_check_ok [OF prems(1) fd]; (simp only: S drop_Nil)?)
       apply (use receive_output_end_ok [OF _ log prems(7)] prems(6) fail in simp_all)
    done
next
  case (Cons x xs)
  note prems = Cons.prems
  obtain t v where x: "x = (t, v)" by (cases x)
  obtain n where n: "fuel = Suc n" "length xs < n" using prems(5) by (cases fuel) auto
  have len: "length t < SSIZE_LIMIT" "length v < SSIZE_LIMIT"
    using prems(4) by (simp_all add: x small_result_def)
  let ?h = "enc_result_header \<lparr>rh_token_length = word_of_nat (length t),
                        rh_result_size = word_of_nat (length v)\<rparr>"
  let ?rest = "results_bytes xs" and ?again = "receive_output_loop n L fd p ?h"
    and ?t = "enc_size (word_of_nat (length t))" and ?v = "enc_size (word_of_nat (length v))"
  have stream: "results_bytes (x # xs) = ?h @ t @ v @ ?rest"
    by (simp add: results_bytes_def result_bytes_def x)
  note bad = outputs_bad [OF prems(7)]
  have again: "ok ?again e' (receiving p fd (c @ ?t @ t @ ?v @ v) ?rest d' s) Q"
    if "evolve e0 e'" and d': "d' = d \<or> v = [] \<and> d' = d + 1"
      "\<not> faulty e0 \<Longrightarrow> v = [] \<Longrightarrow> d' = d + 1" for e' d'
  proof (rule Cons.IH [OF that(1) log fd])
    show "outputs e0 p fd (c @ ?t @ t @ ?v @ v) xs d' s Q"
      using outputs_next [OF prems(7) [unfolded x] d'] by (simp add: output_record_def)
  qed (use prems(4) n in auto)
  have result: "ok (bind_io (c_fwrite p ?v) (\<lambda>written. if \<not> written then give_up L m2 skip else
      receive_output_result L fd p (word_of_nat (length v)) ?again)) e'
      (receiving p fd (c @ ?t @ t) (v @ ?rest) d s) Q" if "evolve e0 e'" for e' m2
    unfolding ok_bind
    apply (rule c_fwrite_ok [OF that])
     apply (simp split del: if_split)
     apply (rule receive_output_result_ok [OF _ log fd len(2) _ prems(7)], assumption)
     apply (unfold append_assoc, rule again, assumption, assumption, simp)
    apply (auto simp: ok_simps intro!: give_up_ok [OF _ log] bad)
    done
  have body: "ok (seq_io (assert_c True) (
      bind_io (c_fwrite p ?t) (\<lambda>written. if \<not> written then give_up L m1 skip else
      receive_output_token L fd p (word_of_nat (length t)) (
      bind_io (c_fwrite p ?v) (\<lambda>written. if \<not> written then give_up L m2 skip else
      receive_output_result L fd p (word_of_nat (length v)) ?again))))) e'
      (receiving p fd c (t @ v @ ?rest) d s) Q" if "evolve e0 e'" for e' m1 m2
    apply (simp only: ok_simps simp_thms)
    apply (rule c_fwrite_ok [OF that])
     apply (simp split del: if_split)
     apply (rule receive_output_token_ok [OF _ log fd len(1) _ prems(7)], assumption)
     apply (use result in simp)
    apply (auto simp: ok_simps intro!: give_up_ok [OF _ log] bad)
    done
  show ?case
    unfolding n receive_output_loop.simps(2) stream
  proof (rule read_exact_ok [OF prems(1) fd, where xs = ?h and rest = "t @ v @ ?rest"])
    fix e' assume "evolve e0 e'"
    from body [OF this]
    show "ok (case (int 16, ?h @ drop 16 mem) of (bytes_read, header_mem) \<Rightarrow>
       if bytes_read = 0 then receive_output_end L else
       seq_io (assert_c (bytes_read = int 16)) (
       let header = dec_result_header header_mem in
       bind_io (c_fwrite p (enc_size (rh_token_length header))) (\<lambda>written.
       if \<not> written then give_up L m1 skip else
       receive_output_token L fd p (rh_token_length header) (
       bind_io (c_fwrite p (enc_size (rh_result_size header))) (\<lambda>written.
       if \<not> written then give_up L m2 skip else
       receive_output_result L fd p (rh_result_size header) (
       receive_output_loop n L fd p header_mem)))))) e'
       (put_rd fd (t @ v @ ?rest) (receiving p fd c (?h @ t @ v @ ?rest) d s)) Q" for m1 m2
      using prems(6) by (simp add: Let_def cong: if_cong split del: if_split)
  next
    fix e' m assume "evolve e0 e'" "faulty e0"
    then show "ok (give_up L m3 skip) e' (put_rd fd (drop m (rds (receiving p fd c (?h @ t @ v @ ?rest) d s) fd))
        (receiving p fd c (?h @ t @ v @ ?rest) d s)) (\<lambda>_. Q (-1))" for m3
      by (auto simp: ok_simps intro!: give_up_ok [OF _ log] bad)
  qed (use prems(6) in simp_all)
qed

lemma results_bytes_long: "length xs \<le> length (results_bytes xs)"
  by (induction xs) (auto simp: results_bytes_def result_bytes_def)

lemma receive_output_ok:
  assumes ev: "evolve e0 e" and log: "log_ready L e0" and fd: "0 \<le> fd"
    and stream: "rds s fd = results_bytes xs" and small: "\<forall>x \<in> set xs. small_result x"
    and nd: "\<not> is_dir_node (files s p)"
    and Q: "outputs e0 p fd [] xs 0 s Q"
  shows "ok (receive_output_from_reducer L fd p) e s Q"
proof -
  have loop: "ok (receive_output_loop (Suc (length (rds s fd))) L fd p (fresh_block e'' 16)) e'
      (s\<lparr>files := (files s)(p \<mapsto> Reg []), handles := handles s + 1\<rparr>) Q" if "evolve e0 e'" for e' e''
  proof -
    have "receiving p fd [] (results_bytes xs) 0 s = s\<lparr>files := (files s)(p \<mapsto> Reg []), handles := handles s + 1\<rparr>"
      by (rule state.equality) (simp_all add: stream [symmetric])
    then show ?thesis
    using receive_output_loop_ok [OF that log fd small _ _ Q, of "Suc (length (rds s fd))" "fresh_block e'' 16"]
      results_bytes_long [of xs] stream
      by (simp del: receive_output_loop.simps)
  qed
  show ?thesis
    unfolding receive_output_from_reducer_def
    apply (simp only: ok_simps fd simp_thms ok_SYSCALL_RET_CHECK)
    apply (rule mr_log_ok [OF ev log])
     apply (simp add: c_fopen_write_def ok_simps del: receive_output_loop.simps split del: if_split)
     apply (rule ask_ok, assumption)
      apply (use loop in \<open>simp add: ok_simps nd del: receive_output_loop.simps\<close>)
     apply (auto simp: ok_simps nd intro!: log_error_ok [OF _ log] outputs_bad [OF Q])
    done
qed

section \<open>Properties\<close>

text \<open>C8. \<open>receive_output_from_reducer\<close> on the stream of a list of results: it returns 0 and the
  output file holds exactly their records, in order, or -1 after a failed call; the file is closed
  either way. The number of heap blocks it has more at the end than at the start is at most the
  number of results of size 0.\<close>

theorem receive_output_records:
  fixes s :: "'s state_scheme"
  assumes "log_ready L e" and "0 \<le> fd" and "rds s fd = results_bytes xs"
    and "\<forall>x \<in> set xs. small_result x" and "\<not> is_dir_node (files s p)"
  shows "ok (receive_output_from_reducer L fd p) e s (\<lambda>r e' s'.
    (r = 0 \<and> rds s' fd = [] \<and> files s' = (files s)(p \<mapsto> Reg (output_bytes xs)) \<or> r = -1 \<and> faulty e) \<and>
    handles s' = handles s \<and> wrs s' = wrs s \<and>
    live s \<le> live s' \<and> live s' \<le> live s + int (empties xs))"
  by (rule receive_output_ok [OF evolve_refl assms]) (auto simp: outputs_def)

definition example_results :: "(byte list \<times> byte list) list" where
  "example_results = [([97], [1, 0]), ([98, 98], [])]"

theorem receive_output_records_witness:
  "ok (receive_output_from_reducer example_log 3 [111]) (example_env [Part 0, Part 5])
     (example_state (results_bytes example_results)) (\<lambda>r e' s'. r = 0 \<and>
       files s' [111] = Some (Reg (output_bytes example_results)) \<and> handles s' = 0)"
  by (rule ok_mono [OF receive_output_records [where xs = example_results]])
     (auto simp: small_result_def is_dir_node_def, auto simp: example_results_def)

text \<open>C31. Every result of size 0 costs a heap block: the block of \<open>malloc(0)\<close> is freed only in the
  branch for a positive size, so when no call fails exactly as many blocks are lost as there are
  empty results.\<close>

theorem receive_output_leaks_empty_results:
  fixes s :: "'s state_scheme"
  assumes "log_ready L e" and "0 \<le> fd" and "rds s fd = results_bytes xs"
    and "\<forall>x \<in> set xs. small_result x" and "\<not> is_dir_node (files s p)" and "\<not> faulty e"
  shows "ok (receive_output_from_reducer L fd p) e s (\<lambda>r e' s'.
    r = 0 \<and> live s' = live s + int (empties xs))"
  by (rule receive_output_ok [OF evolve_refl assms(1-5)]) (use assms(6) in \<open>auto simp: outputs_def\<close>)

theorem receive_output_leaks_empty_results_witness:
  "ok (receive_output_from_reducer example_log 3 [111]) (example_env [])
     (example_state (results_bytes example_results)) (\<lambda>r e' s'. r = 0 \<and> live s' = 1)"
  by (rule ok_mono [OF receive_output_leaks_empty_results [where xs = example_results]])
     (auto simp: small_result_def is_dir_node_def, auto simp: example_results_def)

end
