(* ===== verification/Mr_Word_Count.thy ===== *)
theory Mr_Word_Count
  imports Mr_Mapper Mr_Reducer_Process Mr_Output
begin

text \<open>
  The word count of \<open>src/examples/word_count/main.c\<close>: its mapper, its reducer and the function that
  prints the output file, against a reference definition of the words of a line.
\<close>

section \<open>The mapper\<close>

text \<open>\<open>isalnum\<close> and \<open>tolower\<close> in the C locale.\<close>

definition is_upper :: "byte \<Rightarrow> bool" where
  "is_upper c \<longleftrightarrow> 65 \<le> c \<and> c \<le> 90"

definition isalnum_c :: "byte \<Rightarrow> bool" where
  "isalnum_c c \<longleftrightarrow> 48 \<le> c \<and> c \<le> 57 \<or> is_upper c \<or> 97 \<le> c \<and> c \<le> 122"

definition tolower_c :: "byte \<Rightarrow> byte" where
  "tolower_c c = (if is_upper c then c + 32 else c)"

text \<open>The two inner loops: move \<open>cur\<close> up to \<open>end_pos\<close> while the characters satisfy \<open>P\<close>.\<close>

function scan :: "(byte \<Rightarrow> bool) \<Rightarrow> byte list \<Rightarrow> nat \<Rightarrow> nat \<Rightarrow> nat" where
  "scan P buf end_pos cur = (if cur < end_pos \<and> P (buf ! cur) then scan P buf end_pos (Suc cur) else cur)"
  by auto
termination by (relation "measure (\<lambda>(_, _, end_pos, cur). end_pos - cur)") auto

declare scan.simps [simp del]

text \<open>The copying loop, into the block \<open>token\<close>.\<close>

definition copy_lower :: "byte list \<Rightarrow> nat \<Rightarrow> nat \<Rightarrow> byte list \<Rightarrow> byte list" where
  "copy_lower buf token_start token_len token =
     (foldl (\<lambda>token i. token[i := tolower_c (buf ! (token_start + i))]) token [0..<token_len])[token_len := 0]"

text \<open>The outer loop; \<open>c\<close> is the counter of the emit function. A round that goes on has moved \<open>cur\<close>.\<close>

primrec word_count_loop ::
    "nat \<Rightarrow> (pair_msg \<Rightarrow> size_t \<Rightarrow> ('s, int \<times> size_t) proc) \<Rightarrow> byte list \<Rightarrow> nat \<Rightarrow> nat \<Rightarrow> size_t \<Rightarrow> ('s, int \<times> size_t) proc" where
  "word_count_loop 0 emit_fn buf end_pos cur c = stop_io Out_Of_Fuel"
| "word_count_loop (Suc n) emit_fn buf end_pos cur c =
     (if \<not> cur < end_pos then return_io (0, c) else
      let cur = scan (\<lambda>x. \<not> isalnum_c x) buf end_pos cur in
      if end_pos \<le> cur then return_io (0, c) else
      let token_start = cur; cur = scan isalnum_c buf end_pos cur; token_len = cur - token_start in
      bind_io (c_malloc (token_len + 1)) (\<lambda>token.
      if token = None then return_io (-1, c) else
      bind_io (emit_fn (copy_lower buf token_start token_len (the token), None, 0) c) (\<lambda>(r, c).
      if r = -1 then seq_io (c_free token) (return_io (-1, c)) else
      seq_io (c_free token) (word_count_loop n emit_fn buf end_pos cur c))))"

definition word_count_mapper ::
    "(pair_msg \<Rightarrow> size_t \<Rightarrow> ('s, int \<times> size_t) proc) \<Rightarrow> mr_file_line_t \<Rightarrow> size_t \<Rightarrow> ('s, int \<times> size_t) proc" where
  "word_count_mapper emit_fn ln c =
     seq_io (defined_c (\<exists>buf. line ln = Some buf \<and> unat (line_len ln) \<le> length buf)) (
     word_count_loop (Suc (unat (line_len ln))) emit_fn (the (line ln)) (unat (line_len ln)) 0 c)"

section \<open>The words of a buf\<close>

text \<open>The reference: cut at every character that is not alphanumeric, drop the empty parts.\<close>

primrec cut_words :: "byte list \<Rightarrow> byte list list" where
  "cut_words [] = [[]]"
| "cut_words (c # cs) =
     (if isalnum_c c then (c # hd (cut_words cs)) # tl (cut_words cs) else [] # cut_words cs)"

definition words_of :: "byte list \<Rightarrow> byte list list" where
  "words_of buf = map (map tolower_c) (filter (\<lambda>w. w \<noteq> []) (cut_words buf))"

lemma cut_words_not_Nil [simp]: "cut_words cs \<noteq> []"
  by (induction cs) auto

lemma cut_words_skip: "\<forall>c \<in> set a. \<not> isalnum_c c \<Longrightarrow> filter (\<lambda>w. w \<noteq> []) (cut_words (a @ ys)) = filter (\<lambda>w. w \<noteq> []) (cut_words ys)"
  by (induction a) auto

lemma cut_words_word: "\<forall>c \<in> set w. isalnum_c c \<Longrightarrow> ys = [] \<or> \<not> isalnum_c (hd ys) \<Longrightarrow>
    cut_words (w @ ys) = w # (if ys = [] then [] else cut_words (tl ys))"
  by (induction w) (auto simp: neq_Nil_conv)

lemma words_of_skip: "words_of (dropWhile (\<lambda>c. \<not> isalnum_c c) xs) = words_of xs"
proof -
  have "\<forall>c \<in> set (takeWhile (\<lambda>c. \<not> isalnum_c c) xs). \<not> isalnum_c c" by (auto dest: set_takeWhileD)
  from cut_words_skip [OF this, of "dropWhile (\<lambda>c. \<not> isalnum_c c) xs"] show ?thesis
    by (simp add: words_of_def)
qed

lemma words_of_Nil [simp]: "words_of [] = []"
  by (simp add: words_of_def)

lemma words_of_word:
  assumes "xs \<noteq> []" and "isalnum_c (hd xs)"
  shows "words_of xs = map tolower_c (takeWhile isalnum_c xs) # words_of (dropWhile isalnum_c xs)"
proof -
  obtain w r where w: "w = takeWhile isalnum_c xs" and r: "r = dropWhile isalnum_c xs" by blast
  have "\<forall>c \<in> set w. isalnum_c c" and rest: "r = [] \<or> \<not> isalnum_c (hd r)"
    unfolding w r using hd_dropWhile [of isalnum_c xs] by (auto dest: set_takeWhileD)
  from cut_words_word [OF this] have "cut_words xs = w # (if r = [] then [] else cut_words (tl r))" by (simp add: w r)
  moreover have "w \<noteq> []" using assms by (cases xs) (auto simp: w)
  ultimately have "words_of xs = map tolower_c w # words_of r"
    using rest by (cases r) (simp_all add: words_of_def)
  then show ?thesis by (simp add: w r)
qed

lemma isalnum_nonzero: "isalnum_c c \<Longrightarrow> tolower_c c \<noteq> 0"
proof
  assume alnum: "isalnum_c c" and z: "tolower_c c = 0"
  show False
  proof (cases "is_upper c")
    case True
    then have "c = -32" using z by (simp add: tolower_c_def eq_neg_iff_add_eq_0)
    then show False using True by (simp add: is_upper_def)
  next
    case False
    then show False using alnum z by (simp add: tolower_c_def isalnum_c_def)
  qed
qed

lemma cut_words_alnum: "\<forall>w \<in> set (cut_words xs). \<forall>c \<in> set w. isalnum_c c"
proof (induction xs)
  case (Cons x xs)
  then show ?case by (cases "cut_words xs") auto
qed simp

lemma words_of_nonzero: "w \<in> set (words_of xs) \<Longrightarrow> w \<noteq> [] \<and> 0 \<notin> set w"
  unfolding words_of_def using cut_words_alnum isalnum_nonzero by fastforce

lemma cut_words_length: "\<forall>w \<in> set (cut_words xs). length w \<le> length xs"
proof (induction xs)
  case (Cons x xs)
  then show ?case by (cases "cut_words xs") auto
qed simp

lemma words_of_length: "w \<in> set (words_of xs) \<Longrightarrow> length w \<le> length xs"
  using cut_words_length by (auto simp: words_of_def)

section \<open>The loops compute the words\<close>

lemma scan_eq:
  assumes "cur \<le> end_pos" and "end_pos \<le> length buf"
  shows "scan P buf end_pos cur = cur + length (takeWhile P (drop cur (take end_pos buf)))"
  using assms
proof (induction P buf end_pos cur rule: scan.induct)
  case (1 P buf end_pos cur)
  show ?case
  proof (cases "cur < end_pos")
    case True
    then have "drop cur (take end_pos buf) = buf ! cur # drop (Suc cur) (take end_pos buf)"
      using 1(3) by (simp add: Cons_nth_drop_Suc [symmetric])
    then show ?thesis using 1 True by (subst scan.simps) auto
  qed (use 1 in \<open>simp add: scan.simps\<close>)
qed

lemma foldl_update: "n \<le> length b \<Longrightarrow> foldl (\<lambda>t i. t[i := f i]) b [0..<n] = map f [0..<n] @ drop n b"
proof (induction n)
  case (Suc n)
  then have "foldl (\<lambda>t i. t[i := f i]) b [0..<Suc n] = (map f [0..<n] @ drop n b)[n := f n]" by simp
  also have "\<dots> = map f [0..<Suc n] @ drop (Suc n) b"
    using Suc.prems by (simp add: list_update_append Cons_nth_drop_Suc [symmetric])
  finally show ?case .
qed simp

lemma copy_lower_eq:
  assumes "length token = len + 1" and "token_start + len \<le> length buf"
  shows "copy_lower buf token_start len token = map tolower_c (take len (drop token_start buf)) @ [0]"
proof -
  have "map (\<lambda>i. tolower_c (buf ! (token_start + i))) [0..<len] = map tolower_c (take len (drop token_start buf))"
    using assms(2) by (intro nth_equalityI) auto
  moreover have "drop len token = [token ! len]"
    using assms(1) by (metis Cons_nth_drop_Suc add.commute drop_all le_refl less_add_one plus_1_eq_Suc)
  ultimately show ?thesis
    unfolding copy_lower_def using assms(1) foldl_update [of len token "\<lambda>i. tolower_c (buf ! (token_start + i))"]
    using assms(2) by (simp add: list_update_append)
qed

section \<open>What the mapper emits\<close>

abbreviation word_msg :: "byte list \<Rightarrow> pair_msg" where
  "word_msg w \<equiv> (w @ [0], None, 0)"

lemma word_msg_sendable: "0 \<notin> set w \<Longrightarrow> length w < SSIZE_LIMIT \<Longrightarrow> sendable_msg (word_msg w)"
  by (simp add: sendable_def is_cstr_def)

lemma word_msg_bytes: "0 \<notin> set w \<Longrightarrow> pair_msg_bytes (word_msg w) = pair_bytes w []"
  by (simp add: pair_msg_bytes_def payload_def)

text \<open>The part of the line that is still to be read.\<close>

abbreviation rest_of :: "byte list \<Rightarrow> nat \<Rightarrow> nat \<Rightarrow> byte list" where
  "rest_of buf end_pos cur \<equiv> drop cur (take end_pos buf)"

text \<open>The next word of the line, between the two scans, and what comes after it.\<close>

lemma scan_end:
  assumes "cur \<le> end_pos" and len: "end_pos \<le> length buf" and i: "i = scan (\<lambda>x. \<not> isalnum_c x) buf end_pos cur"
  shows "cur \<le> i" and "i \<le> end_pos"
    and "rest_of buf end_pos i = dropWhile (\<lambda>x. \<not> isalnum_c x) (rest_of buf end_pos cur)"
    and "\<not> i < end_pos \<Longrightarrow> words_of (rest_of buf end_pos cur) = []"
proof -
  let ?xs = "rest_of buf end_pos cur"
  have i_eq: "i = cur + length (takeWhile (\<lambda>x. \<not> isalnum_c x) ?xs)" unfolding i by (rule scan_eq [OF assms(1) len])
  have "length (takeWhile (\<lambda>x. \<not> isalnum_c x) ?xs) \<le> length ?xs" by (rule length_takeWhile_le)
  then show le: "cur \<le> i" "i \<le> end_pos" using i_eq assms(1) len by auto
  show ys: "rest_of buf end_pos i = dropWhile (\<lambda>x. \<not> isalnum_c x) ?xs"
    by (simp add: i_eq dropWhile_eq_drop add.commute)
  show "words_of ?xs = []" if "\<not> i < end_pos"
    using words_of_skip [of ?xs] that le by (simp only: ys [symmetric]) simp
qed

lemma scan_word:
  assumes "cur \<le> end_pos" and len: "end_pos \<le> length buf" and i: "i = scan (\<lambda>x. \<not> isalnum_c x) buf end_pos cur"
    and j: "j = scan isalnum_c buf end_pos i" and "i < end_pos"
  obtains w where "i < j" and "j \<le> end_pos" and "length w = j - i"
    and "words_of (rest_of buf end_pos cur) = w # words_of (rest_of buf end_pos j)"
    and "\<forall>b. length b = j - i + 1 \<longrightarrow> copy_lower buf i (j - i) b = w @ [0]"
proof
  let ?xs = "rest_of buf end_pos cur" and ?ys = "rest_of buf end_pos i"
  note first = scan_end [OF assms(1-3)]
  have ne: "?ys \<noteq> []" "isalnum_c (hd ?ys)"
    using assms(5) len hd_dropWhile [of "\<lambda>x. \<not> isalnum_c x" ?xs] by (simp_all add: first(3) [symmetric])
  have j_eq: "j = i + length (takeWhile isalnum_c ?ys)" unfolding j by (rule scan_eq [OF first(2) len])
  have "length (takeWhile isalnum_c ?ys) \<le> length ?ys" by (rule length_takeWhile_le)
  moreover have "0 < length (takeWhile isalnum_c ?ys)" using ne by (simp add: takeWhile_eq_Nil_iff)
  moreover have "length ?ys = end_pos - i" using len by simp
  ultimately show le: "i < j" "j \<le> end_pos" using j_eq first(2) by linarith+
  show "length (map tolower_c (takeWhile isalnum_c ?ys)) = j - i" by (simp add: j_eq)
  have "words_of ?xs = words_of ?ys" by (simp only: first(3) words_of_skip)
  also have "\<dots> = map tolower_c (takeWhile isalnum_c ?ys) # words_of (dropWhile isalnum_c ?ys)" by (rule words_of_word [OF ne])
  also have "dropWhile isalnum_c ?ys = rest_of buf end_pos j" by (simp add: j_eq dropWhile_eq_drop add.commute)
  finally show "words_of ?xs = map tolower_c (takeWhile isalnum_c ?ys) # words_of (rest_of buf end_pos j)" .
  show "\<forall>b. length b = j - i + 1 \<longrightarrow> copy_lower buf i (j - i) b = map tolower_c (takeWhile isalnum_c ?ys) @ [0]"
  proof (intro allI impI)
    fix b :: "byte list" assume that: "length b = j - i + 1"
    have "takeWhile isalnum_c ?ys = take (j - i) ?ys" using takeWhile_eq_take [of isalnum_c ?ys] j_eq by simp
    also have "\<dots> = take (j - i) (drop i buf)" using le by (simp add: drop_take min_def)
    finally show "copy_lower buf i (j - i) b = map tolower_c (takeWhile isalnum_c ?ys) @ [0]"
      using copy_lower_eq [of b "j - i" i buf] that le len by simp
  qed
qed

lemma word_count_loop_ok:
  assumes "evolve e0 e" and log: "log_ready L e0" and "cur \<le> end_pos" and len: "end_pos \<le> length buf"
    and small: "end_pos < SSIZE_LIMIT" and "end_pos - cur < n"
    and "\<And>e'. evolve e0 e' \<Longrightarrow> Q (0, c + word_of_nat (length (words_of (rest_of buf end_pos cur)))) e'
      (add_wr STDOUT_FILENO (concat (map (\<lambda>w. pair_bytes w []) (words_of (rest_of buf end_pos cur)))) s)"
    and bad: "\<And>e' w c'. evolve e0 e' \<Longrightarrow> faulty e0 \<Longrightarrow> Q (-1, c') e' (add_wr STDOUT_FILENO w s)"
  shows "ok (word_count_loop n (mapper_emit L) buf end_pos cur c) e s Q"
  using assms(1,3,6,7,8)
proof (induction n arbitrary: e s c cur)
  case (Suc n)
  note ev = Suc.prems(1) and good = Suc.prems(4) and bad = Suc.prems(5)
  define i where "i = scan (\<lambda>x. \<not> isalnum_c x) buf end_pos cur"
  define j where "j = scan isalnum_c buf end_pos i"
  note i_le = scan_end [OF Suc.prems(2) len i_def]
  show ?case
  proof (cases "i < end_pos")
    case False
    then show ?thesis
      using good [OF ev] i_le by (simp add: i_def [symmetric] Let_def ok_simps)
  next
    case True
    let ?ws = "words_of (rest_of buf end_pos j)"
    obtain w where j_le: "i < j" "j \<le> end_pos" and w_len: "length w = j - i"
      and ws: "words_of (rest_of buf end_pos cur) = w # ?ws"
      and copied: "\<forall>b. length b = j - i + 1 \<longrightarrow> copy_lower buf i (j - i) b = w @ [0]"
      by (rule scan_word [OF Suc.prems(2) len i_def j_def True])
    have "w \<in> set (words_of (rest_of buf end_pos cur))" by (simp add: ws)
    then have w: "0 \<notin> set w" using words_of_nonzero by blast
    have "length w < SSIZE_LIMIT" using w_len j_le small by simp
    note sendable = word_msg_sendable [OF w this]
    have free: "ok (if r = (-1 :: int) then seq_io (c_free (Some b)) (return_io (-1, c')) else
        seq_io (c_free (Some b)) (word_count_loop n (mapper_emit L) buf end_pos j c')) e' (add_wr 1 bs (s\<lparr>live := live s + 1\<rparr>)) Q"
      if "evolve e0 e'" "r = 0 \<and> c' = c + 1 \<and> bs = pair_bytes w [] \<or> r = -1 \<and> faulty e0" for r c' bs b e'
    proof (cases "r = -1")
      case True
      have "faulty e0" using that(2) True by auto
      from bad [OF that(1) this, of c' bs] show ?thesis using True by (simp add: ok_simps fun_upd_def cong: if_cong)
    next
      case False
      then have r: "c' = c + 1" "bs = pair_bytes w []" using that(2) by auto
      have "ok (word_count_loop n (mapper_emit L) buf end_pos j c') e' (add_wr 1 bs s) Q"
      proof (rule Suc.IH [OF that(1) j_le(2)])
        show "end_pos - j < n" using Suc.prems(3) j_le i_le by linarith
      next
        fix e'' assume "evolve e0 e''"
        from good [OF this] show "Q (0, c' + word_of_nat (length ?ws)) e''
            (add_wr 1 (concat (map (\<lambda>w. pair_bytes w []) ?ws)) (add_wr 1 bs s))"
          by (simp add: ws r algebra_simps fun_upd_def cong: if_cong)
      next
        fix e'' bs' c'' assume "evolve e0 e''" "faulty e0"
        from bad [OF this, of c'' "bs @ bs'"] show "Q (-1, c'') e'' (add_wr 1 bs' (add_wr 1 bs s))"
          by (simp add: fun_upd_def cong: if_cong)
      qed
      then show ?thesis using False by (simp add: ok_simps)
    qed
    have loop: "word_count_loop (Suc n) (mapper_emit L) buf end_pos cur c = bind_io (c_malloc (j - i + 1)) (\<lambda>token.
        if token = None then return_io (-1, c) else
        bind_io (mapper_emit L (copy_lower buf i (j - i) (the token), None, 0) c) (\<lambda>(r, c).
        if r = -1 then seq_io (c_free token) (return_io (-1, c)) else
        seq_io (c_free token) (word_count_loop n (mapper_emit L) buf end_pos j c)))"
      using True i_le by (simp add: Let_def i_def [symmetric] j_def [symmetric] cong: if_cong)
    show ?thesis
      unfolding loop ok_bind
    proof (rule c_malloc_ok [OF ev])
      fix e' and b :: "byte list" assume e': "evolve e0 e'" and b: "length b = j - i + 1"
      have "ok (mapper_emit L (word_msg w) c) e' (s\<lparr>live := live s + 1\<rparr>) (\<lambda>x e' s'.
          ok (case x of (r, c) \<Rightarrow> if r = -1 then seq_io (c_free (Some b)) (return_io (-1, c)) else
            seq_io (c_free (Some b)) (word_count_loop n (mapper_emit L) buf end_pos j c)) e' s' Q)"
        by (rule pairs.emit_ok [OF e' log sendable]; unfold prod.case word_msg_bytes [OF w]; rule free; simp)
      then show "ok (if Some b = None then return_io (-1, c) else
          bind_io (mapper_emit L (copy_lower buf i (j - i) (the (Some b)), None, 0) c) (\<lambda>(r, c).
          if r = -1 then seq_io (c_free (Some b)) (return_io (-1, c)) else
          seq_io (c_free (Some b)) (word_count_loop n (mapper_emit L) buf end_pos j c))) e' (s\<lparr>live := live s + 1\<rparr>) Q"
        by (simp add: ok_bind copied b)
    next
      fix e' assume "evolve e0 e'" "faulty e0"
      from bad [OF this, of c "[]"] show "ok (if None = None then return_io (-1, c) else
          bind_io (mapper_emit L (copy_lower buf i (j - i) (the None), None, 0) c) (\<lambda>(r, c).
          if r = -1 then seq_io (c_free (None :: byte list option)) (return_io (-1, c)) else
          seq_io (c_free None) (word_count_loop n (mapper_emit L) buf end_pos j c))) e' s Q"
        by (simp add: ok_simps)
    qed
  qed
qed simp

text \<open>The calls of the mapper as a user's function of the pool: its words in order, up to a failing emit.\<close>

primrec emit_all :: "'m list \<Rightarrow> 'm script" where
  "emit_all [] = Return 0"
| "emit_all (m # ms) = Emit m (\<lambda>r. if r = -1 then Return (-1) else emit_all ms)"

lemma emit_all_simps [simp]: "msgs (emit_all ms) = ms" "result (emit_all ms) = 0"
  by (induction ms) auto

text \<open>The text of a line.\<close>

definition line_text :: "mr_file_line_t \<Rightarrow> byte list" where
  "line_text ln = take (unat (line_len ln)) (the (line ln))"

definition word_count_script :: "mr_file_line_t \<Rightarrow> pair_msg script" where
  "word_count_script ln = emit_all (map word_msg (words_of (line_text ln)))"

definition line_ok :: "mr_file_line_t \<Rightarrow> bool" where
  "line_ok ln \<longleftrightarrow> (\<exists>buf. line ln = Some buf \<and> unat (line_len ln) \<le> length buf) \<and> unat (line_len ln) < SSIZE_LIMIT"

text \<open>C14. The mapper is equivalent to the reference: on every line it emits exactly the words of the line, cut at
  the characters that are not alphanumeric and in lower case, in order and each with an empty value;
  it frees every token it allocates, and returns -1 only after a failed call.\<close>

theorem word_count_mapper_words:
  assumes "log_ready L e" and "line_ok ln"
  shows "ok (word_count_mapper (mapper_emit L) ln c) e s (\<lambda>(r, c') e' s'. live s' = live s \<and>
    (r = 0 \<and> c' = c + word_of_nat (length (words_of (line_text ln))) \<and>
       s' = add_wr STDOUT_FILENO (concat (map (\<lambda>w. pair_bytes w []) (words_of (line_text ln)))) s \<or>
     r = -1 \<and> faulty e))"
proof -
  obtain buf where buf: "line ln = Some buf" "unat (line_len ln) \<le> length buf" "unat (line_len ln) < SSIZE_LIMIT"
    using assms(2) by (auto simp: line_ok_def)
  have "ok (word_count_loop (Suc (unat (line_len ln))) (mapper_emit L) buf (unat (line_len ln)) 0 c) e s (\<lambda>(r, c') e' s'. live s' = live s \<and>
    (r = 0 \<and> c' = c + word_of_nat (length (words_of (line_text ln))) \<and>
       s' = add_wr STDOUT_FILENO (concat (map (\<lambda>w. pair_bytes w []) (words_of (line_text ln)))) s \<or>
     r = -1 \<and> faulty e))"
    by (rule word_count_loop_ok [OF evolve_refl assms(1) _ buf(2,3)]) (auto simp: line_text_def buf(1))
  then show ?thesis using buf by (simp add: word_count_mapper_def ok_simps)
qed

definition example_line :: mr_file_line_t where
  "example_line = \<lparr>file_name = Some [105, 0], file_name_len = 1, line_number = 1,
     line = Some [72, 105, 44, 32, 104, 50, 33, 0], line_len = 7\<rparr>"

theorem word_count_mapper_words_witness:
  "words_of (line_text example_line) = [[104, 105], [104, 50]] \<and>
   ok (word_count_mapper (mapper_emit example_log) example_line 0) (example_env []) (example_state [])
     (\<lambda>(r, c') e' s'. r = 0 \<and> c' = 2 \<and> wrs s' 1 = pair_bytes [104, 105] [] @ pair_bytes [104, 50] [])"
proof
  show words: "words_of (line_text example_line) = [[104, 105], [104, 50]]"
    by (simp add: words_of_def line_text_def example_line_def isalnum_c_def is_upper_def tolower_c_def)
  show "ok (word_count_mapper (mapper_emit example_log) example_line 0) (example_env []) (example_state [])
     (\<lambda>(r, c') e' s'. r = 0 \<and> c' = 2 \<and> wrs s' 1 = pair_bytes [104, 105] [] @ pair_bytes [104, 50] [])"
    by (rule ok_mono [OF word_count_mapper_words])
       (auto simp: words line_ok_def, simp_all add: example_line_def example_state_def)
qed

section \<open>The reducer\<close>

definition word_count_reducer :: user_reducer where
  "word_count_reducer token vals values_count = Emit (token, Some (enc_size values_count), 8) (\<lambda>r. Return r)"

section \<open>Printing the results\<close>

text \<open>\<open>fopen\<close> with mode \<open>rb\<close>: what can be read, nothing of a directory.\<close>

definition c_fopen_rb :: "path \<Rightarrow> ('s, byte list option) proc" where
  "c_fopen_rb p =
     bind_io ask (\<lambda>a.
     bind_io (get_st (\<lambda>s. files s p)) (\<lambda>nd.
     if a = Fault \<or> nd = None then return_io None else
     seq_io (put_st (\<lambda>s. s\<lparr>handles := handles s + 1\<rparr>)) (return_io (Some (case the nd of Reg content \<Rightarrow> content | Dir _ \<Rightarrow> [])))))"

text \<open>\<open>fread\<close> of \<open>n\<close> bytes from position \<open>pos\<close>: \<open>None\<close> if they are not all there.\<close>

definition c_fread :: "byte list \<Rightarrow> nat \<Rightarrow> nat \<Rightarrow> ('s, byte list option \<times> nat) proc" where
  "c_fread content pos n =
     (if n = 0 then return_io (Some [], pos) else
      bind_io ask (\<lambda>a.
      if a = Fault then return_io (None, pos)
      else if pos + n \<le> length content then return_io (Some (take n (drop pos content)), pos + n)
      else return_io (None, max pos (length content))))"

text \<open>\<open>fseek(f, offset, SEEK_CUR)\<close>: the offset is a signed \<open>long\<close>; there is no position before the start.\<close>

definition c_fseek :: "nat \<Rightarrow> size_t \<Rightarrow> nat" where
  "c_fseek pos offset = (if int pos + sint offset < 0 then pos else nat (int pos + sint offset))"

text \<open>The lines the loop prints.\<close>

datatype shown = Count "byte list" size_t | Unknown_data "byte list"

primrec print_loop :: "nat \<Rightarrow> byte list \<Rightarrow> nat \<Rightarrow> shown list \<Rightarrow> ('s, shown list) proc" where
  "print_loop 0 content pos printed = stop_io Out_Of_Fuel"
| "print_loop (Suc n) content pos printed =
     bind_io (c_fread content pos 8) (\<lambda>(got, pos).
     if got = None then return_io printed else
     let token_len = dec_size (the got) in
     bind_io (c_malloc (unat (token_len + 1))) (\<lambda>token.
     if token = None then return_io printed else
     seq_io (defined_c (min (unat token_len) (length content - pos) \<le> unat (token_len + 1))) (
     bind_io (c_fread content pos (unat token_len)) (\<lambda>(got, pos).
     if got = None then seq_io (c_free token) (return_io printed) else
     let token_mem = the got @ [0] in
     bind_io (c_fread content pos 8) (\<lambda>(got, pos).
     if got = None then seq_io (c_free token) (return_io printed) else
     let result_size = dec_size (the got) in
     if result_size = 8 then
       bind_io (c_fread content pos 8) (\<lambda>(got, pos).
       if got = None then seq_io (c_free token) (return_io printed) else
       seq_io (c_free token) (print_loop n content pos (printed @ [Count (cstr token_mem) (dec_size (the got))])))
     else
       seq_io (c_free token) (print_loop n content (c_fseek pos result_size) (printed @ [Unknown_data (cstr token_mem)])))))))"

text \<open>The printed lines; \<open>None\<close> after a failed \<open>fopen\<close>. The loop may run for ever, so its rounds are bounded.\<close>

definition print_results :: "nat \<Rightarrow> path \<Rightarrow> ('s, shown list option) proc" where
  "print_results rounds p =
     bind_io (c_fopen_rb p) (\<lambda>f.
     if f = None then return_io None else
     bind_io (print_loop rounds (the f) 0 []) (\<lambda>printed.
     seq_io c_fclose (return_io (Some printed))))"

definition shown_of :: "byte list \<times> byte list \<Rightarrow> shown" where
  "shown_of = (\<lambda>(t, v). if length v = 8 then Count t (dec_size v) else Unknown_data t)"

lemma c_fread_ok:
  assumes "evolve e0 e" and "content = a @ bs @ b" and "pos = length a" and "n = length bs"
    and "\<And>e'. evolve e0 e' \<Longrightarrow> Q (Some bs, pos + n) e' s" and "\<And>e'. evolve e0 e' \<Longrightarrow> faulty e0 \<Longrightarrow> Q (None, pos) e' s"
  shows "ok (c_fread content pos n) e s Q"
proof (cases "n = 0")
  case True
  then show ?thesis using assms(4) assms(5) [OF assms(1)] by (simp add: c_fread_def ok_simps)
next
  case False
  then show ?thesis
    unfolding c_fread_def if_not_P [OF False] ok_bind
    by (intro ask_ok [OF assms(1)]) (use assms(5,6) in \<open>simp_all add: ok_simps assms(2-4)\<close>)
qed

text \<open>A proper record: sizes that fit, and a token without a NUL.\<close>

definition printable :: "byte list \<times> byte list \<Rightarrow> bool" where
  "printable x \<longleftrightarrow> small_result x \<and> 0 \<notin> set (fst x)"

lemma print_loop_ok:
  assumes "evolve e0 e" and "list_all printable xs" and "length xs < n"
    and "content = a @ output_bytes xs" and "pos = length a"
    and "\<And>e'. evolve e0 e' \<Longrightarrow> Q (printed @ map shown_of xs) e' s"
    and "\<And>e' ys. evolve e0 e' \<Longrightarrow> faulty e0 \<Longrightarrow> prefix ys (map shown_of xs) \<Longrightarrow> Q (printed @ ys) e' s"
  shows "ok (print_loop n content pos printed) e s Q"
  using assms
proof (induction xs arbitrary: e a pos printed n)
  case Nil
  have short: "ok (c_fread content pos 8) e s (\<lambda>r e' s'. fst r = None \<and> s' = s \<and> evolve e0 e')"
    unfolding c_fread_def using Nil.prems(1,4,5) by (auto simp: ok_simps intro!: ask_ok)
  obtain m where n: "n = Suc m" using Nil.prems(3) by (cases n) auto
  show ?case
    unfolding n print_loop.simps ok_bind
    by (rule ok_mono [OF short]) (use Nil.prems(6) in \<open>auto simp: ok_simps\<close>)
next
  case (Cons x xs)
  obtain t v where x: "x = (t, v)" by (cases x)
  obtain m where n: "n = Suc m" using Cons.prems(3) by (cases n) auto
  note ev = Cons.prems(1) and good = Cons.prems(6) and bad = Cons.prems(7)
  have sizes: "length t < SSIZE_LIMIT" "length v < SSIZE_LIMIT" "0 \<notin> set t"
    using Cons.prems(2) by (auto simp: printable_def small_result_def x)
  let ?tl = "word_of_nat (length t) :: size_t" and ?vl = "word_of_nat (length v) :: size_t"
  let ?tail = "output_bytes xs"
  have content: "content = a @ enc_size ?tl @ (t @ enc_size ?vl @ v @ ?tail)"
      "content = (a @ enc_size ?tl) @ t @ (enc_size ?vl @ v @ ?tail)"
      "content = (a @ enc_size ?tl @ t) @ enc_size ?vl @ (v @ ?tail)"
      "content = (a @ enc_size ?tl @ t @ enc_size ?vl) @ v @ ?tail"
    using Cons.prems(4) by (simp_all add: x output_record_def)
  have unats: "unat ?tl = length t" "unat (?tl + 1) = Suc (length t)" "?vl = 8 \<longleftrightarrow> length v = 8"
    using sizes unat_size_succ [of "length t"] unat_of_nat_small [of "length v"] by (auto simp: word_unat_eq_iff)
  let ?p1 = "length a + 8" and ?p2 = "length a + 8 + length t" and ?p3 = "length a + 8 + length t + 8"
  have seek: "c_fseek ?p3 ?vl = ?p3 + length v"
    using ssize_small [OF sizes(2)] by (simp add: c_fseek_def ssize_def nat_add_distrib)
  have shown: "shown_of x = (if length v = 8 then Count t (dec_size v) else Unknown_data t)"
    by (simp add: shown_of_def x)
  have again: "ok (print_loop m content q (printed @ [shown_of x])) e' s Q" if e': "evolve e0 e'" and q: "q = ?p3 + length v" for e' q
  proof (rule Cons.IH [OF e'])
      show "content = (a @ output_record x) @ ?tail" using Cons.prems(4) by simp
    next
      fix e'' assume "evolve e0 e''"
      from good [OF this] show "Q ((printed @ [shown_of x]) @ map shown_of xs) e'' s" by simp
    next
      fix e'' ys assume "evolve e0 e''" "faulty e0" "prefix ys (map shown_of xs)"
      from bad [OF this(1,2), of "shown_of x # ys"] this(3) show "Q ((printed @ [shown_of x]) @ ys) e'' s" by simp
  qed (use Cons.prems(2,3) n q in \<open>simp_all add: x output_record_def\<close>)
  have stop: "Q printed e' s" if "evolve e0 e'" "faulty e0" for e'
    using bad [OF that, of "[]"] by simp
  show ?case
    unfolding n print_loop.simps ok_bind Cons.prems(5)
    apply (rule c_fread_ok [OF ev content(1) refl]; simp add: Let_def ok_bind unats stop ok_simps)
    apply (erule c_malloc_ok; simp add: ok_bind unats stop ok_simps)
    apply (rule conjI, simp)
    apply (erule c_fread_ok [OF _ content(2)]; simp add: Let_def ok_bind unats stop ok_simps)
    apply (erule c_fread_ok [OF _ content(3)]; simp add: Let_def ok_bind unats stop ok_simps)
    apply (rule conjI; rule impI)
     apply (erule c_fread_ok [OF _ content(4)]; simp add: Let_def ok_bind unats stop ok_simps)
    subgoal premises p for b e''
    proof -
      have "24 + (length a + length t) = ?p3 + length v" using p(2) by simp
      then show ?thesis using again [OF p(3)] p(2) sizes(3) by (simp add: shown)
    qed
    subgoal premises p for b e''
    proof -
      have "?p3 = 16 + (length a + length t)" by simp
      then show ?thesis using again [OF p(2) seek] p(3) sizes(3) by (simp add: shown)
    qed
    done
qed

lemma print_results_ok:
  assumes "evolve e0 e" and "files s p = Some (Reg (output_bytes xs))" and "list_all printable xs" and "length xs < n"
    and "\<And>e'. evolve e0 e' \<Longrightarrow> Q (Some (map shown_of xs)) e' s"
    and "\<And>e' ys. evolve e0 e' \<Longrightarrow> faulty e0 \<Longrightarrow> prefix ys (map shown_of xs) \<Longrightarrow> Q (Some ys) e' s"
    and "\<And>e'. evolve e0 e' \<Longrightarrow> faulty e0 \<Longrightarrow> Q None e' s"
  shows "ok (print_results n p) e s Q"
proof -
  let ?s = "s\<lparr>handles := handles s + 1\<rparr>"
  have closing: "ok (seq_io c_fclose (return_io (Some ys))) e' ?s Q"
    if "evolve e0 e'" "ys = map shown_of xs \<or> faulty e0 \<and> prefix ys (map shown_of xs)" for e' ys
    using that(2) by (auto simp: ok_simps intro!: c_fclose_ok [OF that(1)] assms(5,6))
  have loop: "ok (print_loop n (output_bytes xs) 0 []) e' ?s (\<lambda>ys e' s'. ok (seq_io c_fclose (return_io (Some ys))) e' s' Q)"
    if "evolve e0 e'" for e'
    by (rule print_loop_ok [OF that assms(3,4), where a = "[]"]) (simp_all add: closing)
  show ?thesis
    unfolding print_results_def c_fopen_rb_def ok_bind
    by (rule ask_ok [OF assms(1)]) (simp_all add: ok_simps assms(2,7) loop [unfolded ok_seq ok_return])
qed

text \<open>C15. The printed results are those of the output file: reading back a file of proper records prints, for
  every record in order, the token and, if its result has the size of a count, the count; and the
  memory and the file handles of the process are as before. Only a failed call makes it stop before
  the end.\<close>

theorem print_results_roundtrip:
  assumes "files s p = Some (Reg (output_bytes xs))" and "list_all printable xs" and "length xs < n"
  shows "ok (print_results n p) e s (\<lambda>r e' s'. s' = s \<and>
    (r = Some (map shown_of xs) \<or> faulty e \<and> (r = None \<or> (\<exists>ys. r = Some ys \<and> prefix ys (map shown_of xs)))))"
  by (rule print_results_ok [OF evolve_refl assms]) auto

theorem print_results_roundtrip_witness:
  "ok (print_results 3 [111]) (example_env [])
     ((example_state [])\<lparr>files := [[111] \<mapsto> Reg (output_bytes [([104, 105], enc_size 2), ([104], [7])])]\<rparr>)
     (\<lambda>r e' s'. r = Some [Count [104, 105] 2, Unknown_data [104]])"
  by (rule ok_mono [OF print_results_roundtrip [where xs = "[([104, 105], enc_size 2), ([104], [7])]"]])
     (simp_all add: printable_def small_result_def shown_of_def)

end
