(* ===== verification/Mr_Api.thy ===== *)
theory Mr_Api
  imports Mr_Posix
begin

text \<open>
  The public interface up to the start of a job (\<open>src/mr.c\<close>, \<open>mr_init\<close> and \<open>mr_cleanup\<close> of
  \<open>src/core.c\<close>, the defaults of \<open>include/config.h\<close>): attributes, creating and destroying an
  instance. \<open>None\<close> is a null pointer for attributes, paths, functions.
\<close>

section \<open>State\<close>

record api_state = state +
  errno :: int

type_synonym ('s, 'a) api = "('s api_state_ext, 'a) proc"

abbreviation EINVAL :: int where "EINVAL \<equiv> 22"
abbreviation ENOMEM :: int where "ENOMEM \<equiv> 12"

definition set_errno :: "int \<Rightarrow> ('s, unit) api" where
  "set_errno n = put_st (\<lambda>s. s\<lparr>errno := n\<rparr>)"

lemma ok_set_errno [ok_simps]: "ok (set_errno n) e s Q \<longleftrightarrow> Q () e (s\<lparr>errno := n\<rparr>)"
  by (simp add: set_errno_def ok_simps)

record mr_attr_t =
  attr_mapper_threads :: size_t
  attr_reducer_threads :: size_t
  attr_queue_size :: size_t
  attr_log_file :: "byte list option"

text \<open>\<open>struct mr\<close>; the two functions and the user's argument are only handed on.\<close>

record ('m, 'r, 'u) mr =
  mr_attr :: mr_attr_t
  mr_mapper :: "'m option"
  mr_reducer :: "'r option"
  mr_user_arg :: 'u

text \<open>A handle of the user: \<open>Dangling\<close> points to a block that has been freed.\<close>

datatype 'a handle = Null | Valid 'a | Dangling

section \<open>Attributes\<close>

text \<open>\<open>MR_DEFAULT_LOG_FILE\<close> is \<open>mr.log\<close>.\<close>

definition MR_DEFAULT_LOG_FILE :: "byte list" where
  "MR_DEFAULT_LOG_FILE = [109, 114, 46, 108, 111, 103, 0]"

definition mr_attr_defaults :: mr_attr_t where
  "mr_attr_defaults = \<lparr>attr_mapper_threads = 4, attr_reducer_threads = 4, attr_queue_size = 100, attr_log_file = Some MR_DEFAULT_LOG_FILE\<rparr>"

definition mr_attr_check_mapper_threads :: "size_t \<Rightarrow> bool" where
  "mr_attr_check_mapper_threads n = (n \<ge> 1)"

definition mr_attr_check_reducer_threads :: "size_t \<Rightarrow> bool" where
  "mr_attr_check_reducer_threads n = (n \<ge> 1)"

definition mr_attr_check_queue_size :: "size_t \<Rightarrow> bool" where
  "mr_attr_check_queue_size n = (n \<ge> 1)"

definition mr_attr_check_log_file :: "byte list option \<Rightarrow> bool" where
  "mr_attr_check_log_file path = True"

definition mr_attr_check :: "mr_attr_t \<Rightarrow> bool" where
  "mr_attr_check a =
     (mr_attr_check_mapper_threads (attr_mapper_threads a) \<and> mr_attr_check_reducer_threads (attr_reducer_threads a) \<and>
      mr_attr_check_queue_size (attr_queue_size a) \<and> mr_attr_check_log_file (attr_log_file a))"

lemmas attr_check_defs = mr_attr_check_def mr_attr_check_mapper_threads_def mr_attr_check_reducer_threads_def
  mr_attr_check_queue_size_def mr_attr_check_log_file_def

text \<open>The operations give back what \<open>*attr\<close> holds on return.\<close>

definition mr_attr_init :: "mr_attr_t option \<Rightarrow> ('s, int \<times> mr_attr_t option) api" where
  "mr_attr_init at =
     (if at = None then seq_io (set_errno EINVAL) (return_io (-1, at))
      else return_io (0, Some mr_attr_defaults))"

definition mr_attr_set_mapper_threads :: "mr_attr_t option \<Rightarrow> size_t \<Rightarrow> ('s, int \<times> mr_attr_t option) api" where
  "mr_attr_set_mapper_threads at n =
     (if at = None \<or> \<not> mr_attr_check_mapper_threads n then seq_io (set_errno EINVAL) (return_io (-1, at))
      else return_io (0, Some ((the at)\<lparr>attr_mapper_threads := n\<rparr>)))"

definition mr_attr_set_reducer_threads :: "mr_attr_t option \<Rightarrow> size_t \<Rightarrow> ('s, int \<times> mr_attr_t option) api" where
  "mr_attr_set_reducer_threads at n =
     (if at = None \<or> \<not> mr_attr_check_reducer_threads n then seq_io (set_errno EINVAL) (return_io (-1, at))
      else return_io (0, Some ((the at)\<lparr>attr_reducer_threads := n\<rparr>)))"

definition mr_attr_set_queue_size :: "mr_attr_t option \<Rightarrow> size_t \<Rightarrow> ('s, int \<times> mr_attr_t option) api" where
  "mr_attr_set_queue_size at n =
     (if at = None \<or> \<not> mr_attr_check_queue_size n then seq_io (set_errno EINVAL) (return_io (-1, at))
      else return_io (0, Some ((the at)\<lparr>attr_queue_size := n\<rparr>)))"

definition mr_attr_set_log_file :: "mr_attr_t option \<Rightarrow> byte list option \<Rightarrow> ('s, int \<times> mr_attr_t option) api" where
  "mr_attr_set_log_file at path =
     (if at = None \<or> \<not> mr_attr_check_log_file path then seq_io (set_errno EINVAL) (return_io (-1, at))
      else return_io (0, Some ((the at)\<lparr>attr_log_file := Some (case path of None \<Rightarrow> MR_DEFAULT_LOG_FILE | Some p \<Rightarrow> p)\<rparr>)))"

definition mr_attr_destroy :: "mr_attr_t option \<Rightarrow> ('s, int) api" where
  "mr_attr_destroy at =
     (if at = None then seq_io (set_errno EINVAL) (return_io (-1)) else return_io 0)"

section \<open>Creating and destroying an instance\<close>

text \<open>\<open>strdup\<close>: undefined for a null pointer.\<close>

definition c_strdup :: "byte list option \<Rightarrow> ('s, byte list option) proc" where
  "c_strdup p =
     seq_io (defined_c (p \<noteq> None \<and> is_cstr (the p))) (
     bind_io (c_malloc (Suc (length (cstr (the p))))) (\<lambda>b.
     return_io (map_option (\<lambda>_. cstr (the p) @ [0]) b)))"

definition mr_init ::
    "mr_attr_t \<Rightarrow> 'm option \<Rightarrow> 'r option \<Rightarrow> 'u \<Rightarrow> ('s, int \<times> ('m, 'r, 'u) mr) proc" where
  "mr_init at map_fn reduce_fn arg =
     seq_io (assert_c (mr_attr_check at)) (
     seq_io (assert_c (map_fn \<noteq> None)) (
     seq_io (assert_c (reduce_fn \<noteq> None)) (
     bind_io (c_strdup (attr_log_file at)) (\<lambda>dup.
     let m = \<lparr>mr_attr = at\<lparr>attr_log_file := dup\<rparr>, mr_mapper = map_fn, mr_reducer = reduce_fn, mr_user_arg = arg\<rparr> in
     if dup = None then return_io (-1, m) else return_io (0, m)))))"

definition mr_cleanup :: "('m, 'r, 'u) mr \<Rightarrow> ('s, unit) proc" where
  "mr_cleanup m = c_free (attr_log_file (mr_attr m))"

text \<open>\<open>mr_create\<close>, with what \<open>*mr\<close> holds on return (\<open>old\<close> before the call).\<close>

definition mr_create ::
    "('m, 'r, 'u) mr handle \<Rightarrow> mr_attr_t option \<Rightarrow> 'm option \<Rightarrow> 'r option \<Rightarrow> 'u
      \<Rightarrow> ('s, int \<times> ('m, 'r, 'u) mr handle) api" where
  "mr_create old at map_fn reduce_fn arg =
     (if at = None \<or> \<not> mr_attr_check (the at) \<or> map_fn = None \<or> reduce_fn = None
      then seq_io (set_errno EINVAL) (return_io (-1, old))
      else
        bind_io (c_malloc 56) (\<lambda>block.
        if block = None then seq_io (set_errno ENOMEM) (return_io (-1, Null)) else
        SYSCALL_RET (-1, Dangling) fst (mr_init (the at) map_fn reduce_fn arg) (c_free block) (\<lambda>(_, m).
        return_io (0, Valid m))))"

text \<open>Using a dangling handle is undefined.\<close>

definition mr_destroy :: "('m, 'r, 'u) mr handle \<Rightarrow> ('s, int) proc" where
  "mr_destroy m =
     (case m of Null \<Rightarrow> return_io 0 | Dangling \<Rightarrow> stop_io Undefined
      | Valid m \<Rightarrow> seq_io (mr_cleanup m) (seq_io (c_free (Some ())) (return_io 0)))"

section \<open>Attributes stay valid\<close>

text \<open>A client's calls on one attribute object.\<close>

datatype attr_op = Set_mapper_threads size_t | Set_reducer_threads size_t | Set_queue_size size_t
  | Set_log_file "byte list option" | Destroy_attr

definition attr_call :: "attr_op \<Rightarrow> mr_attr_t option \<Rightarrow> ('s, int \<times> mr_attr_t option) api" where
  "attr_call opr at = (case opr of
     Set_mapper_threads n \<Rightarrow> mr_attr_set_mapper_threads at n
   | Set_reducer_threads n \<Rightarrow> mr_attr_set_reducer_threads at n
   | Set_queue_size n \<Rightarrow> mr_attr_set_queue_size at n
   | Set_log_file p \<Rightarrow> mr_attr_set_log_file at p
   | Destroy_attr \<Rightarrow> bind_io (mr_attr_destroy at) (\<lambda>r. return_io (r, at)))"

primrec attr_calls :: "attr_op list \<Rightarrow> mr_attr_t option \<Rightarrow> ('s, mr_attr_t option) api" where
  "attr_calls [] at = return_io at"
| "attr_calls (opr # oprs) at = bind_io (attr_call opr at) (\<lambda>(_, at). attr_calls oprs at)"

text \<open>An attribute object as \<open>mr_create\<close> needs it: it passes the check, and the path is a C string.\<close>

definition attr_ok :: "mr_attr_t option \<Rightarrow> bool" where
  "attr_ok at \<longleftrightarrow> (\<exists>a p. at = Some a \<and> mr_attr_check a \<and> attr_log_file a = Some p \<and> is_cstr p)"

text \<open>A call with a proper argument.\<close>

fun proper_op :: "attr_op \<Rightarrow> bool" where
  "proper_op (Set_log_file (Some p)) = is_cstr p" | "proper_op opr = True"

lemmas attr_op_defs = attr_call_def mr_attr_set_mapper_threads_def mr_attr_set_reducer_threads_def
  mr_attr_set_queue_size_def mr_attr_set_log_file_def mr_attr_destroy_def

lemma attr_call_ok:
  assumes "attr_ok at" and "proper_op opr" and "\<And>r at' s'. attr_ok at' \<Longrightarrow> live s' = live s \<Longrightarrow> Q (r, at') e s'"
  shows "ok (attr_call opr at) e s Q"
  using assms
  by (cases opr rule: proper_op.cases)
     (auto simp: attr_op_defs ok_simps attr_ok_def attr_check_defs MR_DEFAULT_LOG_FILE_def is_cstr_def split: option.splits)

lemma attr_calls_ok:
  "attr_ok at \<Longrightarrow> list_all proper_op oprs \<Longrightarrow> (\<And>at' s'. attr_ok at' \<Longrightarrow> live s' = live s \<Longrightarrow> Q at' e s') \<Longrightarrow> ok (attr_calls oprs at) e s Q"
proof (induction oprs arbitrary: at s)
  case (Cons opr oprs)
  show ?case
    unfolding attr_calls.simps ok_bind
    by (rule attr_call_ok [OF Cons.prems(1)]) (use Cons.prems(2) in \<open>auto intro!: Cons.IH Cons.prems(3)\<close>)
qed (simp add: ok_simps)

lemma mr_attr_init_ok:
  "(\<And>at. attr_ok at \<Longrightarrow> Q (0, at) e s) \<Longrightarrow> ok (mr_attr_init (Some a)) e s Q"
  by (simp add: mr_attr_init_def ok_simps attr_ok_def mr_attr_defaults_def attr_check_defs
      MR_DEFAULT_LOG_FILE_def is_cstr_def)

lemma mr_create_ok:
  assumes ev: "evolve e0 e" and "attr_ok at" and fns: "map_fn = Some f" "reduce_fn = Some g"
    and good: "\<And>e' p. evolve e0 e' \<Longrightarrow> attr_log_file (the at) = Some p \<Longrightarrow>
      Q (0, Valid \<lparr>mr_attr = (the at)\<lparr>attr_log_file := Some (cstr p @ [0])\<rparr>, mr_mapper = map_fn, mr_reducer = reduce_fn, mr_user_arg = arg\<rparr>)
        e' (s\<lparr>live := live s + 2\<rparr>)"
    and bad: "\<And>e' m s'. evolve e0 e' \<Longrightarrow> faulty e0 \<Longrightarrow> live s' = live s \<Longrightarrow> m = Null \<or> m = Dangling \<Longrightarrow> Q (-1, m) e' s'"
  shows "ok (mr_create old at map_fn reduce_fn arg) e s Q"
proof -
  obtain a p where at: "at = Some a" "mr_attr_check a" "attr_log_file a = Some p" "is_cstr p"
    using assms(2) by (auto simp: attr_ok_def)
  have init: "ok (mr_init a map_fn reduce_fn arg) e' (s\<lparr>live := live s + 1\<rparr>) R"
    if e': "evolve e0 e'"
      and R: "\<And>e'. evolve e0 e' \<Longrightarrow> R (0, \<lparr>mr_attr = a\<lparr>attr_log_file := Some (cstr p @ [0])\<rparr>, mr_mapper = map_fn,
        mr_reducer = reduce_fn, mr_user_arg = arg\<rparr>) e' (s\<lparr>live := live s + 2\<rparr>)"
      "\<And>e' m. evolve e0 e' \<Longrightarrow> faulty e0 \<Longrightarrow> R (-1, m) e' (s\<lparr>live := live s + 1\<rparr>)" for e' R
    unfolding mr_init_def c_strdup_def Let_def
    by (simp add: ok_simps at fns, rule c_malloc_ok [OF e']) (use R fns in \<open>auto simp: ok_simps add.commute [of 2]\<close>)
  have create: "mr_create old at map_fn reduce_fn arg = bind_io (c_malloc 56) (\<lambda>block.
        if block = None then seq_io (set_errno ENOMEM) (return_io (-1, Null)) else
        SYSCALL_RET (-1, Dangling) fst (mr_init a map_fn reduce_fn arg) (c_free block) (\<lambda>(_, m).
        return_io (0, Valid m)))"
    by (simp add: mr_create_def at fns cong: if_cong)
  show ?thesis
    unfolding create ok_bind
    by (rule c_malloc_ok [OF ev]; simp only: ok_SYSCALL_RET if_P option.simps ok_if if_False refl if_True simp_thms)
       (use good [OF _ at(3) [folded option.sel [of a, folded at(1)]]] bad in
        \<open>auto simp: ok_simps at(1) intro!: init split del: if_split\<close>)
qed

section \<open>Properties\<close>

text \<open>C23. An attribute object stays valid: initialised and then changed by any sequence of calls of the
  interface, with any numbers, it passes the check of \<open>mr_create\<close> and has a log file. The setters
  reject what would break this.\<close>

theorem attr_calls_keep_valid:
  assumes "list_all proper_op oprs"
  shows "ok (bind_io (mr_attr_init (Some a)) (\<lambda>(r, at). attr_calls oprs at)) e s
    (\<lambda>at e' s'. (\<exists>b p. at = Some b \<and> mr_attr_check b \<and> attr_log_file b = Some p \<and> is_cstr p) \<and> live s' = live s)"
  unfolding ok_bind
  by (rule mr_attr_init_ok) (auto intro!: attr_calls_ok assms simp: attr_ok_def)

theorem attr_calls_keep_valid_witness:
  "ok (bind_io (mr_attr_init (Some mr_attr_defaults)) (\<lambda>(r, at). attr_calls [Set_queue_size 0, Set_mapper_threads 7] at))
     (example_env []) \<lparr>live = 0, handles = 0, rds = (\<lambda>_. []), wrs = (\<lambda>_. []), files = Map.empty, errno = 0\<rparr>
     (\<lambda>at e' s'. (\<exists>b. at = Some b \<and> mr_attr_check b))"
  by (rule ok_mono [OF attr_calls_keep_valid]) auto

text \<open>C24. The life of an instance: attributes set in any way, \<open>mr_create\<close> and \<open>mr_destroy\<close>. Creation
  returns 0 with a copy of the attributes that owns its log path, or -1 after a failed allocation;
  in both cases no memory is left in the end.\<close>

theorem api_lifecycle:
  assumes "list_all proper_op oprs"
  shows "ok (bind_io (mr_attr_init (Some a)) (\<lambda>(_, at). bind_io (attr_calls oprs at) (\<lambda>at.
      bind_io (mr_create Null at (Some f) (Some g) arg) (\<lambda>(r, m).
      bind_io (if r = -1 then return_io 0 else mr_destroy m) (\<lambda>_. return_io (r, m, at)))))) e s
    (\<lambda>(r, m, at) e' s'. live s' = live s \<and>
      (r = 0 \<and> (\<exists>p. attr_log_file (the at) = Some p \<and>
         m = Valid \<lparr>mr_attr = (the at)\<lparr>attr_log_file := Some (cstr p @ [0])\<rparr>, mr_mapper = Some f, mr_reducer = Some g, mr_user_arg = arg\<rparr>) \<or>
       r = -1 \<and> faulty e))"
  unfolding ok_bind
  apply (rule mr_attr_init_ok, unfold prod.case ok_bind)
  apply (rule attr_calls_ok [OF _ assms], assumption)
  apply (rule mr_create_ok [OF evolve_refl _ refl refl], assumption)
   apply (auto simp: ok_simps mr_destroy_def mr_cleanup_def)
  done

text \<open>A null log file passes the check of \<open>mr_create\<close>, as the header allows, but is not replaced by
  the default there: it goes to \<open>strdup\<close>, which is undefined.\<close>

theorem mr_create_null_log_file:
  assumes "mr_attr_check a" and "attr_log_file a = None" and "answers e = []"
  shows "fst (mr_create old (Some a) (Some f) (Some g) arg (e, s)) = Inl Undefined"
  using assms
  by (simp add: mr_create_def mr_init_def c_strdup_def c_malloc_def bind_io_def seq_io_def ask_def put_st_def
      get_env_def return_io_def SYSCALL_RET_def assert_c_def defined_c_def stop_io_def)

abbreviation example_api :: "unit api_state_ext state_scheme" where
  "example_api \<equiv> \<lparr>live = 0, handles = 0, rds = (\<lambda>_. []), wrs = (\<lambda>_. []), files = Map.empty, errno = 0, \<dots> = ()\<rparr>"

theorem api_lifecycle_witness:
  "ok (bind_io (mr_attr_init (Some mr_attr_defaults)) (\<lambda>(_, at). bind_io (attr_calls [Set_queue_size 1] at) (\<lambda>at.
      bind_io (mr_create Null at (Some True) (Some True) ()) (\<lambda>(r, m).
      bind_io (if r = -1 then return_io 0 else mr_destroy m) (\<lambda>_. return_io (r, m, at))))))
     (example_env [Full, Fault]) example_api (\<lambda>(r, m, at) e' s'. live s' = 0)"
  by (rule ok_mono [OF api_lifecycle]) auto

theorem mr_create_null_log_file_witness:
  "fst (mr_create Null (Some \<lparr>attr_mapper_threads = 1, attr_reducer_threads = 1, attr_queue_size = 1, attr_log_file = None\<rparr>)
     (Some True) (Some True) () (example_env [], example_api)) = Inl Undefined"
  by (rule mr_create_null_log_file) (simp_all add: attr_check_defs)

end
