(* ===== verification/Mr_Os.thy ===== *)
theory Mr_Os
  imports Mr_Api
begin

text \<open>
  Processes and descriptors as \<open>src/core.c\<close> uses them: \<open>pipe\<close>, \<open>close\<close>, \<open>dup2\<close>, \<open>fork\<close>, \<open>kill\<close>,
  \<open>waitpid\<close>. A run follows one process: at every \<open>fork\<close> the state says whether it goes on as the
  parent or as the child, so the text after a \<open>fork\<close> is one definition for both.
\<close>

section \<open>State\<close>

datatype endpoint = Terminal | Read_end nat | Write_end nat

datatype status = Exited_with int | Signaled int | Abnormal

text \<open>
  \<open>fds\<close>: the descriptor table. \<open>bad_closes\<close>: descriptors closed although they were not open.
  \<open>incoming k\<close>: what will come out of the pipe \<open>k\<close>. \<open>follow_child\<close>: the branch to follow at the
  next forks. \<open>children\<close>: forked and not yet waited for. \<open>statuses\<close>: how each child ends.
\<close>

record os_state = api_state +
  fds :: "int \<Rightarrow> endpoint option"
  bad_closes :: "int list"
  next_pipe :: nat
  incoming :: "nat \<Rightarrow> byte list"
  follow_child :: "bool list"
  next_pid :: int
  children :: "int set"
  statuses :: "int \<Rightarrow> status"

type_synonym 's os = "'s os_state_ext api_state_ext state_scheme"
type_synonym ('s, 'a) osproc = "(env \<times> 's os, 'a) io"

section \<open>Descriptors\<close>

abbreviation OPEN_MAX :: nat where "OPEN_MAX \<equiv> 1024"

text \<open>POSIX: the lowest numbers that are free.\<close>

definition free_fds :: "(int \<Rightarrow> endpoint option) \<Rightarrow> int list" where
  "free_fds tbl = filter (\<lambda>n. tbl n = None) (map int [0..<OPEN_MAX])"

text \<open>The result of \<open>pipe\<close> and its two descriptors; none if fewer than two are free.\<close>

definition sys_pipe :: "('s, int \<times> int \<times> int) osproc" where
  "sys_pipe =
     bind_io ask (\<lambda>a. if a = Fault then return_io (-1, 0, 0) else
     bind_io (get_st fds) (\<lambda>tbl.
     case free_fds tbl of
       r # w # _ \<Rightarrow>
         seq_io (put_st (\<lambda>s. s\<lparr>rds := (rds s)(r := incoming s (next_pipe s)), wrs := (wrs s)(w := []),
                              fds := (fds s)(r \<mapsto> Read_end (next_pipe s), w \<mapsto> Write_end (next_pipe s)),
                              next_pipe := Suc (next_pipe s)\<rparr>))
                (return_io (0, r, w))
     | _ \<Rightarrow> return_io (-1, 0, 0)))"

text \<open>\<open>close\<close>: a failing one has released the descriptor all the same, as on Linux.\<close>

definition sys_close :: "int \<Rightarrow> ('s, int) osproc" where
  "sys_close fd =
     bind_io (get_st fds) (\<lambda>tbl.
     if tbl fd = None then seq_io (put_st (\<lambda>s. s\<lparr>bad_closes := bad_closes s @ [fd]\<rparr>)) (return_io (-1)) else
     seq_io (put_st (\<lambda>s. s\<lparr>fds := (fds s)(fd := None)\<rparr>)) (call 0 (-1)))"

primrec close_all :: "int list \<Rightarrow> ('s, unit) osproc" where
  "close_all [] = skip"
| "close_all (fd # rest) = seq_io (sys_close fd) (close_all rest)"

definition sys_dup2 :: "int \<Rightarrow> int \<Rightarrow> ('s, int) osproc" where
  "sys_dup2 old new =
     bind_io ask (\<lambda>a. if a = Fault then return_io (-1) else
     bind_io (get_st fds) (\<lambda>tbl. if tbl old = None then return_io (-1) else
     seq_io (put_st (\<lambda>s. s\<lparr>rds := (rds s)(new := rds s old), wrs := (wrs s)(new := wrs s old),
                          fds := (fds s)(new := fds s old)\<rparr>)) (return_io new)))"

section \<open>Processes\<close>

definition sys_fork :: "('s, int) osproc" where
  "sys_fork =
     bind_io ask (\<lambda>a. if a = Fault then return_io (-1) else
     bind_io (get_st follow_child) (\<lambda>bs.
     if bs \<noteq> [] \<and> hd bs then
       seq_io (put_st (\<lambda>s. s\<lparr>follow_child := tl bs, children := {}\<rparr>)) (return_io 0)
     else
       bind_io (get_st next_pid) (\<lambda>pid.
       seq_io (put_st (\<lambda>s. s\<lparr>follow_child := tl bs, next_pid := pid + 1, children := insert pid (children s)\<rparr>))
              (return_io pid))))"

definition sys_exit :: "int \<Rightarrow> ('s, 'a) osproc" where
  "sys_exit code = stop_io (Exited code)"

text \<open>\<open>kill(pid, SIGTERM)\<close>.\<close>

definition sys_kill :: "int \<Rightarrow> ('s, int) osproc" where
  "sys_kill pid = call 0 (-1)"

definition sys_waitpid :: "int \<Rightarrow> ('s, int \<times> status) osproc" where
  "sys_waitpid pid =
     bind_io ask (\<lambda>a. bind_io (get_st statuses) (\<lambda>st.
     if a = Fault then return_io (-1, st pid) else
     bind_io (get_st children) (\<lambda>ps. if pid \<notin> ps then return_io (-1, st pid) else
     seq_io (put_st (\<lambda>s. s\<lparr>children := children s - {pid}\<rparr>)) (return_io (pid, st pid)))))"

section \<open>Calls that may stop the process\<close>

text \<open>
  \<open>ends m e s Q X\<close>: if \<open>m\<close> returns then \<open>Q\<close> holds, and if the process stops in it then \<open>X\<close>. A call
  that returns (\<open>ok\<close>) is the case where \<open>X\<close> is never reached.
\<close>

definition ends ::
    "('e \<times> 's, 'a) io \<Rightarrow> 'e \<Rightarrow> 's \<Rightarrow> ('a \<Rightarrow> 'e \<Rightarrow> 's \<Rightarrow> bool) \<Rightarrow> (stop \<Rightarrow> 'e \<Rightarrow> 's \<Rightarrow> bool) \<Rightarrow> bool" where
  "ends m e s Q X \<longleftrightarrow> (case m (e, s) of (Inr r, (e', s')) \<Rightarrow> Q r e' s' | (Inl x, (e', s')) \<Rightarrow> X x e' s')"

named_theorems ends_simps

lemma ends_return [ends_simps]: "ends (return_io x) e s Q X \<longleftrightarrow> Q x e s"
  by (simp add: ends_def return_io_def)

lemma ends_stop [ends_simps]: "ends (stop_io x) e s Q X \<longleftrightarrow> X x e s"
  by (simp add: ends_def stop_io_def)

lemma ends_bind [ends_simps]: "ends (bind_io m k) e s Q X \<longleftrightarrow> ends m e s (\<lambda>r e' s'. ends (k r) e' s' Q X) X"
  by (auto simp: ends_def bind_io_def split: prod.splits sum.splits)

lemma ends_seq [ends_simps]: "ends (seq_io m k) e s Q X \<longleftrightarrow> ends m e s (\<lambda>r e' s'. ends k e' s' Q X) X"
  by (simp add: seq_io_def ends_bind)

lemma ends_if: "ends (if b then m else k) e s Q X \<longleftrightarrow> (if b then ends m e s Q X else ends k e s Q X)"
  by simp

lemma ends_SYSCALL_RET:
  "ends (SYSCALL_RET m1 rc m c k) e s Q X \<longleftrightarrow>
     ends m e s (\<lambda>r e' s'. if rc r = -1 then ends c e' s' (\<lambda>_. Q m1) X else ends (k r) e' s' Q X) X"
  unfolding SYSCALL_RET_def ends_bind
  by (rule arg_cong [where f = "\<lambda>K. ends m e s K X"]) (simp add: fun_eq_iff ends_simps)

lemma ends_SYSCALL_RET_CHECK:
  "ends (SYSCALL_RET_CHECK m1 m c k) e s Q X \<longleftrightarrow>
     ends m e s (\<lambda>r e' s'. if r = -1 then ends c e' s' (\<lambda>_. Q m1) X else ends k e' s' Q X) X"
  unfolding SYSCALL_RET_CHECK_def ends_bind
  by (rule arg_cong [where f = "\<lambda>K. ends m e s K X"]) (simp add: fun_eq_iff ends_simps)

lemma ends_exit [ends_simps]: "ends (sys_exit c) e s Q X \<longleftrightarrow> X (Exited c) e s"
  by (simp add: sys_exit_def ends_simps)

lemma ok_ends: "ok m e s Q \<Longrightarrow> ends m e s Q X"
  by (auto simp: ok_def ends_def)

lemma ends_mono: "ends m e s P Y \<Longrightarrow> (\<And>r e' s'. P r e' s' \<Longrightarrow> Q r e' s') \<Longrightarrow> (\<And>x e' s'. Y x e' s' \<Longrightarrow> X x e' s') \<Longrightarrow> ends m e s Q X"
  by (auto simp: ends_def split: prod.splits sum.splits)

lemma ends_ok: "ends m e s Q (\<lambda>_ _ _. False) \<longleftrightarrow> ok m e s Q"
  by (auto simp: ok_def ends_def split: prod.splits sum.splits)

section \<open>Rules for the calls\<close>

lemma free_fds_Cons:
  assumes "free_fds tbl = r # w # rest"
  shows "tbl r = None" "tbl w = None" "r \<noteq> w" "0 \<le> r" "0 \<le> w"
proof -
  have "distinct (free_fds tbl)" by (simp add: free_fds_def distinct_map)
  moreover have "set (free_fds tbl) \<subseteq> {n. tbl n = None \<and> 0 \<le> n}" by (auto simp: free_fds_def)
  ultimately show "tbl r = None" "tbl w = None" "r \<noteq> w" "0 \<le> r" "0 \<le> w" using assms by auto
qed

text \<open>Room for the three pipes of a job.\<close>

definition fd_room :: "nat \<Rightarrow> (int \<Rightarrow> endpoint option) \<Rightarrow> bool" where
  "fd_room n tbl \<longleftrightarrow> n \<le> length (free_fds tbl)"

lemma fd_room_pipe:
  assumes "free_fds tbl = r # w # rest" and "fd_room (Suc (Suc n)) tbl"
  shows "fd_room n (tbl(r \<mapsto> a, w \<mapsto> b))"
proof -
  have d: "distinct (free_fds tbl)" by (simp add: free_fds_def distinct_map)
  have "free_fds (tbl(r \<mapsto> a, w \<mapsto> b)) = filter (\<lambda>n. n \<noteq> r \<and> n \<noteq> w) (free_fds tbl)"
    unfolding free_fds_def filter_filter by (rule filter_cong) auto
  also have "\<dots> = rest"
    using d unfolding assms(1) by (auto simp: filter_id_conv)
  finally show ?thesis using assms by (simp add: fd_room_def)
qed

abbreviation piped :: "int \<Rightarrow> int \<Rightarrow> 's os \<Rightarrow> 's os" where
  "piped r w s \<equiv> s\<lparr>rds := (rds s)(r := incoming s (next_pipe s)), wrs := (wrs s)(w := []),
     fds := (fds s)(r \<mapsto> Read_end (next_pipe s), w \<mapsto> Write_end (next_pipe s)), next_pipe := Suc (next_pipe s)\<rparr>"

lemma sys_pipe_ok:
  assumes "evolve e0 e" and "fd_room (Suc (Suc n)) (fds s)"
    and "\<And>e' r w. evolve e0 e' \<Longrightarrow> fds s r = None \<Longrightarrow> fds s w = None \<Longrightarrow> r \<noteq> w \<Longrightarrow> 0 \<le> r \<Longrightarrow> 0 \<le> w \<Longrightarrow>
      fd_room n (fds (piped r w s)) \<Longrightarrow> Q (0, r, w) e' (piped r w s)"
    and "\<And>e'. evolve e0 e' \<Longrightarrow> faulty e0 \<Longrightarrow> Q (-1, 0, 0) e' s"
  shows "ok sys_pipe e s Q"
proof -
  obtain r w rest where f: "free_fds (fds s) = r # w # rest"
    using assms(2) by (cases "free_fds (fds s)"; cases "tl (free_fds (fds s))") (auto simp: fd_room_def)
  show ?thesis
    unfolding sys_pipe_def ok_bind
    by (rule ask_ok [OF assms(1)])
       (use assms(3,4) free_fds_Cons [OF f] fd_room_pipe [OF f assms(2)] in \<open>auto simp: ok_simps f\<close>)
qed

lemma sys_close_ok:
  assumes "evolve e0 e" and "fds s fd \<noteq> None"
    and "\<And>e'. evolve e0 e' \<Longrightarrow> Q 0 e' (s\<lparr>fds := (fds s)(fd := None)\<rparr>)"
    and "\<And>e'. evolve e0 e' \<Longrightarrow> faulty e0 \<Longrightarrow> Q (-1) e' (s\<lparr>fds := (fds s)(fd := None)\<rparr>)"
  shows "ok (sys_close fd) e s Q"
  using assms(2) by (auto simp: sys_close_def ok_simps intro: call_ok [OF assms(1)] assms(3,4))

text \<open>A call that is only made to clean up: it returns.\<close>

lemma sys_close_any:
  assumes "evolve e0 e" and "\<And>r e' s'. evolve e0 e' \<Longrightarrow> Q r e' s'"
  shows "ok (sys_close fd) e s Q"
  by (auto simp: sys_close_def ok_simps ok_if intro!: call_ok [OF assms(1)] assms)

lemma close_all_any:
  "evolve e0 e \<Longrightarrow> (\<And>e' s'. evolve e0 e' \<Longrightarrow> Q () e' s') \<Longrightarrow> ok (close_all ps) e s Q"
  by (induction ps arbitrary: e s) (auto simp: ok_simps intro!: sys_close_any)

lemma sys_kill_any: "evolve e0 e \<Longrightarrow> (\<And>r e'. evolve e0 e' \<Longrightarrow> Q r e' s) \<Longrightarrow> ok (sys_kill pid) e s Q"
  by (auto simp: sys_kill_def intro: call_ok)

lemma sys_waitpid_any:
  assumes "evolve e0 e" and "\<And>r e' s'. evolve e0 e' \<Longrightarrow> Q r e' s'"
  shows "ok (sys_waitpid pid) e s Q"
  unfolding sys_waitpid_def ok_bind by (rule ask_ok [OF assms(1)]) (auto simp: ok_simps intro!: assms(2))

lemma sys_waitpid_ok:
  assumes "evolve e0 e" and "pid \<in> children s"
    and "\<And>e'. evolve e0 e' \<Longrightarrow> Q (pid, statuses s pid) e' (s\<lparr>children := children s - {pid}\<rparr>)"
    and "\<And>e'. evolve e0 e' \<Longrightarrow> faulty e0 \<Longrightarrow> Q (-1, statuses s pid) e' s"
  shows "ok (sys_waitpid pid) e s Q"
  unfolding sys_waitpid_def ok_bind by (rule ask_ok [OF assms(1)]) (use assms(2-) in \<open>auto simp: ok_simps\<close>)

lemma sys_dup2_ok:
  assumes "evolve e0 e" and "fds s old \<noteq> None"
    and "\<And>e'. evolve e0 e' \<Longrightarrow> Q new e' (s\<lparr>rds := (rds s)(new := rds s old), wrs := (wrs s)(new := wrs s old),
      fds := (fds s)(new := fds s old)\<rparr>)"
    and "\<And>e'. evolve e0 e' \<Longrightarrow> faulty e0 \<Longrightarrow> Q (-1) e' s"
  shows "ok (sys_dup2 old new) e s Q"
  unfolding sys_dup2_def ok_bind by (rule ask_ok [OF assms(1)]) (use assms(2-) in \<open>auto simp: ok_simps\<close>)

lemma sys_fork_ok:
  assumes "evolve e0 e"
    and "\<And>e'. evolve e0 e' \<Longrightarrow> follow_child s \<noteq> [] \<Longrightarrow> hd (follow_child s) \<Longrightarrow>
      Q 0 e' (s\<lparr>follow_child := tl (follow_child s), children := {}\<rparr>)"
    and "\<And>e'. evolve e0 e' \<Longrightarrow> follow_child s = [] \<or> \<not> hd (follow_child s) \<Longrightarrow>
      Q (next_pid s) e' (s\<lparr>follow_child := tl (follow_child s), next_pid := next_pid s + 1,
        children := insert (next_pid s) (children s)\<rparr>)"
    and "\<And>e'. evolve e0 e' \<Longrightarrow> faulty e0 \<Longrightarrow> Q (-1) e' s"
  shows "ok sys_fork e s Q"
  unfolding sys_fork_def ok_bind by (rule ask_ok [OF assms(1)]) (use assms(2-) in \<open>auto simp: ok_simps\<close>)

end
