(* ===== verification/Mr_Process.thy ===== *)
theory Mr_Process
  imports Mr_Os Mr_Input Mr_Output
begin

text \<open>
  The job as \<open>src/core.c\<close> runs it: \<open>mr_run\<close>, the two child processes with their descriptors, the main
  process between them, and \<open>mr_start\<close> of \<open>src/mr.c\<close>. The code of the children after their set-up
  (\<open>mapper_process_main\<close>, \<open>reducer_process_main\<close>) is an argument.
\<close>

section \<open>The children\<close>

text \<open>The order of the closing loops: \<open>for (i = 0; i < 2; i++) { close(a[i]); close(b[i]); }\<close>.\<close>

abbreviation ends_of :: "(int \<times> int) list \<Rightarrow> int list" where
  "ends_of ps \<equiv> map fst ps @ map snd ps"

text \<open>The error paths of a child: log, close, \<open>_exit\<close>.\<close>

definition child_fails :: "mr_log_file_t \<Rightarrow> string \<Rightarrow> string \<Rightarrow> int list \<Rightarrow> ('s, unit) osproc" where
  "child_fails log_file process message open_fds =
     seq_io (mr_log_error log_file process ''Controller'' message) (
     seq_io (close_all open_fds) (sys_exit EXIT_FAILURE))"

text \<open>
  The result and \<open>*mapper_pid\<close>. In the child only a failed log entry lets it return, with -1: the
  caller then takes it for the parent.
\<close>

definition spawn_mapper_process ::
    "mr_log_file_t \<Rightarrow> int \<times> int \<Rightarrow> int \<times> int \<Rightarrow> int \<times> int \<Rightarrow> ('s, int) osproc \<Rightarrow> ('s, int \<times> int) osproc" where
  "spawn_mapper_process log_file main_to_mapper mapper_to_reducer reducer_to_main process_main =
     SYSCALL_RET (-1, -1) id sys_fork
       (seq_io (mr_log_error log_file ''Main'' ''Main'' ''Failed to fork mapper process'')
         (close_all (ends_of [main_to_mapper, mapper_to_reducer]))) (\<lambda>pid.
     if pid = 0 then
       SYSCALL_RET_CHECK (-1, 0) (mr_log_info log_file ''Mapper'' ''Controller'' ''Mapper process started.'')
         (close_all (ends_of [main_to_mapper, mapper_to_reducer, reducer_to_main])) (
       SYSCALL_RET_CHECK (-1, 0) (sys_close (snd main_to_mapper))
         (child_fails log_file ''Mapper'' ''Failed to close unused write end of main_to_mapper pipe''
           ([fst main_to_mapper] @ ends_of [mapper_to_reducer, reducer_to_main])) (
       SYSCALL_RET_CHECK (-1, 0) (sys_close (fst mapper_to_reducer))
         (child_fails log_file ''Mapper'' ''Failed to close unused read end of mapper_to_reducer pipe''
           ([fst main_to_mapper, snd mapper_to_reducer] @ ends_of [reducer_to_main])) (
       SYSCALL_RET_CHECK (-1, 0) (sys_close (fst reducer_to_main))
         (child_fails log_file ''Mapper'' ''Failed to close unused read end of reducer_to_main pipe''
           [fst main_to_mapper, snd mapper_to_reducer, snd reducer_to_main]) (
       SYSCALL_RET_CHECK (-1, 0) (sys_close (snd reducer_to_main))
         (child_fails log_file ''Mapper'' ''Failed to close unused write end reducer_to_main pipe''
           [fst main_to_mapper, snd mapper_to_reducer]) (
       SYSCALL_RET_CHECK (-1, 0) (sys_dup2 (fst main_to_mapper) STDIN_FILENO)
         (child_fails log_file ''Mapper'' ''Failed to redirect stdin for mapper process''
           [fst main_to_mapper, snd mapper_to_reducer]) (
       SYSCALL_RET_CHECK (-1, 0) (sys_close (fst main_to_mapper))
         (child_fails log_file ''Mapper'' ''Failed to close read end of main_to_mapper pipe''
           [snd mapper_to_reducer]) (
       SYSCALL_RET_CHECK (-1, 0) (sys_dup2 (snd mapper_to_reducer) STDOUT_FILENO)
         (child_fails log_file ''Mapper'' ''Failed to redirect stdout for mapper process''
           [snd mapper_to_reducer]) (
       SYSCALL_RET_CHECK (-1, 0) (sys_close (snd mapper_to_reducer))
         (child_fails log_file ''Mapper'' ''Failed to close write end of mapper_to_reducer pipe''
           []) (
       bind_io process_main sys_exit)))))))))
     else return_io (0, pid))"

definition spawn_reducer_process ::
    "mr_log_file_t \<Rightarrow> int \<times> int \<Rightarrow> int \<times> int \<Rightarrow> int \<times> int \<Rightarrow> ('s, int) osproc \<Rightarrow> ('s, int \<times> int) osproc" where
  "spawn_reducer_process log_file main_to_mapper mapper_to_reducer reducer_to_main process_main =
     SYSCALL_RET (-1, -1) id sys_fork
       (seq_io (mr_log_error log_file ''Main'' ''Main'' ''Failed to fork reducer process'')
         (close_all (ends_of [mapper_to_reducer, reducer_to_main]))) (\<lambda>pid.
     if pid = 0 then
       SYSCALL_RET_CHECK (-1, 0) (mr_log_info log_file ''Reducer'' ''Controller'' ''Reducer process started.'')
         (close_all (ends_of [main_to_mapper, mapper_to_reducer, reducer_to_main])) (
       SYSCALL_RET_CHECK (-1, 0) (sys_close (fst main_to_mapper))
         (child_fails log_file ''Reducer'' ''Failed to close unused read end of main_to_mapper pipe''
           ([snd main_to_mapper] @ ends_of [mapper_to_reducer, reducer_to_main])) (
       SYSCALL_RET_CHECK (-1, 0) (sys_close (snd main_to_mapper))
         (child_fails log_file ''Reducer'' ''Failed to close unused write end of main_to_mapper pipe''
           (ends_of [mapper_to_reducer, reducer_to_main])) (
       SYSCALL_RET_CHECK (-1, 0) (sys_close (snd mapper_to_reducer))
         (child_fails log_file ''Reducer'' ''Failed to close unused write end of mapper_to_reducer pipe''
           ([fst mapper_to_reducer] @ ends_of [reducer_to_main])) (
       SYSCALL_RET_CHECK (-1, 0) (sys_close (fst reducer_to_main))
         (child_fails log_file ''Reducer'' ''Failed to close unused read end of reducer_to_main pipe''
           [fst mapper_to_reducer, snd reducer_to_main]) (
       SYSCALL_RET_CHECK (-1, 0) (sys_dup2 (fst mapper_to_reducer) STDIN_FILENO)
         (child_fails log_file ''Reducer'' ''Failed to redirect stdin for reducer process''
           [fst mapper_to_reducer, snd reducer_to_main]) (
       SYSCALL_RET_CHECK (-1, 0) (sys_close (fst mapper_to_reducer))
         (child_fails log_file ''Reducer'' ''Failed to close read end of mapper_to_reducer pipe''
           [snd reducer_to_main]) (
       SYSCALL_RET_CHECK (-1, 0) (sys_dup2 (snd reducer_to_main) STDOUT_FILENO)
         (child_fails log_file ''Reducer'' ''Failed to redirect stdout for reducer process''
           [snd reducer_to_main]) (
       SYSCALL_RET_CHECK (-1, 0) (sys_close (snd reducer_to_main))
         (child_fails log_file ''Reducer'' ''Failed to close write end of reducer_to_reducer pipe''
           []) (
       bind_io process_main sys_exit)))))))))
     else return_io (0, pid))"

section \<open>The main process\<close>

text \<open>The error paths of the main process: \<open>SIGTERM\<close> to the children, then wait for each.\<close>

definition stop_children :: "int list \<Rightarrow> ('s, unit) osproc" where
  "stop_children pids =
     seq_io (foldr (\<lambda>pid. seq_io (sys_kill pid)) pids skip) (foldr (\<lambda>pid. seq_io (sys_waitpid pid)) pids skip)"

definition wait_for_process :: "mr_log_file_t \<Rightarrow> string \<Rightarrow> int \<Rightarrow> ('s, int) osproc" where
  "wait_for_process log_file process_name pid =
     SYSCALL_RET (-1) fst (sys_waitpid pid)
       (mr_log_error log_file ''Main'' ''Main'' ''Failed to wait for %s process'') (\<lambda>(_, status).
     case status of
       Exited_with code \<Rightarrow>
         SYSCALL_RET_CHECK (-1) (mr_log_info log_file ''Main'' ''Main'' ''%s process exited with code %d'') skip (return_io 0)
     | Signaled sig \<Rightarrow>
         SYSCALL_RET_CHECK (-1) (mr_log_warning log_file ''Main'' ''Main'' ''%s process was terminated by signal %d'')
           skip (return_io 0)
     | Abnormal \<Rightarrow>
         SYSCALL_RET_CHECK (-1) (mr_log_warning log_file ''Main'' ''Main'' ''%s process terminated abnormally'')
           skip (return_io 0))"

text \<open>The main process after both children have been forked.\<close>

definition run_job ::
    "mr_log_file_t \<Rightarrow> int \<times> int \<Rightarrow> int \<times> int \<Rightarrow> int \<times> int \<Rightarrow> int \<Rightarrow> int \<Rightarrow> path \<Rightarrow> path \<Rightarrow> ('s, int) osproc" where
  "run_job log_file main_to_mapper mapper_to_reducer reducer_to_main mapper_pid reducer_pid input_path output_path =
     SYSCALL_RET_CHECK (-1) (sys_close (fst main_to_mapper))
       (seq_io (stop_children [mapper_pid])
       (close_all (snd main_to_mapper # ends_of [mapper_to_reducer, reducer_to_main]))) (
     SYSCALL_RET_CHECK (-1) (sys_close (fst mapper_to_reducer))
       (seq_io (stop_children [mapper_pid, reducer_pid])
       (close_all ([snd main_to_mapper, snd mapper_to_reducer] @ ends_of [reducer_to_main]))) (
     SYSCALL_RET_CHECK (-1) (sys_close (snd mapper_to_reducer))
       (seq_io (stop_children [mapper_pid, reducer_pid])
       (close_all (snd main_to_mapper # ends_of [reducer_to_main]))) (
     SYSCALL_RET_CHECK (-1) (sys_close (snd reducer_to_main))
       (seq_io (stop_children [mapper_pid, reducer_pid])
       (close_all (snd main_to_mapper # ends_of [mapper_to_reducer, reducer_to_main]))) (
     SYSCALL_RET_CHECK (-1) (mr_log_info log_file ''Main'' ''Main''
         ''Successfully spawned mapper (PID: %d) and reducer (PID: %d) processes'')
       (seq_io (stop_children [mapper_pid, reducer_pid])
       (close_all [snd main_to_mapper, fst reducer_to_main])) (
     SYSCALL_RET_CHECK (-1) (send_input_to_mapper log_file (snd main_to_mapper) input_path)
       (seq_io (mr_log_error log_file ''Main'' ''Main'' ''Failed to send input to mapper process'')
       (seq_io (stop_children [mapper_pid, reducer_pid])
       (close_all [snd main_to_mapper, fst reducer_to_main]))) (
     SYSCALL_RET_CHECK (-1) (sys_close (snd main_to_mapper))
       (seq_io (mr_log_error log_file ''Main'' ''Main'' ''Failed to close write end of main_to_mapper pipe'')
       (seq_io (stop_children [mapper_pid, reducer_pid])
       (close_all [fst reducer_to_main]))) (
     SYSCALL_RET_CHECK (-1) (receive_output_from_reducer log_file (fst reducer_to_main) output_path)
       (seq_io (mr_log_error log_file ''Main'' ''Main'' ''Failed to receive output from reducer process'')
       (seq_io (stop_children [mapper_pid, reducer_pid])
       (close_all [fst reducer_to_main]))) (
     SYSCALL_RET_CHECK (-1) (sys_close (fst reducer_to_main))
       (seq_io (mr_log_error log_file ''Main'' ''Main'' ''Failed to close read end of reducer_to_main pipe'')
       (stop_children [mapper_pid, reducer_pid])) (
     SYSCALL_RET_CHECK (-1) (wait_for_process log_file ''Mapper'' mapper_pid)
       (seq_io (mr_log_error log_file ''Main'' ''Main'' ''Failed to wait for mapper process to finish'')
       (stop_children [reducer_pid])) (
     SYSCALL_RET_CHECK (-1) (wait_for_process log_file ''Reducer'' reducer_pid)
       (mr_log_error log_file ''Main'' ''Main'' ''Failed to wait for reducer process to finish'') (
     return_io 0)))))))))))"

text \<open>\<open>spawn_processes\<close> from \<open>// Spawn mapper\<close> on, and the whole of it.\<close>

definition spawn_children ::
    "mr_log_file_t \<Rightarrow> int \<times> int \<Rightarrow> int \<times> int \<Rightarrow> int \<times> int \<Rightarrow> ('s, int) osproc \<Rightarrow> ('s, int) osproc \<Rightarrow> path \<Rightarrow> path
      \<Rightarrow> ('s, int) osproc" where
  "spawn_children log_file main_to_mapper mapper_to_reducer reducer_to_main mapper_main reducer_main input_path output_path =
     SYSCALL_RET (-1) fst (spawn_mapper_process log_file main_to_mapper mapper_to_reducer reducer_to_main mapper_main)
       (seq_io (mr_log_error log_file ''Main'' ''Main'' ''Failed to spawn mapper process'')
       (close_all (ends_of [main_to_mapper, mapper_to_reducer, reducer_to_main]))) (\<lambda>(_, mapper_pid).
     SYSCALL_RET (-1) fst (spawn_reducer_process log_file main_to_mapper mapper_to_reducer reducer_to_main reducer_main)
       (seq_io (mr_log_error log_file ''Main'' ''Main'' ''Failed to spawn reducer process'')
       (seq_io (stop_children [mapper_pid])
       (close_all (snd main_to_mapper # ends_of [mapper_to_reducer, reducer_to_main])))) (\<lambda>(_, reducer_pid).
     run_job log_file main_to_mapper mapper_to_reducer reducer_to_main mapper_pid reducer_pid input_path output_path))"

definition spawn_processes ::
    "('s, int) osproc \<Rightarrow> ('s, int) osproc \<Rightarrow> path \<Rightarrow> path \<Rightarrow> mr_log_file_t \<Rightarrow> ('s, int) osproc" where
  "spawn_processes mapper_main reducer_main input_path output_path log_file =
     SYSCALL_RET_CHECK (-1) (mr_log_info log_file ''Main'' ''Main'' ''Spawning mapper and reducer processes...'')
       skip (
     SYSCALL_RET (-1) fst sys_pipe
       (mr_log_error log_file ''Main'' ''Main'' ''Failed to create pipe for main to mapper communication'') (\<lambda>(_, main_to_mapper).
     SYSCALL_RET (-1) fst sys_pipe
       (seq_io (mr_log_error log_file ''Main'' ''Main'' ''Failed to create pipe for mapper to reducer communication'')
       (close_all (ends_of [main_to_mapper]))) (\<lambda>(_, mapper_to_reducer).
     SYSCALL_RET (-1) fst sys_pipe
       (seq_io (mr_log_error log_file ''Main'' ''Main'' ''Failed to create pipe for reducer to main communication'')
       (close_all (ends_of [main_to_mapper, mapper_to_reducer]))) (\<lambda>(_, reducer_to_main).
     spawn_children log_file main_to_mapper mapper_to_reducer reducer_to_main mapper_main reducer_main input_path output_path))))"

section \<open>mr_run and mr_start\<close>

text \<open>The instance gives the log path; the rest of it is in the two process functions.\<close>

definition mr_run ::
    "path \<Rightarrow> (mr_log_file_t \<Rightarrow> ('s, int) osproc) \<Rightarrow> (mr_log_file_t \<Rightarrow> ('s, int) osproc) \<Rightarrow> path \<Rightarrow> path \<Rightarrow> ('s, int) osproc" where
  "mr_run log_path mapper_main reducer_main input_path output_path =
     SYSCALL_RET (-1) fst (mr_log_init \<lparr>lf_file = None, lf_sem = None\<rparr> log_path) skip (\<lambda>(_, log_file).
     SYSCALL_RET_CHECK (-1) (mr_log_info log_file ''Main'' ''Main'' ''Starting MapReduce job with input: %s and output: %s'') (mr_log_destroy log_file) (
     SYSCALL_RET_CHECK (-1)
       (spawn_processes (mapper_main log_file) (reducer_main log_file) input_path output_path log_file)
       (mr_log_destroy log_file) (
     SYSCALL_RET (-1) fst (mr_log_destroy log_file) skip (\<lambda>_. return_io 0))))"

text \<open>\<open>mr_start\<close>; a dangling handle is undefined.\<close>

definition mr_start ::
    "('m, 'r, 'u) mr handle \<Rightarrow> (('m, 'r, 'u) mr \<Rightarrow> mr_log_file_t \<Rightarrow> ('s, int) osproc)
      \<Rightarrow> (('m, 'r, 'u) mr \<Rightarrow> mr_log_file_t \<Rightarrow> ('s, int) osproc) \<Rightarrow> path option \<Rightarrow> path option \<Rightarrow> ('s, int) osproc" where
  "mr_start m mapper_main reducer_main input_path output_path =
     (if m = Null \<or> input_path = None \<or> output_path = None then seq_io (set_errno EINVAL) (return_io (-1))
      else case m of
        Valid i \<Rightarrow>
          seq_io (defined_c (attr_log_file (mr_attr i) \<noteq> None)) (
          SYSCALL_RET_CHECK (-1)
            (mr_run (cstr (the (attr_log_file (mr_attr i)))) (mapper_main i) (reducer_main i) (the input_path) (the output_path))
            skip (return_io 0))
      | _ \<Rightarrow> stop_io Undefined)"

section \<open>Rules\<close>

lemma child_fails_ends:
  assumes "evolve e0 e" and "log_ready L e0" and "\<And>e' s'. evolve e0 e' \<Longrightarrow> X (Exited EXIT_FAILURE) e' s'"
  shows "ends (child_fails L p m fs) e s Q X"
  unfolding child_fails_def ends_seq
  by (rule ok_ends, rule log_error_ok [OF assms(1,2)], rule ok_ends, erule close_all_any, simp add: ends_exit assms(3))

text \<open>One step of a child's set-up.\<close>

lemma child_close:
  assumes ev: "evolve e0 e" and log: "log_ready L e0" and "fds s fd \<noteq> None"
    and "\<And>e'. evolve e0 e' \<Longrightarrow> ends k e' (s\<lparr>fds := (fds s)(fd := None)\<rparr>) Q X"
    and "\<And>e' s'. evolve e0 e' \<Longrightarrow> faulty e0 \<Longrightarrow> X (Exited EXIT_FAILURE) e' s'"
  shows "ends (SYSCALL_RET_CHECK m1 (sys_close fd) (child_fails L p m fs) k) e s Q X"
  unfolding ends_SYSCALL_RET_CHECK
  by (rule ok_ends, rule sys_close_ok [OF ev assms(3)]) (simp_all add: assms(4,5) child_fails_ends [OF _ log])

lemma child_dup2:
  assumes ev: "evolve e0 e" and log: "log_ready L e0" and "fds s old \<noteq> None" and "0 \<le> new"
    and "\<And>e'. evolve e0 e' \<Longrightarrow> ends k e' (s\<lparr>rds := (rds s)(new := rds s old), wrs := (wrs s)(new := wrs s old),
      fds := (fds s)(new := fds s old)\<rparr>) Q X"
    and "\<And>e' s'. evolve e0 e' \<Longrightarrow> faulty e0 \<Longrightarrow> X (Exited EXIT_FAILURE) e' s'"
  shows "ends (SYSCALL_RET_CHECK m1 (sys_dup2 old new) (child_fails L p m fs) k) e s Q X"
  unfolding ends_SYSCALL_RET_CHECK
  by (rule ok_ends, rule sys_dup2_ok [OF ev assms(3)]) (use assms(4-) in \<open>simp_all add: child_fails_ends [OF _ log]\<close>)

text \<open>
  A child ready for its main function: the standard input is \<open>inp\<close>, the standard output is \<open>out\<close>, and
  no other end of the pipes is open.
\<close>

definition child_ready :: "int \<Rightarrow> int \<Rightarrow> int set \<Rightarrow> 's os \<Rightarrow> 's os \<Rightarrow> bool" where
  "child_ready inp outp gone s s' \<longleftrightarrow>
     fds s' = (\<lambda>fd. if fd = STDIN_FILENO then fds s inp else if fd = STDOUT_FILENO then fds s outp
       else if fd \<in> gone then None else fds s fd) \<and>
     rds s' STDIN_FILENO = rds s inp \<and> wrs s' STDOUT_FILENO = wrs s outp \<and> live s' = live s \<and> files s' = files s \<and>
     bad_closes s' = bad_closes s"

text \<open>The six ends as \<open>pipe\<close> gives them, above the standard streams.\<close>

definition pipe_ends :: "int \<times> int \<Rightarrow> int \<times> int \<Rightarrow> int \<times> int \<Rightarrow> 's os \<Rightarrow> bool" where
  "pipe_ends a b c s \<longleftrightarrow>
     distinct [STDIN_FILENO, STDOUT_FILENO, fst a, snd a, fst b, snd b, fst c, snd c] \<and>
     list_all (\<lambda>fd. fds s fd \<noteq> None) [fst a, snd a, fst b, snd b, fst c, snd c]"

lemma pipe_ends_neq:
  assumes "pipe_ends a b c s"
  shows "distinct [STDIN_FILENO, STDOUT_FILENO, fst a, snd a, fst b, snd b, fst c, snd c]"
    and "distinct [snd c, fst c, snd b, fst b, snd a, fst a, STDOUT_FILENO, STDIN_FILENO]"
    and "list_all (\<lambda>fd. fds s fd \<noteq> None) [fst a, snd a, fst b, snd b, fst c, snd c]"
  using assms by (auto simp: pipe_ends_def)

text \<open>The shape of both \<open>spawn\<close> functions, followed as the child and as the parent; \<open>K\<close> is the set-up.\<close>

lemma fork_child:
  assumes ev: "evolve e0 e" and log: "log_ready L e0" and child: "follow_child s = True # bs"
    and setting: "\<And>e'. evolve e0 e' \<Longrightarrow> ends K e' (s\<lparr>follow_child := bs, children := {}\<rparr>) Q X"
    and ret: "\<And>pid e' s'. evolve e0 e' \<Longrightarrow> faulty e0 \<Longrightarrow> Q (-1, pid) e' s'"
  shows "ends (SYSCALL_RET (-1, -1) id sys_fork (seq_io (mr_log_error L p0 t0 m0) (close_all f0)) (\<lambda>pid.
     if pid = 0 then SYSCALL_RET_CHECK (-1, 0) (mr_log_info L p1 t1 m1) (close_all f1) K else return_io (0, pid))) e s Q X"
proof -
  have cleanup: "ends (close_all fs) e' s' (\<lambda>_. Q (-1, pid)) X" if "evolve e0 e'" "faulty e0" for fs e' s' pid
    by (rule ok_ends, rule close_all_any [OF that(1)]) (simp add: ret that(2))
  have logged: "ends (seq_io (mr_log_error L p0 t0 m0) (close_all f0)) e' s' (\<lambda>_. Q (-1, pid)) X"
    if "evolve e0 e'" "faulty e0" for e' s' pid
    unfolding ends_seq by (rule ok_ends, rule log_error_ok [OF that(1) log]) (rule cleanup [OF _ that(2)])
  have start: "ends (SYSCALL_RET_CHECK (-1, 0) (mr_log_info L p1 t1 m1) (close_all f1) K) e'
      (s\<lparr>follow_child := bs, children := {}\<rparr>) Q X" if "evolve e0 e'" for e'
    unfolding ends_SYSCALL_RET_CHECK [where c = "close_all f1"]
    by (rule ok_ends, rule mr_log_ok [OF that log]) (simp_all add: setting cleanup)
  show ?thesis
    unfolding ends_SYSCALL_RET
    by (rule ok_ends, rule sys_fork_ok [OF ev]) (simp_all add: child start logged)
qed

lemma fork_parent:
  assumes ev: "evolve e0 e" and log: "log_ready L e0" and parent: "follow_child s = False # bs" and "0 < next_pid s"
    and good: "\<And>e'. evolve e0 e' \<Longrightarrow> Q (0, next_pid s) e' (s\<lparr>follow_child := bs, next_pid := next_pid s + 1,
      children := insert (next_pid s) (children s)\<rparr>)"
    and ret: "\<And>pid e' s'. evolve e0 e' \<Longrightarrow> faulty e0 \<Longrightarrow> Q (-1, pid) e' s'"
  shows "ok (SYSCALL_RET (-1, -1) id sys_fork (seq_io (mr_log_error L p0 t0 m0) (close_all f0)) (\<lambda>pid.
     if pid = 0 then K pid else return_io (0, pid))) e s Q"
proof -
  have logged: "ok (seq_io (mr_log_error L p0 t0 m0) (close_all f0)) e' s' (\<lambda>_. Q (-1, pid))"
    if "evolve e0 e'" "faulty e0" for e' s' pid
    unfolding ok_seq by (rule log_error_ok [OF that(1) log], erule close_all_any) (simp add: ret that(2))
  show ?thesis
    unfolding ok_SYSCALL_RET
    by (rule sys_fork_ok [OF ev]) (use assms(4) in \<open>simp_all add: parent good logged ok_return\<close>)
qed

lemma spawn_mapper_child:
  assumes ev: "evolve e0 e" and log: "log_ready L e0" and child: "follow_child s = True # bs" and pipes: "pipe_ends a b c s"
    and main: "\<And>e' s'. evolve e0 e' \<Longrightarrow>
      child_ready (fst a) (snd b) {fst a, snd a, fst b, snd b, fst c, snd c} s s' \<Longrightarrow>
      ends main e' s' (\<lambda>code. X (Exited code)) X"
    and fail: "\<And>e' s'. evolve e0 e' \<Longrightarrow> faulty e0 \<Longrightarrow> X (Exited EXIT_FAILURE) e' s'"
    and ret: "\<And>pid e' s'. evolve e0 e' \<Longrightarrow> faulty e0 \<Longrightarrow> Q (-1, pid) e' s'"
  shows "ends (spawn_mapper_process L a b c main) e s Q X"
proof -
  note d = pipe_ends_neq [OF pipes, simplified]
  note close = child_close [where X = X, OF _ log _ _ fail] and dup = child_dup2 [where X = X, OF _ log _ _ _ fail]
  let ?s = "s\<lparr>follow_child := bs, children := {}\<rparr>"
  have prepare: "ends (SYSCALL_RET_CHECK (-1, 0) (sys_close (snd a)) (child_fails L ''Mapper'' m1 f1) (
       SYSCALL_RET_CHECK (-1, 0) (sys_close (fst b)) (child_fails L ''Mapper'' m2 f2) (
       SYSCALL_RET_CHECK (-1, 0) (sys_close (fst c)) (child_fails L ''Mapper'' m3 f3) (
       SYSCALL_RET_CHECK (-1, 0) (sys_close (snd c)) (child_fails L ''Mapper'' m4 f4) (
       SYSCALL_RET_CHECK (-1, 0) (sys_dup2 (fst a) STDIN_FILENO) (child_fails L ''Mapper'' m5 f5) (
       SYSCALL_RET_CHECK (-1, 0) (sys_close (fst a)) (child_fails L ''Mapper'' m6 f6) (
       SYSCALL_RET_CHECK (-1, 0) (sys_dup2 (snd b) STDOUT_FILENO) (child_fails L ''Mapper'' m7 f7) (
       SYSCALL_RET_CHECK (-1, 0) (sys_close (snd b)) (child_fails L ''Mapper'' m8 f8) (
       bind_io main sys_exit))))))))) e' ?s Q X" if "evolve e0 e'"
    for e' m1 m2 m3 m4 m5 m6 m7 m8 f1 f2 f3 f4 f5 f6 f7 f8
    using that
    apply -
    apply (rule close, assumption, simp add: d)
     apply (rule close, assumption, simp add: d)
      apply (rule close, assumption, simp add: d)
       apply (rule close, assumption, simp add: d)
        apply (rule dup, assumption, simp add: d, simp)
         apply (rule close, assumption, simp add: d)
          apply (rule dup, assumption, simp add: d, simp)
           apply (rule close, assumption, simp add: d)
            apply (unfold ends_bind ends_exit, rule main, assumption)
            apply (simp add: child_ready_def d fun_eq_iff)
           apply assumption+
    done
  show ?thesis
    unfolding spawn_mapper_process_def
    by (rule fork_child [OF ev log child]; (rule prepare | rule ret))
qed

lemma spawn_reducer_child:
  assumes ev: "evolve e0 e" and log: "log_ready L e0" and child: "follow_child s = True # bs" and pipes: "pipe_ends a b c s"
    and main: "\<And>e' s'. evolve e0 e' \<Longrightarrow>
      child_ready (fst b) (snd c) {fst a, snd a, fst b, snd b, fst c, snd c} s s' \<Longrightarrow>
      ends main e' s' (\<lambda>code. X (Exited code)) X"
    and fail: "\<And>e' s'. evolve e0 e' \<Longrightarrow> faulty e0 \<Longrightarrow> X (Exited EXIT_FAILURE) e' s'"
    and ret: "\<And>pid e' s'. evolve e0 e' \<Longrightarrow> faulty e0 \<Longrightarrow> Q (-1, pid) e' s'"
  shows "ends (spawn_reducer_process L a b c main) e s Q X"
proof -
  note d = pipe_ends_neq [OF pipes, simplified]
  note close = child_close [where X = X, OF _ log _ _ fail] and dup = child_dup2 [where X = X, OF _ log _ _ _ fail]
  let ?s = "s\<lparr>follow_child := bs, children := {}\<rparr>"
  have prepare: "ends (SYSCALL_RET_CHECK (-1, 0) (sys_close (fst a)) (child_fails L ''Reducer'' m1 f1) (
       SYSCALL_RET_CHECK (-1, 0) (sys_close (snd a)) (child_fails L ''Reducer'' m2 f2) (
       SYSCALL_RET_CHECK (-1, 0) (sys_close (snd b)) (child_fails L ''Reducer'' m3 f3) (
       SYSCALL_RET_CHECK (-1, 0) (sys_close (fst c)) (child_fails L ''Reducer'' m4 f4) (
       SYSCALL_RET_CHECK (-1, 0) (sys_dup2 (fst b) STDIN_FILENO) (child_fails L ''Reducer'' m5 f5) (
       SYSCALL_RET_CHECK (-1, 0) (sys_close (fst b)) (child_fails L ''Reducer'' m6 f6) (
       SYSCALL_RET_CHECK (-1, 0) (sys_dup2 (snd c) STDOUT_FILENO) (child_fails L ''Reducer'' m7 f7) (
       SYSCALL_RET_CHECK (-1, 0) (sys_close (snd c)) (child_fails L ''Reducer'' m8 f8) (
       bind_io main sys_exit))))))))) e' ?s Q X" if "evolve e0 e'"
    for e' m1 m2 m3 m4 m5 m6 m7 m8 f1 f2 f3 f4 f5 f6 f7 f8
    using that
    apply -
    apply (rule close, assumption, simp add: d)
     apply (rule close, assumption, simp add: d)
      apply (rule close, assumption, simp add: d)
       apply (rule close, assumption, simp add: d)
        apply (rule dup, assumption, simp add: d, simp)
         apply (rule close, assumption, simp add: d)
          apply (rule dup, assumption, simp add: d, simp)
           apply (rule close, assumption, simp add: d)
            apply (unfold ends_bind ends_exit, rule main, assumption)
            apply (simp add: child_ready_def d fun_eq_iff)
           apply assumption+
    done
  show ?thesis
    unfolding spawn_reducer_process_def
    by (rule fork_child [OF ev log child]; (rule prepare | rule ret))
qed

text \<open>A command that only cleans up: whatever the state, it returns.\<close>

definition cleans :: "env \<Rightarrow> ('s, 'a) osproc \<Rightarrow> bool" where
  "cleans e0 c \<longleftrightarrow> (\<forall>e s. evolve e0 e \<longrightarrow> ok c e s (\<lambda>_ e' _. evolve e0 e'))"

lemma cleansD: "cleans e0 c \<Longrightarrow> evolve e0 e \<Longrightarrow> ok c e s (\<lambda>_ e' _. evolve e0 e')"
  by (simp add: cleans_def)

lemma cleans_skip: "cleans e0 skip"
  by (simp add: cleans_def ok_simps)

lemma cleans_seq: "cleans e0 m \<Longrightarrow> cleans e0 c \<Longrightarrow> cleans e0 (seq_io m c)"
  unfolding cleans_def ok_seq by (blast intro: ok_mono)

lemma cleans_log: "log_ready L e0 \<Longrightarrow> cleans e0 (mr_log L l p t m)"
  unfolding cleans_def by (auto intro: mr_log_ok)

lemma cleans_close_all: "cleans e0 (close_all fs)"
  unfolding cleans_def by (auto intro: close_all_any)

lemma cleans_foldr: "(\<And>x. cleans e0 (f x)) \<Longrightarrow> cleans e0 (foldr (\<lambda>x. seq_io (f x)) xs skip)"
  by (induction xs) (auto intro: cleans_skip cleans_seq)

lemma cleans_stop_children: "cleans e0 (stop_children pids)"
proof -
  have "cleans e0 (sys_kill pid)" "cleans e0 (sys_waitpid pid)" for pid
    by (auto simp: cleans_def intro: sys_kill_any sys_waitpid_any)
  then show ?thesis unfolding stop_children_def by (intro cleans_seq cleans_foldr)
qed

lemmas cleans_rules = cleans_skip cleans_seq cleans_log cleans_close_all cleans_stop_children

text \<open>One step of the main process: a call, its clean-up, the code after it.\<close>

lemma main_check:
  assumes "ok m e s (\<lambda>r e' s'. if r = -1 then evolve e0 e' \<and> faulty e0 else ok k e' s' Q)" and "cleans e0 c"
    and "\<And>e' s'. evolve e0 e' \<Longrightarrow> faulty e0 \<Longrightarrow> Q (-1) e' s'"
  shows "ok (SYSCALL_RET_CHECK (-1) m c k) e s Q"
  unfolding ok_SYSCALL_RET_CHECK
  by (rule ok_mono [OF assms(1)]) (use assms(3) in \<open>auto split: if_splits intro: ok_mono [OF cleansD [OF assms(2)]]\<close>)

lemma main_ret:
  assumes "ok m e s (\<lambda>r e' s'. if fst r = -1 then evolve e0 e' \<and> faulty e0 else ok (k r) e' s' Q)" and "cleans e0 c"
    and "\<And>e' s'. evolve e0 e' \<Longrightarrow> faulty e0 \<Longrightarrow> Q (-1) e' s'"
  shows "ok (SYSCALL_RET (-1) fst m c k) e s Q"
  unfolding ok_SYSCALL_RET
  by (rule ok_mono [OF assms(1)]) (use assms(3) in \<open>auto split: if_splits intro: ok_mono [OF cleansD [OF assms(2)]]\<close>)

lemma wait_for_process_ok:
  assumes ev: "evolve e0 e" and log: "log_ready L e0" and pid: "pid \<in> children s" "pid \<noteq> -1"
    and good: "\<And>e'. evolve e0 e' \<Longrightarrow> Q 0 e' (s\<lparr>children := children s - {pid}\<rparr>)"
    and bad: "\<And>e' s'. evolve e0 e' \<Longrightarrow> faulty e0 \<Longrightarrow> Q (-1) e' s'"
  shows "ok (wait_for_process L nm pid) e s Q"
proof -
  have logged: "ok (SYSCALL_RET_CHECK (-1) (mr_log L l p t m) skip (return_io 0)) e' (s\<lparr>children := children s - {pid}\<rparr>) Q"
    if "evolve e0 e'" for e' l p t m
    by (rule main_check, rule mr_log_ok [OF that log]) (auto simp: ok_simps intro: good bad cleans_skip)
  show ?thesis
    unfolding wait_for_process_def
    by (rule main_ret, rule sys_waitpid_ok [OF ev pid(1)])
       (use pid(2) logged in \<open>auto split: status.split intro: bad cleans_log [OF log]\<close>)
qed

text \<open>The calls of the main process as such steps; an error ends the run in any state.\<close>

definition gives_up :: "env \<Rightarrow> (int \<Rightarrow> env \<Rightarrow> 's os \<Rightarrow> bool) \<Rightarrow> bool" where
  "gives_up e0 Q \<longleftrightarrow> (\<forall>e' s'. evolve e0 e' \<longrightarrow> faulty e0 \<longrightarrow> Q (-1) e' s')"

lemma main_log:
  assumes "evolve e0 e" and "log_ready L e0" and "gives_up e0 Q" and "cleans e0 c"
    and "\<And>e'. evolve e0 e' \<Longrightarrow> ok k e' s Q"
  shows "ok (SYSCALL_RET_CHECK (-1) (mr_log_info L p t m) c k) e s Q"
  by (rule main_check, rule mr_log_ok [OF assms(1,2)]) (use assms(3-) in \<open>auto simp: gives_up_def\<close>)

lemma main_close:
  assumes "evolve e0 e" and "gives_up e0 Q" and "cleans e0 c" and "fds s fd \<noteq> None"
    and "\<And>e'. evolve e0 e' \<Longrightarrow> ok k e' (s\<lparr>fds := (fds s)(fd := None)\<rparr>) Q"
  shows "ok (SYSCALL_RET_CHECK (-1) (sys_close fd) c k) e s Q"
  by (rule main_check, rule sys_close_ok [OF assms(1,4)]) (use assms(2,3,5) in \<open>auto simp: gives_up_def\<close>)

lemma main_pipe:
  assumes "evolve e0 e" and "gives_up e0 Q" and "cleans e0 c" and "fd_room (Suc (Suc n)) (fds s)"
    and "\<And>e' r w. evolve e0 e' \<Longrightarrow> fds s r = None \<Longrightarrow> fds s w = None \<Longrightarrow> r \<noteq> w \<Longrightarrow> 0 \<le> r \<Longrightarrow> 0 \<le> w \<Longrightarrow>
      fd_room n (fds (piped r w s)) \<Longrightarrow> ok (k (0, r, w)) e' (piped r w s) Q"
  shows "ok (SYSCALL_RET (-1) fst sys_pipe c k) e s Q"
  by (rule main_ret, rule sys_pipe_ok [OF assms(1,4)]) (use assms(2,3,5) in \<open>auto simp: gives_up_def\<close>)

abbreviation forked :: "'s os \<Rightarrow> 's os" where
  "forked s \<equiv> s\<lparr>follow_child := tl (follow_child s), next_pid := next_pid s + 1, children := insert (next_pid s) (children s)\<rparr>"

lemma main_spawn_mapper:
  assumes "evolve e0 e" and "gives_up e0 Q" and "cleans e0 cmd" and "log_ready L e0"
    and parent: "follow_child s = False # bs" and "0 < next_pid s"
    and "\<And>e'. evolve e0 e' \<Longrightarrow> ok (k (0, next_pid s)) e' (forked s) Q"
  shows "ok (SYSCALL_RET (-1) fst (spawn_mapper_process L a b c main) cmd k) e s Q"
  by (rule main_ret, unfold spawn_mapper_process_def, rule fork_parent [OF assms(1,4) parent assms(6)])
     (use assms(2,3,7) parent in \<open>auto simp: gives_up_def\<close>)

lemma main_spawn_reducer:
  assumes "evolve e0 e" and "gives_up e0 Q" and "cleans e0 cmd" and "log_ready L e0"
    and parent: "follow_child s = False # bs" and "0 < next_pid s"
    and "\<And>e'. evolve e0 e' \<Longrightarrow> ok (k (0, next_pid s)) e' (forked s) Q"
  shows "ok (SYSCALL_RET (-1) fst (spawn_reducer_process L a b c main) cmd k) e s Q"
  by (rule main_ret, unfold spawn_reducer_process_def, rule fork_parent [OF assms(1,4) parent assms(6)])
     (use assms(2,3,7) parent in \<open>auto simp: gives_up_def\<close>)

lemma main_send:
  assumes "evolve e0 e" and "gives_up e0 Q" and "cleans e0 c" and "log_ready L e0" and "0 \<le> fd" and "good_input (files s) p"
    and "\<And>e'. evolve e0 e' \<Longrightarrow> ok k e' (add_wr fd (files_bytes (fresh_block e0 7) (input_files (files s) p)) s) Q"
  shows "ok (SYSCALL_RET_CHECK (-1) (send_input_to_mapper L fd p) c k) e s Q"
  by (rule main_check, rule send_input_ok [OF assms(1,4-6)]) (use assms(2,3,7) in \<open>auto simp: gives_up_def writes_def\<close>)

lemma main_receive:
  assumes "evolve e0 e" and "gives_up e0 Q" and "cleans e0 c" and "log_ready L e0" and "0 \<le> fd"
    and "rds s fd = results_bytes xs" and "\<forall>x \<in> set xs. small_result x" and "\<not> is_dir_node (files s p)"
    and "\<And>e' d. evolve e0 e' \<Longrightarrow> 0 \<le> d \<Longrightarrow> d \<le> int (empties xs) \<Longrightarrow> ok k e' (received p fd (output_bytes xs) d s) Q"
  shows "ok (SYSCALL_RET_CHECK (-1) (receive_output_from_reducer L fd p) c k) e s Q"
  by (rule main_check, rule receive_output_ok [OF assms(1,4-8)]) (use assms(2,3,9) in \<open>auto simp: gives_up_def outputs_def\<close>)

lemma main_wait:
  assumes "evolve e0 e" and "gives_up e0 Q" and "cleans e0 c" and "log_ready L e0" and "pid \<in> children s" and "pid \<noteq> -1"
    and "\<And>e'. evolve e0 e' \<Longrightarrow> ok k e' (s\<lparr>children := children s - {pid}\<rparr>) Q"
  shows "ok (SYSCALL_RET_CHECK (-1) (wait_for_process L nm pid) c k) e s Q"
  by (rule main_check, rule wait_for_process_ok [OF assms(1,4-6)]) (use assms(2,3,7) in \<open>auto simp: gives_up_def\<close>)

text \<open>
  The same steps on a state given by its fields, so that a run of many steps keeps the state in
  this form: \<open>F\<close> is the descriptor table, \<open>C\<close> the children, \<open>R\<close> and \<open>W\<close> the streams.
\<close>

abbreviation os ::
    "int \<Rightarrow> int \<Rightarrow> (path \<Rightarrow> node option) \<Rightarrow> int \<Rightarrow> (nat \<Rightarrow> byte list) \<Rightarrow> (int \<Rightarrow> status) \<Rightarrow> 'z \<Rightarrow> int list
      \<Rightarrow> (int \<Rightarrow> byte list) \<Rightarrow> (int \<Rightarrow> byte list) \<Rightarrow> (int \<Rightarrow> endpoint option) \<Rightarrow> nat \<Rightarrow> bool list \<Rightarrow> int \<Rightarrow> int set \<Rightarrow> 'z os" where
  "os l h fls en inc st rst bcl R W F k bs pid C \<equiv>
     \<lparr>live = l, handles = h, rds = R, wrs = W, files = fls, errno = en, fds = F, bad_closes = bcl, next_pipe = k,
      incoming = inc, follow_child = bs, next_pid = pid, children = C, statuses = st, \<dots> = rst\<rparr>"

lemma os_cases:
  obtains l h fls en inc st rst bcl R W F k bs pid C where "s = os l h fls en inc st rst bcl R W F k bs pid C"
  by (cases s) blast

lemma os_close:
  assumes "evolve e0 e" and "gives_up e0 Q" and "cleans e0 c" and "F fd \<noteq> None"
    and "\<And>e'. evolve e0 e' \<Longrightarrow> ok k e' (os l h fls en inc st rst bcl R W (F(fd := None)) n bs pid C) Q"
  shows "ok (SYSCALL_RET_CHECK (-1) (sys_close fd) c k) e (os l h fls en inc st rst bcl R W F n bs pid C) Q"
  by (rule main_close [OF assms(1-3)]) (simp_all add: assms(4,5))

lemma os_send:
  assumes "evolve e0 e" and "gives_up e0 Q" and "cleans e0 c" and "log_ready L e0" and "0 \<le> fd" and "good_input fls p"
    and "\<And>e'. evolve e0 e' \<Longrightarrow> ok k e' (os l h fls en inc st rst bcl R
      (W(fd := W fd @ files_bytes (fresh_block e0 7) (input_files fls p))) F n bs pid C) Q"
  shows "ok (SYSCALL_RET_CHECK (-1) (send_input_to_mapper L fd p) c k) e (os l h fls en inc st rst bcl R W F n bs pid C) Q"
  by (rule main_send [OF assms(1-5)]) (simp_all add: assms(6,7))

lemma os_receive:
  assumes "evolve e0 e" and "gives_up e0 Q" and "cleans e0 c" and "log_ready L e0" and "0 \<le> fd"
    and "R fd = results_bytes xs" and "\<forall>x \<in> set xs. small_result x" and "\<not> is_dir_node (fls p)"
    and "\<And>e' d. evolve e0 e' \<Longrightarrow> 0 \<le> d \<Longrightarrow> d \<le> int (empties xs) \<Longrightarrow>
      ok k e' (os (l + d) h (fls(p \<mapsto> Reg (output_bytes xs))) en inc st rst bcl (R(fd := [])) W F n bs pid C) Q"
  shows "ok (SYSCALL_RET_CHECK (-1) (receive_output_from_reducer L fd p) c k) e
    (os l h fls en inc st rst bcl R W F n bs pid C) Q"
  by (rule main_receive [where xs = xs, OF assms(1-5)]) (simp_all add: assms(6-))

lemma os_wait:
  assumes "evolve e0 e" and "gives_up e0 Q" and "cleans e0 c" and "log_ready L e0" and "p \<in> C" and "0 < p"
    and "\<And>e'. evolve e0 e' \<Longrightarrow> ok k e' (os l h fls en inc st rst bcl R W F n bs pid (C - {p})) Q"
  shows "ok (SYSCALL_RET_CHECK (-1) (wait_for_process L nm p) c k) e (os l h fls en inc st rst bcl R W F n bs pid C) Q"
  by (rule main_wait [OF assms(1-4)]) (use assms(5-) in simp_all)

lemma os_pipe:
  assumes "evolve e0 e" and "gives_up e0 Q" and "cleans e0 c" and "fd_room (Suc (Suc m)) F"
    and "\<And>e' r w. evolve e0 e' \<Longrightarrow> F r = None \<Longrightarrow> F w = None \<Longrightarrow> r \<noteq> w \<Longrightarrow> 0 \<le> r \<Longrightarrow> 0 \<le> w \<Longrightarrow>
      fd_room m (F(r \<mapsto> Read_end n, w \<mapsto> Write_end n)) \<Longrightarrow>
      ok (k (0, r, w)) e' (os l h fls en inc st rst bcl (R(r := inc n)) (W(w := []))
        (F(r \<mapsto> Read_end n, w \<mapsto> Write_end n)) (Suc n) bs pid C) Q"
  shows "ok (SYSCALL_RET (-1) fst sys_pipe c k) e (os l h fls en inc st rst bcl R W F n bs pid C) Q"
  by (rule main_pipe [where n = m, OF assms(1-3)]) (simp_all add: assms(4,5))

lemma os_spawn_mapper:
  assumes "evolve e0 e" and "gives_up e0 Q" and "cleans e0 cmd" and "log_ready L e0" and "0 < pid"
    and "\<And>e'. evolve e0 e' \<Longrightarrow> ok (k (0, pid)) e' (os l h fls en inc st rst bcl R W F n bs (pid + 1) (insert pid C)) Q"
  shows "ok (SYSCALL_RET (-1) fst (spawn_mapper_process L a b c main) cmd k) e
    (os l h fls en inc st rst bcl R W F n (False # bs) pid C) Q"
  by (rule main_spawn_mapper [OF assms(1-4)]) (simp_all add: assms(5,6))

lemma os_spawn_reducer:
  assumes "evolve e0 e" and "gives_up e0 Q" and "cleans e0 cmd" and "log_ready L e0" and "0 < pid"
    and "\<And>e'. evolve e0 e' \<Longrightarrow> ok (k (0, pid)) e' (os l h fls en inc st rst bcl R W F n bs (pid + 1) (insert pid C)) Q"
  shows "ok (SYSCALL_RET (-1) fst (spawn_reducer_process L a b c main) cmd k) e
    (os l h fls en inc st rst bcl R W F n (False # bs) pid C) Q"
  by (rule main_spawn_reducer [OF assms(1-4)]) (simp_all add: assms(5,6))

text \<open>
  What a job needs: room for six descriptors, this run follows the parent, new process numbers, a
  proper input, and a reducer that sends whole results and then closes its end.
\<close>

definition host_ready :: "path \<Rightarrow> path \<Rightarrow> 's os \<Rightarrow> bool" where
  "host_ready input output s \<longleftrightarrow>
     fd_room 6 (fds s) \<and> (\<exists>bs. follow_child s = False # False # bs) \<and> 0 < next_pid s \<and>
     next_pid s \<notin> children s \<and> next_pid s + 1 \<notin> children s \<and> good_input (files s) input \<and> \<not> is_dir_node (files s output)"

definition job_ready :: "path \<Rightarrow> path \<Rightarrow> (byte list \<times> byte list) list \<Rightarrow> 's os \<Rightarrow> bool" where
  "job_ready input output xs s \<longleftrightarrow>
     host_ready input output s \<and> incoming s (next_pipe s + 2) = results_bytes xs \<and> (\<forall>x \<in> set xs. small_result x)"

text \<open>The state after a job: everything as before but the output file, and the input written to a pipe.\<close>

definition job_done :: "env \<Rightarrow> path \<Rightarrow> path \<Rightarrow> (byte list \<times> byte list) list \<Rightarrow> 's os \<Rightarrow> 's os \<Rightarrow> bool" where
  "job_done e input output xs s s' \<longleftrightarrow>
     fds s' = fds s \<and> children s' = children s \<and> bad_closes s' = bad_closes s \<and> handles s' = handles s \<and>
     files s' = (files s)(output \<mapsto> Reg (output_bytes xs)) \<and>
     (\<exists>fd. fds s fd = None \<and> wrs s' fd = files_bytes (fresh_block e 7) (input_files (files s) input)) \<and>
     live s \<le> live s' \<and> live s' \<le> live s + int (empties xs)"

lemma run_job_ok:
  assumes ev: "evolve e0 e" and log: "log_ready L e0" and bad: "gives_up e0 Q"
    and ne: "distinct [fst a, snd a, fst b, snd b, fst c, snd c]"
    and opened: "list_all (\<lambda>fd. F fd \<noteq> None \<and> 0 \<le> fd) [fst a, snd a, fst b, snd b, fst c, snd c]"
    and pids: "m \<in> C" "p \<in> C" "m \<noteq> p" "0 < m" "0 < p"
    and inp: "good_input fls inp"
    and out: "R (fst c) = results_bytes xs" "\<forall>x \<in> set xs. small_result x" "\<not> is_dir_node (fls outp)"
    and good: "\<And>e' d. evolve e0 e' \<Longrightarrow> 0 \<le> d \<Longrightarrow> d \<le> int (empties xs) \<Longrightarrow>
      Q 0 e' (os (l + d) h (fls(outp \<mapsto> Reg (output_bytes xs))) en inc st rst bcl (R(fst c := []))
        (W(snd a := W (snd a) @ files_bytes (fresh_block e0 7) (input_files fls inp)))
        (F(fst a := None, fst b := None, snd b := None, snd c := None, snd a := None, fst c := None))
        n bs pid (C - {m} - {p}))"
  shows "ok (run_job L a b c m p inp outp) e (os l h fls en inc st rst bcl R W F n bs pid C) Q"
proof -
  note rules = cleans_rules log bad
  have "distinct (rev [fst a, snd a, fst b, snd b, fst c, snd c])" using ne by (simp only: distinct_rev)
  note d = ne [simplified] this [simplified] opened [simplified]
  show ?thesis
    unfolding run_job_def
    apply (rule os_close [OF ev], (intro rules)+, simp add: d)
    apply (rule os_close, assumption, (intro rules)+, simp add: d)
    apply (rule os_close, assumption, (intro rules)+, simp add: d)
    apply (rule os_close, assumption, (intro rules)+, simp add: d)
    apply (rule main_log, assumption, (intro rules)+)
    apply (rule os_send, assumption, (intro rules)+, simp add: d, simp add: inp)
    apply (rule os_close, assumption, (intro rules)+, simp add: d)
    apply (rule os_receive [where xs = xs], assumption, (intro rules)+, simp add: d, simp add: out, simp add: out, simp add: out)
    apply (rule os_close, assumption, (intro rules)+, simp add: d)
    apply (rule os_wait, assumption, (intro rules)+, simp add: pids, simp add: pids)
    apply (rule os_wait, assumption, (intro rules)+, use pids in simp, simp add: pids)
    apply (simp only: ok_return, rule good, assumption+)
    done
qed

text \<open>The six descriptors of three pipes are distinct and open; closing them all restores the table.\<close>

lemma three_pipes:
  assumes "F r1 = None" "F w1 = None" "r1 \<noteq> w1" "0 \<le> r1" "0 \<le> w1"
    and F1: "F1 = F(r1 \<mapsto> x1, w1 \<mapsto> y1)" "F1 r2 = None" "F1 w2 = None" "r2 \<noteq> w2" "0 \<le> r2" "0 \<le> w2"
    and F2: "F2 = F1(r2 \<mapsto> x2, w2 \<mapsto> y2)" "F2 r3 = None" "F2 w3 = None" "r3 \<noteq> w3" "0 \<le> r3" "0 \<le> w3"
    and F3: "F3 = F2(r3 \<mapsto> x3, w3 \<mapsto> y3)"
  shows three_pipes_distinct: "distinct [r1, w1, r2, w2, r3, w3]"
    and three_pipes_opened: "list_all (\<lambda>fd. F3 fd \<noteq> None \<and> 0 \<le> fd) [r1, w1, r2, w2, r3, w3]"
    and three_pipes_fresh: "list_all (\<lambda>fd. F fd = None) [r1, w1, r2, w2, r3, w3]"
    and three_pipes_closed: "F3(r1 := None, r2 := None, w2 := None, w3 := None, w1 := None, r3 := None) = F"
proof -
  show d: "distinct [r1, w1, r2, w2, r3, w3]" using assms by (auto split: if_splits)
  show "list_all (\<lambda>fd. F3 fd \<noteq> None \<and> 0 \<le> fd) [r1, w1, r2, w2, r3, w3]"
    using assms by simp
  have none: "F r2 = None" "F w2 = None" "F r3 = None" "F w3 = None" using assms by (auto split: if_splits)
  then show "list_all (\<lambda>fd. F fd = None) [r1, w1, r2, w2, r3, w3]" using assms(1,2) by simp
  from none show "F3(r1 := None, r2 := None, w2 := None, w3 := None, w1 := None, r3 := None) = F"
    using assms by (auto simp: fun_eq_iff)
qed

lemma spawn_processes_ok:
  assumes ev: "evolve e0 e" and log: "log_ready L e0" and ready: "job_ready inp outp xs s" and bad: "gives_up e0 Q"
    and good: "\<And>e' s'. evolve e0 e' \<Longrightarrow> job_done e0 inp outp xs s s' \<Longrightarrow> Q 0 e' s'"
  shows "ok (spawn_processes mapper_main reducer_main inp outp L) e s Q"
proof -
  obtain l h fls en inc st rst bcl R W F n fc pid C where s: "s = os l h fls en inc st rst bcl R W F n fc pid C"
    by (rule os_cases)
  obtain bs where r: "fd_room 6 F" "fc = False # False # bs" "0 < pid" "pid \<notin> C" "pid + 1 \<notin> C"
      "good_input fls inp" "inc (Suc (Suc n)) = results_bytes xs" "\<forall>x \<in> set xs. small_result x" "\<not> is_dir_node (fls outp)"
    using ready by (auto simp: job_ready_def host_ready_def s eval_nat_numeral)
  note rules = cleans_rules log bad
  show ?thesis
    unfolding spawn_processes_def spawn_children_def s r(2)
    apply (rule main_log [OF ev log bad cleans_skip])
    apply (rule os_pipe [where m = 4], assumption, (intro rules)+, simp add: r, unfold prod.case)
    apply (rule os_pipe [where m = 2], assumption, (intro rules)+, simp add: eval_nat_numeral, unfold prod.case)
    apply (rule os_pipe [where m = 0], assumption, (intro rules)+, simp add: eval_nat_numeral, unfold prod.case)
    apply (rule os_spawn_mapper, assumption, (intro rules)+, simp add: r, unfold prod.case)
    apply (rule os_spawn_reducer, assumption, (intro rules)+, use r(3) in simp, unfold prod.case)
    apply (rule run_job_ok [where xs = xs], assumption, rule log, rule bad, unfold fst_conv snd_conv)
    subgoal by (rule three_pipes_distinct; (assumption | rule refl))
    subgoal by (rule three_pipes_opened; (assumption | rule refl))
    subgoal by simp
    subgoal by simp
    subgoal by simp
    subgoal by (rule r(3))
    subgoal using r(3) by simp
    subgoal by (rule r(6))
    subgoal by (simp add: r(7))
    subgoal by (rule r(8))
    subgoal by (rule r(9))
    subgoal premises p for e1 e2 r1 w1 e3 r2 w2 e4 r3 w3 e5 e6 e7 d
    proof (rule good [OF p(25)])
      note d = three_pipes_distinct [OF p(3-7) refl p(10-14) refl p(17-21) refl, simplified]
      have "insert (pid + 1) (insert pid C) - {pid} - {pid + 1} = C" using r(4,5) by auto
      moreover have "w2 \<noteq> w1" "w3 \<noteq> w1" using d by auto
      ultimately show "job_done e0 inp outp xs s (os (l + d) h (fls(outp \<mapsto> Reg (output_bytes xs))) en inc st rst bcl
          (R(r1 := inc n, r2 := inc (Suc n), r3 := inc (Suc (Suc n)), r3 := []))
          (W(w1 := [], w2 := [], w3 := [], w1 := (W(w1 := [], w2 := [], w3 := [])) w1
            @ files_bytes (fresh_block e0 7) (input_files fls inp)))
          (F(r1 \<mapsto> Read_end n, w1 \<mapsto> Write_end n, r2 \<mapsto> Read_end (Suc n), w2 \<mapsto> Write_end (Suc n),
            r3 \<mapsto> Read_end (Suc (Suc n)), w3 \<mapsto> Write_end (Suc (Suc n)), r1 := None, r2 := None, w2 := None,
            w3 := None, w1 := None, r3 := None))
          (Suc (Suc (Suc n))) bs (pid + 1 + 1) (insert (pid + 1) (insert pid C) - {pid} - {pid + 1}))"
        unfolding three_pipes_closed [OF p(3-7) refl p(10-14) refl p(17-21) refl]
        using p(26,27) by (auto simp: s job_done_def intro!: exI [where x = w1] p(4))
    qed
    done
qed

end
