(* ===== verification/Mr_Job.thy ===== *)
theory Mr_Job
  imports Mr_Process
begin

text \<open>
  What the job of \<open>src/core.c\<close> guarantees, seen from each of its three processes: the main process
  runs to the end with everything given back, each child has exactly its own two pipe ends, and
  what a failed \<open>fork\<close> or a failed log entry in a child does.
\<close>

section \<open>The parent\<close>

text \<open>The whole run of the main process: with an input that can be read, children that run, and a
  reducer that sends whole results and closes its end, \<open>spawn_processes\<close> returns 0 with the whole
  input written to the mapper's pipe, the output file holding all results, both children waited
  for and every descriptor it opened closed once; it returns -1 only after a failed call.\<close>

theorem spawn_processes_completes:
  assumes "log_ready L e" and "job_ready inp outp xs s"
  shows "ok (spawn_processes mapper_main reducer_main inp outp L) e s
    (\<lambda>r e' s'. r = 0 \<and> job_done e inp outp xs s s' \<or> r = -1 \<and> faulty e)"
  by (rule spawn_processes_ok [OF evolve_refl assms]) (auto simp: gives_up_def)

abbreviation example_os :: "bool list \<Rightarrow> unit os" where
  "example_os bs \<equiv> \<lparr>live = 0, handles = 0, rds = (\<lambda>_. []), wrs = (\<lambda>_. []), files = [[105] \<mapsto> Reg [104, 10]], errno = 0,
     fds = (\<lambda>fd. if 0 \<le> fd \<and> fd \<le> 2 then Some Terminal else None), bad_closes = [], next_pipe = 0,
     incoming = (\<lambda>k. if k = 2 then results_bytes [([104], [49])] else []), follow_child = bs, next_pid = 100,
     children = {}, statuses = (\<lambda>_. Exited_with 0), \<dots> = ()\<rparr>"

text \<open>Room for \<open>n\<close> descriptors where all numbers from \<open>k\<close> on are free.\<close>

lemma fd_roomI:
  assumes "\<And>fd. int k \<le> fd \<Longrightarrow> F fd = None" and "k + n \<le> OPEN_MAX"
  shows "fd_room n F"
proof -
  have "[0..<OPEN_MAX] = [0..<k] @ [k..<OPEN_MAX]" 
    using upt_add_eq_append [of 0 k "OPEN_MAX - k"] assms(2) by simp
  moreover have "filter (\<lambda>fd. F fd = None) (map int [k..<OPEN_MAX]) = map int [k..<OPEN_MAX]"
    using assms(1) by (intro filter_True) (auto simp del: upt_rec_numeral)
  ultimately have "length (free_fds F) \<ge> OPEN_MAX - k"
    by (simp only: free_fds_def map_append filter_append length_append length_map length_upt)
  then show ?thesis using assms(2) by (simp add: fd_room_def)
qed

lemma example_fd_room: "fd_room 6 (fds (example_os bs))"
  by (rule fd_roomI [where k = 3]) simp_all

lemma example_job_ready: "job_ready [105] [111] [([104], [49])] (example_os [False, False])"
  unfolding job_ready_def host_ready_def
  by (intro conjI example_fd_room) (simp_all add: good_input_def small_result_def is_dir_node_def)

theorem spawn_processes_completes_witness:
  "ok (spawn_processes (return_io 0) (return_io 0) [105] [111] example_log) (example_env []) (example_os [False, False])
     (\<lambda>r e' s'. r = 0 \<and> files s' [111] = Some (Reg (output_bytes [([104], [49])])) \<and> children s' = {} \<and> bad_closes s' = [])"
  by (rule ok_mono [OF spawn_processes_completes [OF _ example_job_ready]]) (auto simp: job_done_def)

section \<open>The children\<close>

text \<open>
  A process that reads the pipe \<open>i\<close> on its standard input and writes the pipe \<open>o\<close> on its standard
  output, and has no other end of a pipe from number \<open>n\<close> on.
\<close>

definition connected :: "nat \<Rightarrow> nat \<Rightarrow> nat \<Rightarrow> (nat \<Rightarrow> byte list) \<Rightarrow> 's os \<Rightarrow> bool" where
  "connected n i j inc s \<longleftrightarrow>
     fds s STDIN_FILENO = Some (Read_end i) \<and> fds s STDOUT_FILENO = Some (Write_end j) \<and>
     rds s STDIN_FILENO = inc i \<and> wrs s STDOUT_FILENO = [] \<and>
     (\<forall>fd k. n \<le> k \<longrightarrow> fds s fd = Some (Read_end k) \<or> fds s fd = Some (Write_end k) \<longrightarrow>
        fd = STDIN_FILENO \<or> fd = STDOUT_FILENO)"

text \<open>The process stops as \<open>main\<close>, started in some state \<open>P\<close>, ends: its exit code is the result.\<close>

definition stops_as :: "('s, int) osproc \<Rightarrow> ('s os \<Rightarrow> bool) \<Rightarrow> stop \<Rightarrow> env \<Rightarrow> 's os \<Rightarrow> bool" where
  "stops_as main P x e' s' \<longleftrightarrow> (\<exists>e1 s1. P s1 \<and> (main (e1, s1) = (Inl x, (e', s')) \<or>
     (\<exists>code. x = Exited code \<and> main (e1, s1) = (Inr code, (e', s')))))"

lemma stops_as_ends: "P s1 \<Longrightarrow> ends main e1 s1 (\<lambda>code e' s'. stops_as main P (Exited code) e' s') (stops_as main P)"
  unfolding ends_def stops_as_def by (cases "main (e1, s1)") (auto split: sum.split)

lemma cleans_close: "cleans e0 (sys_close fd)"
  by (auto simp: cleans_def intro: sys_close_any)

lemma ends_main:
  assumes "ok m e s (\<lambda>r e' s'. if fst r = -1 then evolve e0 e' \<and> faulty e0 else ends (k r) e' s' Q X)" and "cleans e0 c"
    and "\<And>e' s'. evolve e0 e' \<Longrightarrow> faulty e0 \<Longrightarrow> Q (-1) e' s'"
  shows "ends (SYSCALL_RET (-1) fst m c k) e s Q X"
  unfolding ends_SYSCALL_RET
  by (rule ok_ends, rule ok_mono [OF assms(1)]) (use assms(3) in \<open>auto split: if_splits intro!: ok_ends ok_mono [OF cleansD [OF assms(2)]]\<close>)

text \<open>The same for the rest of the code in a child, which may stop.\<close>

lemma ends_spawn:
  assumes "ends m e s (\<lambda>r e' s'. fst r = -1 \<and> evolve e0 e' \<and> faulty e0) X" and "cleans e0 c"
    and "\<And>e' s'. evolve e0 e' \<Longrightarrow> faulty e0 \<Longrightarrow> Q (-1) e' s'"
  shows "ends (SYSCALL_RET (-1) fst m c k) e s Q X"
  unfolding ends_SYSCALL_RET
  by (rule ends_mono [OF assms(1)]) (use assms(3) in \<open>auto intro!: ok_ends ok_mono [OF cleansD [OF assms(2)]]\<close>)

lemma ends_pipe:
  assumes "evolve e0 e" and "gives_up e0 Q" and "cleans e0 c" and "fd_room (Suc (Suc m)) F"
    and "\<And>e' r w. evolve e0 e' \<Longrightarrow> F r = None \<Longrightarrow> F w = None \<Longrightarrow> r \<noteq> w \<Longrightarrow> 0 \<le> r \<Longrightarrow> 0 \<le> w \<Longrightarrow>
      fd_room m (F(r \<mapsto> Read_end n, w \<mapsto> Write_end n)) \<Longrightarrow>
      ends (k (0, r, w)) e' (os l h fls en inc st rst bcl (R(r := inc n)) (W(w := []))
        (F(r \<mapsto> Read_end n, w \<mapsto> Write_end n)) (Suc n) bs pid C) Q X"
  shows "ends (SYSCALL_RET (-1) fst sys_pipe c k) e (os l h fls en inc st rst bcl R W F n bs pid C) Q X"
  by (rule ends_main, rule sys_pipe_ok [OF assms(1), where n = m]) (use assms(2-5) in \<open>auto simp: gives_up_def\<close>)

lemma ends_spawn_parent:
  assumes "evolve e0 e" and "gives_up e0 Q" and "cleans e0 cmd" and "log_ready L e0" and "0 < pid"
    and "\<And>e'. evolve e0 e' \<Longrightarrow> ends (k (0, pid)) e' (os l h fls en inc st rst bcl R W F n bs (pid + 1) (insert pid C)) Q X"
  shows "ends (SYSCALL_RET (-1) fst (spawn_mapper_process L a b c main) cmd k) e
    (os l h fls en inc st rst bcl R W F n (False # bs) pid C) Q X"
  by (rule ends_main, unfold spawn_mapper_process_def, rule fork_parent [OF assms(1,4), where bs = bs])
     (use assms(2,3,5,6) in \<open>auto simp: gives_up_def\<close>)

text \<open>What both children need: the standard streams are open, the three pipes are new.\<close>

definition fork_ready :: "'s os \<Rightarrow> bool" where
  "fork_ready s \<longleftrightarrow> fd_room 6 (fds s) \<and> fds s STDIN_FILENO \<noteq> None \<and> fds s STDOUT_FILENO \<noteq> None \<and> 0 < next_pid s \<and>
     (\<forall>fd k. next_pipe s \<le> k \<longrightarrow> fds s fd \<noteq> Some (Read_end k) \<and> fds s fd \<noteq> Some (Write_end k))"

lemma three_pipes_ends:
  assumes "F r1 = None" "F w1 = None" "r1 \<noteq> w1" "0 \<le> r1" "0 \<le> w1"
    and F1: "F1 = F(r1 \<mapsto> x1, w1 \<mapsto> y1)" "F1 r2 = None" "F1 w2 = None" "r2 \<noteq> w2" "0 \<le> r2" "0 \<le> w2"
    and F2: "F2 = F1(r2 \<mapsto> x2, w2 \<mapsto> y2)" "F2 r3 = None" "F2 w3 = None" "r3 \<noteq> w3" "0 \<le> r3" "0 \<le> w3"
    and F3: "F3 = F2(r3 \<mapsto> x3, w3 \<mapsto> y3)" and "F STDIN_FILENO \<noteq> None" "F STDOUT_FILENO \<noteq> None"
  shows "pipe_ends (r1, w1) (r2, w2) (r3, w3) (os l h fls en inc st rst bcl R W F3 n bs pid C)"
  using three_pipes_distinct [OF assms(1-18)] three_pipes_opened [OF assms(1-18)] three_pipes_fresh [OF assms(1-18)] assms(19,20)
  by (auto simp: pipe_ends_def)

lemma connected_child:
  assumes ready: "child_ready i j {r1, w1, r2, w2, r3, w3} (os l h fls en inc st rst bcl R W F n bs pid C) s1"
    and F: "F = F0(r1 \<mapsto> Read_end n0, w1 \<mapsto> Write_end n0, r2 \<mapsto> Read_end (Suc n0), w2 \<mapsto> Write_end (Suc n0),
      r3 \<mapsto> Read_end (Suc (Suc n0)), w3 \<mapsto> Write_end (Suc (Suc n0)))"
    and new: "\<And>fd k. n0 \<le> k \<Longrightarrow> F0 fd \<noteq> Some (Read_end k) \<and> F0 fd \<noteq> Some (Write_end k)"
    and "F i = Some (Read_end ki)" "F j = Some (Write_end kj)" "R i = inc ki" "W j = []"
  shows "connected n0 ki kj inc s1"
proof -
  have "fd = STDIN_FILENO \<or> fd = STDOUT_FILENO"
    if "n0 \<le> k" "fds s1 fd = Some (Read_end k) \<or> fds s1 fd = Some (Write_end k)" for fd k
    using that ready new [OF that(1), of fd] by (auto simp: child_ready_def F split: if_splits)
  then show ?thesis using ready assms(4-) by (simp add: connected_def child_ready_def)
qed

text \<open>The two children from the first \<open>fork\<close> on; \<open>P\<close> holds of the state in which a main function starts.\<close>

lemma spawn_children_mapper:
  assumes ev: "evolve e0 e" and log: "log_ready L e0" and "follow_child s = True # bs" and "pipe_ends a b c s"
    and conn: "\<And>s'. child_ready (fst a) (snd b) {fst a, snd a, fst b, snd b, fst c, snd c} s s' \<Longrightarrow> P s'"
  shows "ends (spawn_children L a b c mm rm inp outp) e s (\<lambda>r e' s'. r = -1 \<and> faulty e0)
    (\<lambda>x e' s'. x = Exited EXIT_FAILURE \<and> faulty e0 \<or> stops_as mm P x e' s')"
  unfolding spawn_children_def
proof (rule ends_spawn [OF spawn_mapper_child [OF assms(1-4)]])
  fix e' s' assume "child_ready (fst a) (snd b) {fst a, snd a, fst b, snd b, fst c, snd c} s s'"
  from stops_as_ends [where P = P, OF conn [OF this]]
  show "ends mm e' s' (\<lambda>code e' s'. Exited code = Exited EXIT_FAILURE \<and> faulty e0 \<or> stops_as mm P (Exited code) e' s')
      (\<lambda>x e' s'. x = Exited EXIT_FAILURE \<and> faulty e0 \<or> stops_as mm P x e' s')"
    by (rule ends_mono) auto
qed (simp_all, intro cleans_rules log cleans_close)

lemma spawn_children_reducer:
  assumes ev: "evolve e0 e" and log: "log_ready L e0" and pid: "0 < pid"
    and pipes: "pipe_ends a b c (os l h fls en inc st rst bcl R W F n (False # True # bs) pid C)"
    and conn: "\<And>s' bs pid C. child_ready (fst b) (snd c) {fst a, snd a, fst b, snd b, fst c, snd c}
      (os l h fls en inc st rst bcl R W F n bs pid C) s' \<Longrightarrow> P s'"
  shows "ends (spawn_children L a b c mm rm inp outp) e (os l h fls en inc st rst bcl R W F n (False # True # bs) pid C)
    (\<lambda>r e' s'. r = -1 \<and> faulty e0) (\<lambda>x e' s'. x = Exited EXIT_FAILURE \<and> faulty e0 \<or> stops_as rm P x e' s')"
    (is "ends _ _ _ ?Q ?X")
proof -
  have bad: "gives_up e0 ?Q" by (simp add: gives_up_def)
  show ?thesis
    unfolding spawn_children_def
  proof (rule ends_spawn_parent [OF ev bad _ log pid], unfold prod.case)
    fix e1 assume e1: "evolve e0 e1"
    let ?s = "os l h fls en inc st rst bcl R W F n (True # bs) (pid + 1) (insert pid C)"
    have "pipe_ends a b c ?s" and "follow_child ?s = True # bs" using pipes by (simp_all add: pipe_ends_def)
    note child = spawn_reducer_child [OF e1 log this(2,1)]
    show "ends (SYSCALL_RET (-1) fst (spawn_reducer_process L a b c rm)
       (seq_io (mr_log_error L ''Main'' ''Main'' ''Failed to spawn reducer process'')
       (seq_io (stop_children [pid]) (close_all (snd a # ends_of [b, c])))) (\<lambda>(_, reducer_pid).
         run_job L a b c pid reducer_pid inp outp)) e1 ?s ?Q ?X"
    proof (rule ends_spawn [OF child])
      fix e' s' assume "child_ready (fst b) (snd c) {fst a, snd a, fst b, snd b, fst c, snd c} ?s s'"
      from stops_as_ends [where P = P, OF conn [OF this]]
      show "ends rm e' s' (\<lambda>code. ?X (Exited code)) ?X" by (rule ends_mono) auto
    qed (simp_all, intro cleans_rules log cleans_close)
  qed (intro cleans_rules log)
qed

text \<open>C22. Each child runs its main function on its own ends: the mapper reads the first pipe and writes the
  second, the reducer reads the second and writes the third, each on its standard streams, and no
  other descriptor of the child is an end of the three pipes (so a reader sees the end of its input
  when its writer closes). The child stops with the result of that function as exit code; only a
  failed call makes it stop with a failure before, or return -1.\<close>

theorem children_connected:
  assumes log: "log_ready L e" and ready: "fork_ready s"
    and which: "follow_child s = (if mapper then [True] else [False, True]) @ bs"
  shows "ends (spawn_processes mapper_main reducer_main inp outp L) e s (\<lambda>r e' s'. r = -1 \<and> faulty e)
    (\<lambda>x e' s'. x = Exited EXIT_FAILURE \<and> faulty e \<or>
       (let n = next_pipe s in
        if mapper then stops_as mapper_main (connected n n (n + 1) (incoming s)) x e' s'
        else stops_as reducer_main (connected n (n + 1) (n + 2) (incoming s)) x e' s'))"
    (is "ends _ _ _ ?Q ?X")
proof -
  obtain l h fls en inc st rst bcl R W F n fc pid C where s: "s = os l h fls en inc st rst bcl R W F n fc pid C"
    by (rule os_cases)
  have r: "fd_room 6 F" "F STDIN_FILENO \<noteq> None" "F STDOUT_FILENO \<noteq> None" "0 < pid"
      "\<And>fd k. n \<le> k \<Longrightarrow> F fd \<noteq> Some (Read_end k) \<and> F fd \<noteq> Some (Write_end k)"
    using ready by (auto simp: fork_ready_def s)
  have bad: "gives_up e ?Q" by (simp add: gives_up_def)
  note rules = cleans_rules log bad
  have log_step: "ends (SYSCALL_RET_CHECK (-1) (mr_log_info L p t m) skip k) e s' ?Q ?X"
    if "\<And>e'. evolve e e' \<Longrightarrow> ends k e' s' ?Q ?X" for p t m k s'
    unfolding ends_SYSCALL_RET_CHECK
    by (rule ok_ends, rule mr_log_ok [OF evolve_refl log]) (auto simp: ends_simps that)
  show ?thesis
    unfolding spawn_processes_def s
    apply (rule log_step [unfolded s])
    apply (rule ends_pipe [where m = 4], assumption, rule bad [unfolded s], (intro rules)+, simp add: r, unfold prod.case)
    apply (rule ends_pipe [where m = 2], assumption, rule bad [unfolded s], (intro rules)+, simp add: eval_nat_numeral, unfold prod.case)
    apply (rule ends_pipe [where m = 0], assumption, rule bad [unfolded s], (intro rules)+, simp add: eval_nat_numeral, unfold prod.case)
    subgoal premises p for e1 e2 r1 w1 e3 r2 w2 e4 r3 w3
    proof -
      let ?F = "F(r1 \<mapsto> Read_end n, w1 \<mapsto> Write_end n, r2 \<mapsto> Read_end (Suc n), w2 \<mapsto> Write_end (Suc n),
        r3 \<mapsto> Read_end (Suc (Suc n)), w3 \<mapsto> Write_end (Suc (Suc n)))"
      let ?R = "R(r1 := inc n, r2 := inc (Suc n), r3 := inc (Suc (Suc n)))" and ?W = "W(w1 := [], w2 := [], w3 := [])"
      note d = three_pipes_distinct [OF p(3-7) refl p(10-14) refl p(17-21) refl, simplified]
        and pipes = three_pipes_ends [OF p(3-7) refl p(10-14) refl p(17-21) refl r(2,3)]
      have conn: "connected n n (n + 1) inc s1"
        if "child_ready (fst (r1, w1)) (snd (r2, w2)) {fst (r1, w1), snd (r1, w1), fst (r2, w2), snd (r2, w2), fst (r3, w3), snd (r3, w3)}
          (os l h fls en inc st rst bcl ?R ?W ?F (Suc (Suc (Suc n))) bs' pid' C') s1" for s1 bs' pid' C'
        by (rule connected_child [OF that [unfolded fst_conv snd_conv] refl r(5)]) (use d in auto)
      have conn': "connected n (n + 1) (n + 2) inc s1"
        if "child_ready (fst (r2, w2)) (snd (r3, w3)) {fst (r1, w1), snd (r1, w1), fst (r2, w2), snd (r2, w2), fst (r3, w3), snd (r3, w3)}
          (os l h fls en inc st rst bcl ?R ?W ?F (Suc (Suc (Suc n))) bs' pid' C') s1" for s1 bs' pid' C'
        by (rule connected_child [OF that [unfolded fst_conv snd_conv] refl r(5)]) (use d in auto)
      show ?thesis
      proof (cases mapper)
        case True
        then have fc: "fc = True # bs" using which by (simp add: s)
        show ?thesis
          by (rule ends_mono, rule spawn_children_mapper [where P = "connected n n (n + 1) inc" and bs = bs, OF p(16) log _ pipes],
              simp add: fc, erule conn) (simp_all add: True)
      next
        case False
        then have fc: "fc = False # True # bs" using which by (simp add: s)
        show ?thesis
          unfolding fc
          by (rule ends_mono, rule spawn_children_reducer [where P = "connected n (n + 1) (n + 2) inc", OF p(16) log r(4) pipes],
              erule conn') (simp_all add: False)
      qed
    qed
    done
qed

theorem children_connected_witness:
  "ends (spawn_processes (return_io 0) (return_io 7) [105] [111] example_log) (example_env []) (example_os [False, True])
     (\<lambda>r e' s'. False) (\<lambda>x e' s'. stops_as (return_io 7) (connected 0 1 2 (incoming (example_os []))) x e' s')"
proof (rule ends_mono [OF children_connected [where mapper = False and bs = "[]"]])
  show "fork_ready (example_os [False, True])"
    unfolding fork_ready_def by (intro conjI example_fd_room) simp_all
qed (auto simp: numeral_2_eq_2)

section \<open>Closing twice\<close>

text \<open>The effect of the closing loops: every descriptor that is not open counts as a bad close.\<close>

lemma close_all_state:
  assumes "evolve e0 e" and "distinct fs"
    and "\<And>e'. evolve e0 e' \<Longrightarrow> Q () e' (s\<lparr>fds := (\<lambda>fd. if fd \<in> set fs then None else fds s fd),
      bad_closes := bad_closes s @ filter (\<lambda>fd. fds s fd = None) fs\<rparr>)"
  shows "ok (close_all fs) e s Q"
  using assms
proof (induction fs arbitrary: e s)
  case (Cons fd fs)
  have "ok (close_all fs) e' (s\<lparr>fds := (fds s)(fd := None), bad_closes := bs\<rparr>) Q"
    if "evolve e0 e'" "bs = bad_closes s @ (if fds s fd = None then [fd] else [])" for e' bs
  proof (rule Cons.IH [OF that(1)])
    fix e'' assume "evolve e0 e''"
    moreover have "(\<lambda>x. if x \<in> set fs then None else ((fds s)(fd := None)) x) = (\<lambda>x. if x = fd \<or> x \<in> set fs then None else fds s x)"
      by auto
    moreover have "filter (\<lambda>x. ((fds s)(fd := None)) x = None) fs = filter (\<lambda>x. fds s x = None) fs"
      using Cons.prems(2) by (intro filter_cong) auto
    ultimately show "Q () e'' (s\<lparr>fds := (fds s)(fd := None), bad_closes := bs\<rparr>\<lparr>
        fds := \<lambda>x. if x \<in> set fs then None else fds (s\<lparr>fds := (fds s)(fd := None), bad_closes := bs\<rparr>) x,
        bad_closes := bad_closes (s\<lparr>fds := (fds s)(fd := None), bad_closes := bs\<rparr>) @
          filter (\<lambda>x. fds (s\<lparr>fds := (fds s)(fd := None), bad_closes := bs\<rparr>) x = None) fs\<rparr>)"
      using Cons.prems(3) [of e''] that(2) by (auto cong: if_cong)
  qed (use Cons.prems(2) in simp)
  moreover have "s\<lparr>fds := (fds s)(fd := None), bad_closes := bs\<rparr> = s\<lparr>bad_closes := bs\<rparr>" if "fds s fd = None" for bs
    using that by (cases s) (simp add: fun_upd_idem)
  ultimately show ?case
    using Cons.prems(1)
    by (auto simp: ok_simps sys_close_def intro!: call_ok)
qed (simp add: ok_simps)

text \<open>Calls whose first answer is known.\<close>

lemma ask_next: "answers e = a # as \<Longrightarrow> ok ask e s Q \<longleftrightarrow> Q a (e\<lparr>answers := as\<rparr>) s"
  by (simp add: ok_ask)

lemma pop_evolve: "answers e = a # as \<Longrightarrow> evolve e (e\<lparr>answers := as\<rparr>)"
  using evolve_pop [OF evolve_refl, of e] by simp

text \<open>C25. When \<open>fork\<close> fails for the mapper, \<open>spawn_mapper_process\<close> closes its four pipe ends and returns -1, and
  its caller closes all six: the four are closed twice, and whatever has got one of these numbers
  in between (in a program with other threads) is closed with them.\<close>

theorem failed_fork_closes_twice:
  assumes log: "log_ready L e" and fault: "answers e = Fault # as" and pipes: "pipe_ends a b c s"
  shows "ok (spawn_children L a b c mapper_main reducer_main inp outp) e s
    (\<lambda>r e' s'. r = -1 \<and> bad_closes s' = bad_closes s @ [fst a, fst b, snd a, snd b])"
proof -
  note d = pipe_ends_neq [OF pipes, simplified]
  have fork: "ok (spawn_mapper_process L a b c mapper_main) e s (\<lambda>r e' s'. evolve e e' \<and> fst r = -1 \<and>
      s' = s\<lparr>fds := (\<lambda>fd. if fd \<in> {fst a, fst b, snd a, snd b} then None else fds s fd)\<rparr>)"
    unfolding spawn_mapper_process_def ok_SYSCALL_RET
    apply (simp add: sys_fork_def ok_simps ask_next [OF fault] del: close_all.simps)
    apply (rule log_error_ok [OF pop_evolve [OF fault] log])
    apply (rule close_all_state, assumption)
    apply (simp_all add: d cong: if_cong)
    done
  show ?thesis
    unfolding spawn_children_def ok_SYSCALL_RET
    apply (rule ok_mono [OF fork], clarsimp simp: ok_simps simp del: close_all.simps)
    apply (rule log_error_ok [OF _ log], assumption)
    apply (rule close_all_state, assumption)
    apply (simp_all add: d)
    done
qed

text \<open>C26. A child whose first log entry fails closes the six pipe ends and returns -1 into the code of the
  main process: it closes them a second time and returns -1 from \<open>spawn_processes\<close>, so that two
  processes go on with the user's program.\<close>

theorem child_returns_to_caller:
  assumes log: "log_ready L e" and fault: "answers e = Full # Fault # as" and pipes: "pipe_ends a b c s"
    and child: "follow_child s = True # bs"
  shows "ok (spawn_children L a b c mapper_main reducer_main inp outp) e s
    (\<lambda>r e' s'. r = -1 \<and> bad_closes s' = bad_closes s @ [fst a, fst b, fst c, snd a, snd b, snd c])"
proof -
  note d = pipe_ends_neq [OF pipes, simplified]
  obtain f i where L: "lf_file L = Some f" "lf_sem L = Some i" using log by (auto simp: log_ready_def)
  have fork: "ok (spawn_mapper_process L a b c mapper_main) e s (\<lambda>r e' s'. evolve e e' \<and> fst r = -1 \<and> bad_closes s' = bad_closes s \<and>
      fds s' = (\<lambda>fd. if fd \<in> {fst a, fst b, fst c, snd a, snd b, snd c} then None else fds s fd))"
    unfolding spawn_mapper_process_def ok_SYSCALL_RET ok_SYSCALL_RET_CHECK ok_if
    apply (simp add: sys_fork_def ok_simps fault child mr_log_def L Let_def ok_macros sem_wait_def ok_ask del: close_all.simps)
    apply (rule close_all_state, rule evolve_pop [OF pop_evolve [OF fault], simplified])
     apply (simp_all add: d cong: if_cong)
    done
  show ?thesis
    unfolding spawn_children_def ok_SYSCALL_RET
    apply (rule ok_mono [OF fork], clarsimp simp: ok_simps simp del: close_all.simps)
    apply (rule log_error_ok [OF _ log], assumption)
    apply (rule close_all_state, assumption)
    apply (simp_all add: d)
    done
qed

theorem failed_fork_closes_twice_witness:
  "ok (spawn_children example_log (3, 4) (5, 6) (7, 8) (return_io 0) (return_io 0) [105] [111])
     (example_env [Fault]) ((example_os [])\<lparr>fds := (\<lambda>_. Some Terminal)\<rparr>) (\<lambda>r e' s'. r = -1 \<and> bad_closes s' = [3, 5, 4, 6])"
  by (rule ok_mono [OF failed_fork_closes_twice]) (simp_all add: pipe_ends_def)

theorem child_returns_to_caller_witness:
  "ok (spawn_children example_log (3, 4) (5, 6) (7, 8) (return_io 0) (return_io 0) [105] [111])
     (example_env [Full, Fault]) ((example_os [True])\<lparr>fds := (\<lambda>_. Some Terminal)\<rparr>)
     (\<lambda>r e' s'. r = -1 \<and> bad_closes s' = [3, 5, 7, 4, 6, 8])"
  by (rule ok_mono [OF child_returns_to_caller]) (simp_all add: pipe_ends_def)

section \<open>mr_run and mr_start\<close>

text \<open>The log can be opened: no semaphore has its name, or one that is free.\<close>

definition log_free :: "env \<Rightarrow> bool" where
  "log_free e \<longleftrightarrow> (case sem_name e of None \<Rightarrow> True | Some i \<Rightarrow> sem_usable e i)"

text \<open>The environment after opening the log; \<open>evolve\<close> does not cover the new name.\<close>

definition opened_log :: "env \<Rightarrow> env \<Rightarrow> bool" where
  "opened_log e0 e \<longleftrightarrow> suffix (answers e) (answers e0) \<and> garbage e = garbage e0 \<and> sem_name e \<noteq> None"

lemma opened_log_faulty: "opened_log e0 e \<Longrightarrow> faulty e \<Longrightarrow> faulty e0"
  by (auto simp: opened_log_def faulty_def dest: suffix_set)

lemma mr_log_init_ok:
  assumes "log_free e"
    and good: "\<And>e' L. opened_log e e' \<Longrightarrow> log_ready L e' \<Longrightarrow> Q (0, L) e' s"
    and bad: "\<And>e' L. faulty e \<Longrightarrow> Q (-1, L) e' s"
  shows "ok (mr_log_init L0 p) e s Q"
proof -
  let ?e1 = "e\<lparr>answers := tl (answers e)\<rparr>"
  have f: "faulty e" if "next_answer e = Fault \<or> next_answer ?e1 = Fault"
    using that evolve_next_fault [OF evolve_refl] evolve_next_fault [OF evolve_pop [OF evolve_refl]] by blast
  have sfx: "suffix (tl (tl (answers e))) (answers e)"
    using evolve_pop [OF evolve_pop [OF evolve_refl [of e]]] by (simp add: evolve_def)
  show ?thesis
    using assms(1)
    by (auto simp: mr_log_init_def sem_open_def call_def ok_simps ok_ask ok_if log_free_def split: option.splits
        intro!: bad f good)
       (simp_all add: opened_log_def sfx log_ready_def sem_usable_def)
qed

lemma mr_log_destroy_ok:
  assumes ev: "evolve e0 e" and "log_ready L e0" and "sem_name e0 \<noteq> None"
    and good: "\<And>e' L. suffix (answers e') (answers e0) \<Longrightarrow> Q (0, L) e' s" and bad: "\<And>e' L. faulty e0 \<Longrightarrow> Q (-1, L) e' s"
  shows "ok (mr_log_destroy L) e s Q"
proof -
  have unlink: "ok sem_unlink e' s (\<lambda>r e'' s'. s' = s \<and> suffix (answers e'') (answers e0) \<and> (r = 0 \<or> r = -1 \<and> faulty e0))"
    if "evolve e0 e'" for e'
    unfolding sem_unlink_def ok_bind
    by (rule ask_ok [OF that]) (use assms(3) in \<open>auto simp: ok_simps evolve_def split: option.split\<close>)
  have closing: "ok sem_close e' s (\<lambda>r e'' s'. s' = s \<and> evolve e0 e'' \<and> (r = 0 \<or> r = -1 \<and> faulty e0))" if "evolve e0 e'" for e'
    unfolding sem_close_def by (rule call_ok [OF that]) auto
  obtain f i where L: "lf_file L = Some f" "lf_sem L = Some i" using assms(2) by (auto simp: log_ready_def)
  show ?thesis
    unfolding mr_log_destroy_def Let_def
    apply (simp add: L ok_simps ok_macros)
    apply (rule call_ok [OF ev]; simp add: ok_simps ok_macros)
     apply (erule ok_mono [OF closing], auto intro!: ok_mono [OF unlink] simp: ok_simps good bad)+
    done
qed

lemma mr_run_ok:
  assumes "log_free e" and ready: "job_ready inp outp xs s"
    and good: "\<And>e' s'. suffix (answers e') (answers e) \<Longrightarrow> job_done e inp outp xs s s' \<Longrightarrow> Q 0 e' s'"
    and bad: "\<And>e' s'. faulty e \<Longrightarrow> Q (-1) e' s'"
  shows "ok (mr_run p mapper_main reducer_main inp outp) e s Q"
proof -
  have destroy: "ok (mr_log_destroy L) e2 s2 (\<lambda>_. Q (-1))"
    if "evolve e1 e2" "log_ready L e1" "sem_name e1 \<noteq> None" "faulty e" for e1 e2 L s2
    by (rule mr_log_destroy_ok [OF that(1-3)]) (simp_all add: bad that(4))
  have run: "ok (SYSCALL_RET_CHECK (-1) (mr_log_info L p1 t1 m1) (mr_log_destroy L) (
     SYSCALL_RET_CHECK (-1) (spawn_processes (mapper_main L) (reducer_main L) inp outp L) (mr_log_destroy L) (
     SYSCALL_RET (-1) fst (mr_log_destroy L) skip (\<lambda>_. return_io 0)))) e1 s Q"
    if o: "opened_log e e1" and log: "log_ready L e1" for e1 L p1 t1 m1
  proof -
    have jd: "job_done e1 inp outp xs s s' = job_done e inp outp xs s s'" for s'
      using o by (simp add: job_done_def fresh_block_def opened_log_def)
    note f = opened_log_faulty [OF o]
    have sfx: "suffix (answers e') (answers e)" if "suffix (answers e') (answers e1)" for e'
      using that o by (auto simp: opened_log_def intro: suffix_order.trans)
    have nm: "sem_name e1 \<noteq> None" using o by (simp add: opened_log_def)
    show ?thesis
      unfolding ok_SYSCALL_RET_CHECK
      apply (rule mr_log_ok [OF evolve_refl log]; simp)
       apply (rule spawn_processes_ok [OF _ log ready], assumption)
        apply (auto simp: gives_up_def jd ok_macros ok_simps intro!: mr_log_destroy_ok [OF _ log nm] destroy [OF _ log nm] good sfx bad f)
      done
  qed
  show ?thesis
    unfolding mr_run_def ok_SYSCALL_RET
    by (rule mr_log_init_ok [OF assms(1)]) (auto simp: ok_simps bad intro!: run)
qed

text \<open>C21. \<open>mr_start\<close> on a valid instance: it opens the log, runs the whole job and closes the log. It returns 0
  with the results in the output file, both children waited for and every descriptor closed, or
  -1 after a failed call.\<close>

theorem mr_start_completes:
  assumes "log_free e" and "job_ready inp outp xs s" and "attr_log_file (mr_attr i) \<noteq> None"
  shows "ok (mr_start (Valid i) mapper_main reducer_main (Some inp) (Some outp)) e s
    (\<lambda>r e' s'. r = 0 \<and> job_done e inp outp xs s s' \<or> r = -1 \<and> faulty e)"
  using assms(3)
  by (auto simp: mr_start_def ok_simps ok_macros intro!: mr_run_ok [OF assms(1,2)])

theorem mr_start_completes_witness:
  "ok (mr_start (Valid \<lparr>mr_attr = mr_attr_defaults, mr_mapper = Some (), mr_reducer = Some (), mr_user_arg = ()\<rparr>)
     (\<lambda>_ _. return_io 0) (\<lambda>_ _. return_io 0) (Some [105]) (Some [111])) (example_env []) (example_os [False, False])
     (\<lambda>r e' s'. r = 0 \<and> files s' [111] = Some (Reg (output_bytes [([104], [49])])) \<and> children s' = {} \<and> bad_closes s' = [])"
  by (rule ok_mono [OF mr_start_completes [OF _ example_job_ready]])
    (auto simp: job_done_def log_free_def example_env_def sem_usable_def mr_attr_defaults_def faulty_def)

end
