(* ===== verification/Mr_Word_Count_Main.thy ===== *)
theory Mr_Word_Count_Main
  imports Mr_Word_Count Mr_Job
begin

text \<open>The \<open>main\<close> function of \<open>src/examples/word_count/main.c\<close>, from the attributes to the printed results.\<close>

text \<open>\<open>word_count.log\<close>.\<close>

definition WORD_COUNT_LOG :: "byte list" where
  "WORD_COUNT_LOG = [119, 111, 114, 100, 95, 99, 111, 117, 110, 116, 46, 108, 111, 103, 0]"

text \<open>
  The exit code and what \<open>print_results\<close> printed. \<open>attr\<close> is what the attribute object holds before it is
  initialised; the main functions of the two children are arguments, as for \<open>mr_start\<close>.
\<close>

definition word_count_main ::
    "nat \<Rightarrow> mr_attr_t \<Rightarrow> 'm \<Rightarrow> 'r
      \<Rightarrow> (('m, 'r, unit) mr \<Rightarrow> mr_log_file_t \<Rightarrow> ('s, int) osproc) \<Rightarrow> (('m, 'r, unit) mr \<Rightarrow> mr_log_file_t \<Rightarrow> ('s, int) osproc)
      \<Rightarrow> path list \<Rightarrow> ('s, int \<times> shown list option) osproc" where
  "word_count_main rounds attr mapper reducer mapper_main reducer_main argv =
     (if length argv < 3 then return_io (EXIT_FAILURE, None) else
      let input_path = argv ! 1; output_path = argv ! 2 in
      bind_io (mr_attr_init (Some attr)) (\<lambda>(r, attr).
      if r = -1 then return_io (EXIT_FAILURE, None) else
      bind_io (mr_attr_set_mapper_threads attr 4) (\<lambda>(_, attr).
      bind_io (mr_attr_set_reducer_threads attr 4) (\<lambda>(_, attr).
      bind_io (mr_attr_set_queue_size attr 100) (\<lambda>(_, attr).
      bind_io (mr_attr_set_log_file attr (Some WORD_COUNT_LOG)) (\<lambda>(_, attr).
      bind_io (mr_create Dangling attr (Some mapper) (Some reducer) ()) (\<lambda>(r, mr).
      if r = -1 then seq_io (mr_attr_destroy attr) (return_io (EXIT_FAILURE, None)) else
      bind_io (mr_start mr mapper_main reducer_main (Some input_path) (Some output_path)) (\<lambda>r.
      if r = -1 then seq_io (mr_destroy mr) (seq_io (mr_attr_destroy attr) (return_io (EXIT_FAILURE, None))) else
      bind_io (print_results rounds output_path) (\<lambda>printed.
      seq_io (mr_destroy mr) (
      seq_io (mr_attr_destroy attr) (
      return_io (EXIT_SUCCESS, printed))))))))))))"

lemma log_free_evolve: "log_free e \<Longrightarrow> evolve e e' \<Longrightarrow> log_free e'"
  by (auto simp: log_free_def evolve_def split: option.splits)

definition word_count_attr :: mr_attr_t where
  "word_count_attr = \<lparr>attr_mapper_threads = 4, attr_reducer_threads = 4, attr_queue_size = 100, attr_log_file = Some WORD_COUNT_LOG\<rparr>"

lemma word_count_attr_ok: "attr_ok (Some word_count_attr)"
  by (simp add: attr_ok_def word_count_attr_def attr_check_defs WORD_COUNT_LOG_def is_cstr_def)

lemma mr_start_ok:
  assumes ev: "evolve e0 e" and "log_free e0" and "job_ready inp outp xs s" and "attr_log_file (mr_attr i) \<noteq> None"
    and good: "\<And>e' s'. (faulty e' \<Longrightarrow> faulty e0) \<Longrightarrow> job_done e inp outp xs s s' \<Longrightarrow> Q 0 e' s'"
    and bad: "\<And>e' s'. faulty e0 \<Longrightarrow> Q (-1) e' s'"
  shows "ok (mr_start (Valid i) mapper_main reducer_main (Some inp) (Some outp)) e s Q"
proof -
  have "faulty e0" if "suffix (answers e') (answers e)" "faulty e'" for e'
    using that evolve_faulty [OF ev] set_mono_suffix [OF that(1)] by (auto simp: faulty_def)
  then have "ok (mr_run p (mapper_main i) (reducer_main i) inp outp) e s (\<lambda>r e' s'. if r = -1 then Q (-1) e' s' else Q 0 e' s')" for p
    by (intro mr_run_ok [OF log_free_evolve [OF assms(2) ev] assms(3)]) (auto intro: good bad evolve_faulty [OF ev])
  then show ?thesis using assms(4) by (auto simp: mr_start_def ok_simps ok_macros cong: if_cong)
qed

text \<open>The attribute calls of \<open>main\<close> give these attributes and cannot fail.\<close>

lemma bind_return: "bind_io (return_io x) k = k x"
  by (simp add: bind_io_def return_io_def fun_eq_iff)

lemma word_count_calls:
  "word_count_main n a m r mm rm argv =
     (if length argv < 3 then return_io (EXIT_FAILURE, None) else
      bind_io (mr_create Dangling (Some word_count_attr) (Some m) (Some r) ()) (\<lambda>(r, mr).
      if r = -1 then return_io (EXIT_FAILURE, None) else
      bind_io (mr_start mr mm rm (Some (argv ! 1)) (Some (argv ! 2))) (\<lambda>r.
      if r = -1 then seq_io (mr_destroy mr) (return_io (EXIT_FAILURE, None)) else
      bind_io (print_results n (argv ! 2)) (\<lambda>printed.
      seq_io (mr_destroy mr) (return_io (EXIT_SUCCESS, printed))))))"
proof -
  have attrs: "mr_attr_defaults\<lparr>attr_mapper_threads := 4, attr_reducer_threads := 4, attr_queue_size := 100,
      attr_log_file := Some WORD_COUNT_LOG\<rparr> = word_count_attr"
    by (simp add: mr_attr_defaults_def word_count_attr_def)
  have destroy: "seq_io (mr_attr_destroy (Some b)) k = k" for b and k :: "(env \<times> 'q os, 'w) io"
    by (simp add: mr_attr_destroy_def seq_io_def bind_return)
  show ?thesis
    unfolding word_count_main_def Let_def
    by (simp add: mr_attr_init_def mr_attr_set_mapper_threads_def mr_attr_set_reducer_threads_def mr_attr_set_queue_size_def
      mr_attr_set_log_file_def attr_check_defs bind_return attrs destroy cong: if_cong prod.case_cong)
qed

lemma job_ready_live: "job_ready inp outp xs (s\<lparr>live := l\<rparr>) = job_ready inp outp xs s"
  by (simp add: job_ready_def host_ready_def)

lemma word_count_main_ok:
  assumes free: "log_free e" and ready: "job_ready (argv ! 1) (argv ! 2) xs s" and argc: "3 \<le> length argv"
    and print: "list_all printable xs" "length xs < n"
    and good: "\<And>e' s' printed. fds s' = fds s \<Longrightarrow> children s' = children s \<Longrightarrow> bad_closes s' = bad_closes s \<Longrightarrow>
      live s \<le> live s' \<Longrightarrow> live s' \<le> live s + int (empties xs) \<Longrightarrow>
      printed = Some (map shown_of xs) \<or> faulty e \<Longrightarrow> Q (EXIT_SUCCESS, printed) e' s'"
    and bad: "\<And>e' s'. faulty e \<Longrightarrow> Q (EXIT_FAILURE, None) e' s'"
  shows "ok (word_count_main n a m r mm rm argv) e s Q"
proof -
  define inst where "inst p = \<lparr>mr_attr = word_count_attr\<lparr>attr_log_file := Some (cstr p @ [0])\<rparr>,
    mr_mapper = Some m, mr_reducer = Some r, mr_user_arg = ()\<rparr>" for p
  have destroy: "ok (mr_destroy (Valid (inst p))) e' s' R \<longleftrightarrow> R 0 e' (s'\<lparr>live := live s' - 2\<rparr>)" for p e' s' R
    by (simp add: mr_destroy_def mr_cleanup_def ok_simps inst_def)
  have has_log: "attr_log_file (mr_attr (inst p)) \<noteq> None" for p by (simp add: inst_def)
  have print: "ok (print_results n (argv ! 2)) e2 s2 (\<lambda>printed e' s'. ok (mr_destroy (Valid (inst p))) e' s' (\<lambda>_. Q (EXIT_SUCCESS, printed)))"
    if "faulty e2 \<Longrightarrow> faulty e" "job_done e1 (argv ! 1) (argv ! 2) xs (s\<lparr>live := live s + 2\<rparr>) s2" for e1 e2 s2 p
    by (rule print_results_ok [OF evolve_refl _ print])
       (use that good in \<open>auto simp: job_done_def destroy\<close>)
  have start: "ok (mr_start (Valid (inst p)) mm rm (Some (argv ! 1)) (Some (argv ! 2))) e1 (s\<lparr>live := live s + 2\<rparr>) (\<lambda>res e' s'.
      ok (if res = -1 then seq_io (mr_destroy (Valid (inst p))) (return_io (EXIT_FAILURE, None)) else
        bind_io (print_results n (argv ! 2)) (\<lambda>printed. seq_io (mr_destroy (Valid (inst p))) (return_io (EXIT_SUCCESS, printed)))) e' s' Q)"
    if "evolve e e1" for e1 p
    by (rule mr_start_ok [OF that free _ has_log]) (use ready in \<open>auto simp: job_ready_live ok_simps destroy bad intro!: print [simplified destroy]\<close>)
  show ?thesis
    unfolding word_count_calls
    apply (simp only: if_not_P [OF leD [OF argc]] ok_bind)
    apply (rule mr_create_ok [OF evolve_refl word_count_attr_ok refl refl]; unfold prod.case)
    subgoal for e' p using start [of e' p] unfolding inst_def option.sel by (simp add: ok_bind)
    subgoal by (simp add: ok_simps bad)
    done
qed

end
