(* ===== verification/Spec2Isabelle.thy ===== *)
theory Spec2Isabelle
  imports Mr_Queue_Spec Mr_Pool_Spec Mr_Children Mr_Word_Count_Main
begin

text \<open>
  A verification development for the MapReduce library under \<open>src/\<close>: a main process sends the lines
  of its input files to a mapper process, whose threads turn each line into (token, value) pairs; a
  reducer process collects the pairs into a hash table and its threads turn each token with its
  values into results; the main process writes the results to the output file. The three processes
  are connected by three pipes and share a log file.

  \<^bold>\<open>The parts of the program and their theories.\<close> Each definition has the name of the C function it
  models; a loop or a phase of a long function that needed a name of its own is listed after it.

  \<^item> \<open>src/src/utils.h\<close>: \<open>Mr_Effects\<close>. A C function is a function of the environment and the state of its
    process. The environment is a list of answers, one for each call that can fail or transfer less
    than asked for, so a theorem about all environments covers every pattern of failures; a call ends
    with a value, or stops the process (failed \<open>assert\<close>, undefined behaviour, \<open>exit\<close>, no fuel left).
    \<open>ok m e s Q\<close> says that \<open>m\<close> returns a value and \<open>Q\<close> holds of it and of what follows; it is false
    where the process stops. \<open>faulty e\<close>: the environment lets a call fail.
  \<^item> \<open>src/src/log.c\<close>: \<open>Mr_Log\<close> (\<open>mr_log_init\<close>, \<open>mr_log\<close>, \<open>mr_log_destroy\<close>), with the named semaphore as a counter.
  \<^item> \<open>src/src/protocol.c\<close>, \<open>protocol.h\<close>: \<open>Mr_Posix\<close> (memory, descriptors, \<open>read_n\<close>, \<open>write_n\<close>), \<open>Mr_Wire\<close> (the headers
    and their bytes), \<open>Mr_Pairs\<close> (pairs and results), \<open>Mr_Lines\<close> (the receiver of lines), \<open>Mr_Channel\<close>
    (the contract of a receiver and the receiving loop of its client), \<open>Mr_Input\<close> (the sender of the
    main process: files, directories, lines) and \<open>Mr_Output\<close> (the receiver of the main process).
  \<^item> \<open>src/src/queue.c\<close>: \<open>Mr_Queue\<close> (creation and buffer arithmetic), \<open>Mr_Queue_Monitor\<close> (the operations as
    threads run them: a program counter per thread, a step per call of \<open>threads.h\<close>), \<open>Mr_Queue_Spec\<close> (the
    atomic stack they refine).
  \<^item> \<open>src/src/reducer.c\<close>: \<open>Mr_Hash\<close> (the table), \<open>Mr_Reducer\<close> (the collection phase), \<open>Mr_Reducer_Process\<close> (emit,
    worker body, set-up, clean-up). \<open>src/src/mapper.c\<close>: \<open>Mr_Mapper\<close>. Both share \<open>Mr_Worker\<close> (the emitter
    contract) and the pool of threads: \<open>Mr_Pool\<close> (roles, steps, invariants), \<open>Mr_Pool_Run\<close> (reachable
    states, absence of deadlock, termination), \<open>Mr_Pool_Spec\<close> (the task farm it refines), \<open>Mr_Pool_Example\<close>
    (schedules).
  \<^item> \<open>src/src/mr.c\<close>, \<open>src/include/mr.h\<close>, \<open>config.h\<close>: \<open>Mr_Api\<close> (attributes, \<open>mr_create\<close>, \<open>mr_start\<close>, \<open>mr_destroy\<close>).
  \<^item> \<open>src/src/core.c\<close>: \<open>Mr_Os\<close> (pipes, descriptors, \<open>fork\<close>, \<open>kill\<close>, \<open>waitpid\<close>), \<open>Mr_Process\<close> (the spawning functions,
    the waiting, \<open>mr_run\<close>) and \<open>Mr_Job\<close> (what each of the three processes is guaranteed). A run follows
    one process: at a \<open>fork\<close> the environment says whether it goes on as the parent or as the child.
  \<^item> \<open>src/examples/word_count/main.c\<close>: \<open>Mr_Word_Count\<close> (mapper, reducer, printing) and \<open>Mr_Word_Count_Main\<close>.
  \<^item> \<open>Mr_Map_Reduce\<close> (what a finished pool has written), \<open>Mr_Children\<close> (the mapper and the reducer process as
    a whole, threads included) and this theory compose the parts: the bytes one process writes are
    those the next one reads.

  \<^bold>\<open>What is proved.\<close> For every operation the result on each path, with the heap blocks, file handles,
  descriptors and semaphore values it leaves. For the protocol: what is sent is what is received (pairs,
  lines, results), for all contents and all short transfers. For the queue: mutual exclusion, it is a
  bounded stack in every interleaving and with every failed call (refinement of the atomic stack), no
  lost wake-up, no deadlock. For the pool: every item is processed once, messages stay whole, every run
  ends (refinement of the task farm). For the table: grouping by token, every block freed once. For the
  processes: the descriptors each child is left with, the exit codes, what is released; and what a
  child writes as a function of what it reads (\<open>mapper_process_computes\<close>, \<open>reducer_process_computes\<close>). For the
  whole: \<open>map_reduce_computes\<close> for arbitrary mapper and reducer functions and \<open>word_count_program\<close>, from the input files
  to the printed counts. Where the code does not do what it means to, the theorem states what it does
  (a path that fails after its effect, a leak, a double post, a thread that blocks for ever).

  \<^bold>\<open>Bounds and fuel.\<close> A \<open>size_t\<close> is a 64-bit word (LP64), an \<open>int\<close> result an \<open>int\<close>. \<open>SSIZE_LIMIT\<close> is the largest
  \<open>ssize_t\<close>: no object is as large, so lengths below it do not wrap. The loops of \<open>read_n\<close> and \<open>write_n\<close> get as
  many rounds as bytes, each transferring at least one; the loops over a stream as many rounds as it has
  bytes left, each consuming a header; the word count loop as many as characters. \<open>print_results\<close> alone may run
  for ever (a negative \<open>fseek\<close>), so its rounds are an argument, and more rounds than records are enough.

  \<^bold>\<open>Parameters.\<close> The user's functions are arbitrary: a script of emits and results for the threads, any
  function over the emit function for one worker. \<open>mr_start\<close> takes the main functions of its two children as
  arguments, since a run follows one process; \<open>Mr_Mapper\<close>, \<open>Mr_Reducer_Process\<close> and \<open>Mr_Children\<close> are about these.
  The threads of a child enter its run as a finished pool (\<open>mapper_threads\<close>, \<open>reducer_threads\<close>), any one without
  failed calls; pools with failed calls are followed step by step where a theorem is about them.

  \<^bold>\<open>Not modelled.\<close> The text of log entries and messages after formatting, time stamps and \<open>printf\<close> output other
  than the word counts; the values of \<open>errno\<close>, except where the interface sets it; memory contents of
  freed or uninitialised blocks (an access to them is a stop); the scheduling of processes against each
  other, beyond the byte streams between them; \<open>src/test\<close> and the build files.
\<close>

section \<open>The child processes\<close>

text \<open>
  What a mapper process has written when it returns 0 after reading the stream of the files \<open>fs\<close>, and
  what a reducer process has written when it returns 0 after reading \<open>stream\<close>.
\<close>

definition mapper_writes :: "(mr_file_line_t \<Rightarrow> pair_msg script) \<Rightarrow> (path \<times> byte list list) list \<Rightarrow> byte list \<Rightarrow> bool" where
  "mapper_writes mapper fs bs \<longleftrightarrow> (\<exists>L e n queue_size runs pad (s :: state) w t. log_ready L e \<and> 0 < queue_size \<and>
     rds s STDIN_FILENO = files_bytes pad fs \<and> wrs s STDOUT_FILENO = [] \<and>
     (\<forall>k. mapper_phase mapper (take k (lines_of_reading None fs)) (runs (take k (lines_of_reading None fs)))) \<and>
     mapper_process_main L n queue_size (mapper_threads L runs) (e, s) = (Inr EXIT_SUCCESS, (w, t)) \<and>
     bs = wrs t STDOUT_FILENO)"

definition reducer_writes :: "user_reducer \<Rightarrow> byte list \<Rightarrow> byte list \<Rightarrow> bool" where
  "reducer_writes reducer stream bs \<longleftrightarrow> (\<exists>L e n queue_size runs (s :: state) w t. log_ready L e \<and> 0 < queue_size \<and>
     rds s STDIN_FILENO = stream \<and> wrs s STDOUT_FILENO = [] \<and>
     (\<forall>tbl. length (concat tbl) < SSIZE_LIMIT \<longrightarrow> reducer_phase reducer tbl (runs tbl)) \<and>
     reducer_process_main L n queue_size (reducer_threads runs) (e, s) = (Inr EXIT_SUCCESS, (w, t)) \<and>
     bs = wrs t STDOUT_FILENO)"

lemma mapper_writesD:
  assumes "mapper_writes mapper fs bs" and "\<forall>f \<in> set fs. small_file f"
  obtains xs where "mset xs = mset (all_pairs mapper (lines_of_reading None fs))" and "bs = pairs_bytes xs"
proof -
  from assms(1) obtain L e n queue_size runs pad s w t where p: "log_ready L e" "0 < queue_size"
      "rds (s :: state) STDIN_FILENO = files_bytes pad fs" "wrs s STDOUT_FILENO = []"
      "\<forall>k. mapper_phase mapper (take k (lines_of_reading None fs)) (runs (take k (lines_of_reading None fs)))"
    and r: "mapper_process_main L n queue_size (mapper_threads L runs) (e, s) = (Inr EXIT_SUCCESS, (w, t))"
      "bs = wrs t STDOUT_FILENO"
    unfolding mapper_writes_def by blast
  have "mapped mapper (lines_of_reading None fs) (wrs s) (wrs t)"
    using ok_valueD [OF mapper_process_ok [OF p(1-3) assms(2) p(5) [rule_format]] r(1)] by simp
  then show thesis using that r(2) p(4) by (auto simp: mapped_def)
qed

lemma reducer_writesD:
  assumes "reducer_writes reducer (pairs_bytes xs) bs" and "\<forall>x \<in> set xs. collectable x" and "length xs < VALUE_LIMIT"
  obtains tbl ms where "grouped xs tbl" and "bs = concat (map result_msg_bytes ms)"
    and "mset ms = mset (concat (map (\<lambda>node. msgs (reduce_node reducer node)) (concat tbl)))"
proof -
  from assms(1) obtain L e n queue_size runs s w t where p: "log_ready L e" "0 < queue_size"
      "rds (s :: state) STDIN_FILENO = pairs_bytes xs" "wrs s STDOUT_FILENO = []"
      "\<forall>tbl. length (concat tbl) < SSIZE_LIMIT \<longrightarrow> reducer_phase reducer tbl (runs tbl)"
    and r: "reducer_process_main L n queue_size (reducer_threads runs) (e, s) = (Inr EXIT_SUCCESS, (w, t))"
      "bs = wrs t STDOUT_FILENO"
    unfolding reducer_writes_def by blast
  have "reducer_phase reducer tbl (runs tbl)" if "groups tbl xs" for tbl
    using p(5) grouped_length [OF groups_grouped [OF that]] assms(3) by simp
  from ok_valueD [OF reducer_process_ok [OF p(1-3) assms(2,3) this] r(1)]
  obtain tbl where "grouped xs tbl" "reduced reducer tbl (wrs s) (wrs t)" by auto
  then show thesis using that r(2) p(4) by (auto simp: reduced_def)
qed

text \<open>Such processes exist.\<close>

lemma mapper_writes_exists:
  assumes "\<forall>f \<in> set fs. small_file f" and "length (lines_of_reading None fs) < SSIZE_LIMIT" and "\<And>ln. result (mapper ln) \<noteq> -1"
  shows "\<exists>bs. mapper_writes mapper fs bs"
proof -
  obtain runs where runs: "\<forall>k. mapper_phase mapper (take k (lines_of_reading None fs)) (runs (take k (lines_of_reading None fs)))"
    using assms(2,3) by (rule mapper_runs_exist)
  let ?s = "example_state (files_bytes [] fs)"
  have four: "0 < (4 :: size_t)" and rd: "rds ?s STDIN_FILENO = files_bytes [] fs" and wr: "wrs ?s STDOUT_FILENO = []" by simp_all
  from mapper_process_ok [OF example_ready four rd assms(1) runs [rule_format], of 2]
  obtain r w t where "mapper_process_main example_log 2 4 (mapper_threads example_log runs) (example_env [], ?s) = (Inr r, (w, t))"
      "r = EXIT_SUCCESS" by (rule ok_valueE) auto
  then show ?thesis unfolding mapper_writes_def using four rd wr runs example_ready by blast
qed

lemma reducer_writes_exists:
  assumes "\<forall>x \<in> set xs. collectable x" and "length xs < VALUE_LIMIT"
  shows "\<exists>bs. reducer_writes reducer (pairs_bytes xs) bs"
proof -
  obtain runs where runs: "\<forall>tbl. length (concat tbl) < SSIZE_LIMIT \<longrightarrow> reducer_phase reducer tbl (runs tbl)"
    by (rule reducer_runs_exist)
  let ?s = "example_state (pairs_bytes xs)"
  have four: "0 < (4 :: size_t)" and rd: "rds ?s STDIN_FILENO = pairs_bytes xs" and wr: "wrs ?s STDOUT_FILENO = []" by simp_all
  have "reducer_phase reducer tbl (runs tbl)" if "groups tbl xs" for tbl
    using runs grouped_length [OF groups_grouped [OF that]] assms(2) by simp
  from reducer_process_ok [OF example_ready four rd assms this, of 2]
  obtain r w t where "reducer_process_main example_log 2 4 (reducer_threads runs) (example_env [], ?s) = (Inr r, (w, t))"
      "r = EXIT_SUCCESS" by (rule ok_valueE) auto
  then show ?thesis unfolding reducer_writes_def using four rd wr runs example_ready by blast
qed

section \<open>The job as a whole\<close>

text \<open>Both processes together: what the first one writes is what the second one reads.\<close>

lemma map_reduce:
  assumes "mapper_writes mapper fs bs" and small: "\<forall>f \<in> set fs. small_file f" and "reducer_writes reducer bs bs'"
    and good: "\<forall>x \<in> set (all_pairs mapper (lines_of_reading None fs)). collectable x"
    and len: "length (all_pairs mapper (lines_of_reading None fs)) < VALUE_LIMIT"
  obtains xs tbl ms where "mset xs = mset (all_pairs mapper (lines_of_reading None fs))" and "grouped xs tbl"
    and "bs' = concat (map result_msg_bytes ms)"
    and "mset ms = mset (concat (map (\<lambda>node. msgs (reduce_node reducer node)) (concat tbl)))"
proof -
  obtain xs where xs: "mset xs = mset (all_pairs mapper (lines_of_reading None fs))" "bs = pairs_bytes xs"
    by (rule mapper_writesD [OF assms(1) small])
  have "\<forall>x \<in> set xs. collectable x" and "length xs < VALUE_LIMIT"
    using good len mset_eq_setD [OF xs(1)] mset_eq_length [OF xs(1)] by simp_all
  with assms(3) obtain tbl ms where "grouped xs tbl" "bs' = concat (map result_msg_bytes ms)"
      "mset ms = mset (concat (map (\<lambda>node. msgs (reduce_node reducer node)) (concat tbl)))"
    unfolding xs(2) by (rule reducer_writesD)
  with xs(1) show thesis by (rule that)
qed


section \<open>Word count\<close>

abbreviation all_words :: "mr_file_line_t list \<Rightarrow> byte list list" where
  "all_words lines \<equiv> concat (map (\<lambda>ln. words_of (line_text ln)) lines)"

lemma word_count_pairs: "all_pairs word_count_script lines = map (\<lambda>w. (w, [])) (all_words lines)"
proof -
  have words: "map (\<lambda>w. msg_pair (word_msg w)) (words_of xs) = map (\<lambda>w. (w, [])) (words_of xs)" for xs
    using words_of_nonzero [of _ xs] by (auto simp: msg_pair_def payload_def)
  show ?thesis by (induction lines) (simp_all add: all_pairs_def word_count_script_def comp_def words del: map_eq_conv)
qed

lemma length_values_count: "length (values_of t xs) = count (image_mset fst (mset xs)) t"
  by (induction xs) (auto simp: values_of_def)

definition msg_result :: "result_msg \<Rightarrow> byte list \<times> byte list" where
  "msg_result = (\<lambda>(t, v, n). (cstr t, payload v n))"

lemma results_bytes_msgs: "concat (map result_msg_bytes ms) = results_bytes (map msg_result ms)"
proof -
  have "result_msg_bytes = (\<lambda>(t, v). result_bytes t v) \<circ> msg_result"
    by (simp add: result_msg_bytes_def msg_result_def fun_eq_iff)
  then show ?thesis by (simp add: results_bytes_def)
qed

lemma word_count_results:
  "map msg_result (concat (map (\<lambda>node. msgs (reduce_node word_count_reducer node)) nodes)) =
   map (\<lambda>node. (token_of node, enc_size (node_count node))) nodes"
  by (induction nodes) (simp_all add: word_count_reducer_def msg_result_def payload_def)

lemma grouped_counts:
  assumes "grouped xs tbl" and "mset xs = mset (map (\<lambda>w. (w, [])) ws)" and "node \<in> set (concat tbl)"
  shows "node_count node = word_of_nat (count (mset ws) (token_of node))"
proof -
  have "image_mset fst (mset xs) = mset ws" unfolding assms(2) by (simp add: image_mset.compositionality comp_def)
  then have "length (values_of (token_of node) xs) = count (mset ws) (token_of node)" by (simp add: length_values_count)
  moreover have "length (values_of (token_of node) xs) = unat (node_count node)"
    using assms(1,3) list_all2_lengthD unfolding grouped_def by metis
  ultimately have "(word_of_nat (unat (node_count node)) :: size_t) = word_of_nat (count (mset ws) (token_of node))" by simp
  then show ?thesis by simp
qed

text \<open>The words of the files, and the pairs the mapper emits for them.\<close>

definition file_words :: "(path \<times> byte list list) list \<Rightarrow> byte list list" where
  "file_words fs = concat (map (\<lambda>(name, ls). concat (map words_of ls)) fs)"

lemma line_struct_text: "length l < SSIZE_LIMIT \<Longrightarrow> line_text (line_struct name i l) = l \<and> line_ok (line_struct name i l)"
  by (simp add: line_text_def line_struct_def line_ok_def)

lemma numbered_words:
  "\<forall>l \<in> set ls. length l < SSIZE_LIMIT \<Longrightarrow>
    all_words (map (\<lambda>(name, i, l). line_struct name i l) (numbered name n ls)) = concat (map words_of ls)"
  by (induction ls arbitrary: n) (simp_all add: line_struct_text)

lemma received_words: "\<forall>f \<in> set fs. small_file f \<Longrightarrow> all_words (lines_of_reading None fs) = file_words fs"
proof (induction fs)
  case (Cons f fs)
  then show ?case using numbered_words [of "snd f" "fst f" 1] by (cases f) (simp add: file_words_def small_file_def)
qed (simp add: file_words_def)

lemma file_words_small:
  assumes "\<forall>f \<in> set fs. small_file f" and "w \<in> set (file_words fs)"
  shows "collectable (w, [])" and "length w < SSIZE_LIMIT"
proof -
  from assms(2) obtain name ls l where "(name, ls) \<in> set fs" "l \<in> set ls" and w: "w \<in> set (words_of l)"
    by (auto simp: file_words_def)
  then have "length l < SSIZE_LIMIT" using assms(1) by (auto simp: small_file_def)
  then show "length w < SSIZE_LIMIT" using words_of_length [OF w] by simp
  then show "collectable (w, [])" using words_of_nonzero [OF w] by (simp add: collectable_def small_pair_def)
qed

text \<open>What the two processes make of the files: one result for each word, with the number of its occurrences.\<close>

lemma word_count_output:
  assumes "mapper_writes word_count_script fs bs" and small: "\<forall>f \<in> set fs. small_file f"
    and "reducer_writes word_count_reducer bs bs'" and "length (file_words fs) < VALUE_LIMIT"
  obtains res where "bs' = results_bytes res" and "list_all printable res" and "distinct (map fst res)"
    and "fst ` set res = set (file_words fs)"
    and "set (map shown_of res) = (\<lambda>w. Count w (word_of_nat (count (mset (file_words fs)) w))) ` set (file_words fs)"
proof -
  let ?ws = "file_words fs"
  have pairs: "all_pairs word_count_script (lines_of_reading None fs) = map (\<lambda>w. (w, [])) ?ws"
    using word_count_pairs received_words [OF small] by simp
  have good: "\<forall>x \<in> set (all_pairs word_count_script (lines_of_reading None fs)). collectable x"
    and len: "length (all_pairs word_count_script (lines_of_reading None fs)) < VALUE_LIMIT"
    unfolding pairs using file_words_small(1) [OF small] assms(4) by auto
  obtain xs tbl ms where xs: "mset xs = mset (all_pairs word_count_script (lines_of_reading None fs))" "grouped xs tbl"
      "bs' = concat (map result_msg_bytes ms)"
      "mset ms = mset (concat (map (\<lambda>node. msgs (reduce_node word_count_reducer node)) (concat tbl)))"
    by (rule map_reduce [OF assms(1) small assms(3) good len])
  let ?res = "map msg_result ms" and ?nodes = "map (\<lambda>node. (token_of node, enc_size (node_count node))) (concat tbl)"
  have perm: "mset ?res = mset ?nodes"
    unfolding word_count_results [symmetric] mset_map xs(4) ..
  have set_xs: "set xs = (\<lambda>w. (w, [])) ` set ?ws" using mset_eq_setD [OF xs(1)] pairs by simp
  have tokens: "token_of ` set (concat tbl) = set ?ws"
    using xs(2) unfolding grouped_def set_xs by (simp add: image_image)
  have counts: "node_count node = word_of_nat (count (mset ?ws) (token_of node))" if "node \<in> set (concat tbl)" for node
    by (rule grouped_counts [OF xs(2) _ that]) (simp only: xs(1) pairs)
  have set_res: "set ?res = set ?nodes" by (rule mset_eq_setD [OF perm])
  show thesis
  proof
    show "bs' = results_bytes ?res" by (simp only: xs(3) results_bytes_msgs)
    show "list_all printable ?res"
      unfolding list_all_iff set_res using tokens file_words_small(2) [OF small]
      by (fastforce simp: printable_def small_result_def)
    have "mset (map fst ?res) = mset (map token_of (concat tbl))"
      using arg_cong [OF perm, of "image_mset fst"] by (simp add: image_mset.compositionality comp_def)
    then show "distinct (map fst ?res)" using xs(2) mset_eq_imp_distinct_iff unfolding grouped_def by blast
    show "fst ` set ?res = set ?ws"
      unfolding set_res tokens [symmetric] by (simp add: image_image)
    have "set (map shown_of ?res) = shown_of ` set ?res" by (rule set_map)
    also have "\<dots> = (\<lambda>node. Count (token_of node) (node_count node)) ` set (concat tbl)"
      unfolding set_res by (simp add: image_image shown_of_def)
    also have "\<dots> = (\<lambda>w. Count w (word_of_nat (count (mset ?ws) w))) ` token_of ` set (concat tbl)"
      unfolding image_image by (rule image_cong [OF refl]) (simp only: counts)
    finally show "set (map shown_of ?res) = (\<lambda>w. Count w (word_of_nat (count (mset ?ws) w))) ` set ?ws"
      unfolding tokens .
  qed
qed

lemma lines_of_short: "l \<in> set (lines_of content) \<Longrightarrow> length l \<le> length content"
  using raw_lines_short by (fastforce simp: lines_of_def strip_newline_def)


lemma entry_file_small:
  assumes "f \<in> set (entry_file fls p)"
    and "\<And>content. fls p = Some (Reg content) \<Longrightarrow> length p < SSIZE_LIMIT \<and> length content < SSIZE_LIMIT"
  shows "small_file f"
proof -
  from assms(1) obtain content where c: "fls p = Some (Reg content)" and f: "f = (p, lines_of content)"
    by (cases "fls p"; cases "the (fls p)") (auto simp: entry_file_def)
  from assms(2) [OF c] lines_of_short [of _ content] show ?thesis by (fastforce simp: small_file_def f)
qed

lemma good_input_small:
  assumes good: "good_input fls p"
  shows "\<forall>f \<in> set (input_files fls p). small_file f"
proof
  fix f assume f: "f \<in> set (input_files fls p)"
  show "small_file f"
  proof (cases "\<exists>names. fls p = Some (Dir names)")
    case True
    then obtain names where dir: "fls p = Some (Dir names)" by blast
    then obtain d where d: "d \<in> set (entries_of names)" "d \<noteq> DOT" "d \<noteq> DOTDOT" "f \<in> set (entry_file fls (p @ SLASH # d))"
      using f by (auto simp: input_files_def dir_files_def split: if_splits)
    have "good_entry fls p d" using good d(1-3) dir by (auto simp: good_input_def)
    with d(2,3) show ?thesis by (intro entry_file_small [OF d(4)]) (simp add: good_entry_def)
  next
    case False
    then have "f \<in> set (entry_file fls p)" using f by (auto simp: input_files_def split: option.splits node.splits)
    then show ?thesis by (rule entry_file_small) (use good in \<open>simp add: good_input_def\<close>)
  qed
qed



section \<open>Witnesses\<close>

lemma job_exists:
  assumes "\<forall>f \<in> set fs. small_file f" and "length (lines_of_reading None fs) < SSIZE_LIMIT" and "\<And>ln. result (mapper ln) \<noteq> -1"
    and good: "\<forall>x \<in> set (all_pairs mapper (lines_of_reading None fs)). collectable x"
    and len: "length (all_pairs mapper (lines_of_reading None fs)) < VALUE_LIMIT"
  obtains bs bs' where "mapper_writes mapper fs bs" and "reducer_writes reducer bs bs'"
proof -
  obtain bs where bs: "mapper_writes mapper fs bs" using mapper_writes_exists [of fs mapper, OF assms(1-3)] by blast
  obtain xs where xs: "mset xs = mset (all_pairs mapper (lines_of_reading None fs))" "bs = pairs_bytes xs"
    by (rule mapper_writesD [OF bs assms(1)])
  have "\<forall>x \<in> set xs. collectable x" and "length xs < VALUE_LIMIT"
    using good len mset_eq_setD [OF xs(1)] mset_eq_length [OF xs(1)] by simp_all
  from reducer_writes_exists [OF this, of reducer] show thesis using that bs unfolding xs(2) by blast
qed

text \<open>One file with the line \<open>h\<close>.\<close>

abbreviation example_files :: "(path \<times> byte list list) list" where
  "example_files \<equiv> [([105], [[104]])]"

lemma example_file_words: "file_words example_files = [[104]]"
  by (simp add: file_words_def words_of_def isalnum_c_def is_upper_def tolower_c_def)

lemma example_input_small: "\<forall>f \<in> set example_files. small_file f"
  by (simp add: small_file_def)

lemma example_pairs_of_files: "all_pairs word_count_script (lines_of_reading None example_files) = [([104], [])]"
  unfolding word_count_pairs received_words [OF example_input_small] example_file_words by simp

lemma example_good:
  "\<forall>x \<in> set (all_pairs word_count_script (lines_of_reading None example_files)). collectable x"
  "length (all_pairs word_count_script (lines_of_reading None example_files)) < VALUE_LIMIT"
  unfolding example_pairs_of_files by (simp_all add: collectable_def small_pair_def)

lemma example_job:
  obtains bs bs' where "mapper_writes word_count_script example_files bs" and "reducer_writes word_count_reducer bs bs'"
proof (rule job_exists [OF example_input_small _ _ example_good])
  show "length (lines_of_reading None example_files) < SSIZE_LIMIT" by simp
  show "result (word_count_script ln) \<noteq> -1" for ln by (simp add: word_count_script_def)
qed (rule that)


abbreviation example_host :: "byte list \<Rightarrow> unit os" where
  "example_host bs \<equiv> (example_os [False, False])\<lparr>incoming := (\<lambda>_. bs)\<rparr>"

lemma example_host_ready: "host_ready [105] [111] (example_host bs)"
  using example_job_ready unfolding job_ready_def host_ready_def by simp

lemma example_input: "input_files (files (example_host bs)) [105] = example_files"
  by (simp add: input_files_def entry_file_def lines_of_def strip_newline_def)


end
